(* ===== verification/Prelude.thy ===== *)
theory Prelude
  imports Main "HOL-Library.Word" "HOL-Library.AList"
begin

text \<open>
  Shared vocabulary of the development: the machine integers of the Go sources, errors and
  panics as values, the state-and-error shape that every stateful operation has, a small
  weakest-precondition calculus for it, and the generic lemmas on words, loops and
  association lists that the component theories use.
\<close>

section \<open>Machine integers and byte strings\<close>

type_synonym u8 = "8 word"
type_synonym u32 = "32 word"
type_synonym u64 = "64 word"
type_synonym bytes = "8 word list"

named_theorems word_facts \<open>order facts of fixed-width counters\<close>

lemma word_Suc_nonzero_less [word_facts]: "x + 1 \<noteq> 0 \<Longrightarrow> x < (x + 1 :: 'a :: len word)"
  by (metis add.commute add.right_inverse inc_less_eq_self_iff_eq linorder_not_less)

lemma word_Suc_nonzero_le [word_facts]: "x + 1 \<noteq> 0 \<Longrightarrow> (x + 1 \<le> y) = (x < (y :: 'a :: len word))"
  by (meson inc_le order_less_le_trans word_Suc_nonzero_less)

lemma word_less_Suc_le [word_facts]: "y < (x + 1 :: 'a :: len word) \<Longrightarrow> y \<le> x"
  by (rule less_inc_imp_less_eq)

lemma word_nonzero_pred_less [word_facts]: "x \<noteq> 0 \<Longrightarrow> x - 1 < (x :: 'a :: len word)"
  by (metis diff_add_cancel word_Suc_nonzero_less)

lemma word_less_nonzero [word_facts]: "y < x \<Longrightarrow> x \<noteq> (0 :: 'a :: len word)"
  by auto

lemma unat_Suc_less: "p < (n :: 'a :: len word) \<Longrightarrow> unat (p + 1) = Suc (unat p)"
proof -
  assume "p < n"
  then have "1 + p \<noteq> 0" by (metis add_eq_0_iff word_order.extremum_strict)
  from unatSuc [OF this] show ?thesis by (simp add: add.commute)
qed

lemma loop_measure: "p < (n :: 'a :: len word) \<Longrightarrow> unat n - unat (p + 1) < unat n - unat p"
  by (simp add: unat_Suc_less word_less_nat_alt diff_less_mono2)

lemma unat_below: "k < unat (n :: u32) \<Longrightarrow> unat (of_nat k :: u32) = k"
proof -
  assume "k < unat n"
  moreover have "unat n < 2 ^ 32" using unsigned_less [of n] by simp
  ultimately show ?thesis by (simp add: unsigned_of_nat take_bit_nat_eq_self)
qed

section \<open>Errors, panics and stateful operations\<close>

text \<open>
  A Go function that returns an error value, or that may panic, yields a value of the sum
  \<open>go_error + 'a\<close>. The string of \<^term>\<open>Error\<close> is the text of the innermost
  \<open>fmt.Errorf\<close>: callers only test whether an error is nil, so the prefixes they add are
  diagnostics. A \<^term>\<open>Panic\<close> ends the process; \<^term>\<open>Blocked\<close> is a wait that only another
  goroutine can end. An operation keeps the state changes it
  made before it failed, as the Go code does, so a stateful operation returns the new state
  together with its result.
\<close>

datatype go_error = Error string | Panic string | Blocked

type_synonym 'a result = "go_error + 'a"
type_synonym ('s, 'a) handler = "'s \<Rightarrow> 's \<times> 'a result"

definition is_panic :: "'a result \<Rightarrow> bool" where
  "is_panic r = (case r of Inr _ \<Rightarrow> False | Inl (Error _) \<Rightarrow> False | Inl _ \<Rightarrow> True)"

lemma is_panic_simps [simp]:
  "is_panic (Inr x) = False" "is_panic (Inl (Error e)) = False" "is_panic (Inl (Panic e)) = True"
  "is_panic (Inl Blocked) = True"
  by (simp_all add: is_panic_def)

lemma is_panic_Inl_cast: "is_panic (Inl e :: 'a result) = is_panic (Inl e :: 'b result)"
  by (cases e) simp_all

definition guard_err :: "bool \<Rightarrow> string \<Rightarrow> unit result" where
  "guard_err ok msg = (if ok then Inr () else Inl (Error msg))"

definition then_check :: "unit result \<Rightarrow> unit result \<Rightarrow> unit result" where
  "then_check a b = (case a of Inl e \<Rightarrow> Inl e | Inr _ \<Rightarrow> b)"

lemma guard_err_simps [simp]:
  "(guard_err ok m = Inr u) = ok" "guard_err True m = Inr ()" "guard_err False m = Inl (Error m)"
  "\<not> is_panic (guard_err ok m)"
  by (simp_all add: guard_err_def)

lemma then_check_simps [simp]:
  "(then_check a b = Inr u) = (a = Inr () \<and> b = Inr ())"
  "then_check (Inl e) b = Inl e" "then_check (Inr v) b = b"
  "is_panic (then_check a b) = (is_panic a \<or> a = Inr () \<and> is_panic b)"
  by (auto simp: then_check_def is_panic_def split: sum.splits go_error.splits)

definition ret :: "'a \<Rightarrow> ('s, 'a) handler" where
  "ret x s = (s, Inr x)"

definition throw :: "go_error \<Rightarrow> ('s, 'a) handler" where
  "throw e s = (s, Inl e)"

definition bindM :: "('s, 'a) handler \<Rightarrow> ('a \<Rightarrow> ('s, 'b) handler) \<Rightarrow> ('s, 'b) handler" where
  "bindM m f s = (case m s of (s', Inl e) \<Rightarrow> (s', Inl e) | (s', Inr x) \<Rightarrow> f x s')"

definition seqM :: "('s, unit) handler \<Rightarrow> ('s, 'b) handler \<Rightarrow> ('s, 'b) handler" where
  "seqM m k = bindM m (\<lambda>_. k)"

definition gets :: "('s \<Rightarrow> 'a) \<Rightarrow> ('s, 'a) handler" where
  "gets f s = (s, Inr (f s))"

definition modify :: "('s \<Rightarrow> 's) \<Rightarrow> ('s, unit) handler" where
  "modify f s = (f s, Inr ())"

definition check :: "'a result \<Rightarrow> ('s, 'a) handler" where
  "check r s = (s, r)"

fun forM :: "('a \<Rightarrow> ('s, unit) handler) \<Rightarrow> 'a list \<Rightarrow> ('s, unit) handler" where
  "forM f [] = ret ()"
| "forM f (x # xs) = seqM (f x) (forM f xs)"

section \<open>Weakest preconditions\<close>

text \<open>
  \<open>wp m Q s\<close> holds when running \<open>m\<close> from \<open>s\<close> ends with a result and a state that
  satisfy \<open>Q\<close>. Every operation is total, so partial and total correctness coincide.
  The collection \<open>wp_rules\<close> computes \<^term>\<open>wp\<close> through the combinators.
\<close>

definition wp :: "('s, 'a) handler \<Rightarrow> ('a result \<Rightarrow> 's \<Rightarrow> bool) \<Rightarrow> 's \<Rightarrow> bool" where
  "wp m Q s = Q (snd (m s)) (fst (m s))"

named_theorems wp_rules \<open>weakest preconditions of the combinators\<close>

lemma wp_ret [wp_rules]: "wp (ret x) Q s = Q (Inr x) s"
  by (simp add: wp_def ret_def)

lemma wp_throw [wp_rules]: "wp (throw e) Q s = Q (Inl e) s"
  by (simp add: wp_def throw_def)

lemma wp_gets [wp_rules]: "wp (gets f) Q s = Q (Inr (f s)) s"
  by (simp add: wp_def gets_def)

lemma wp_modify [wp_rules]: "wp (modify f) Q s = Q (Inr ()) (f s)"
  by (simp add: wp_def modify_def)

lemma wp_check [wp_rules]: "wp (check r) Q s = Q r s"
  by (simp add: wp_def check_def)

lemma wp_bindM [wp_rules]:
  "wp (bindM m f) Q s =
     wp m (\<lambda>r s'. case r of Inl e \<Rightarrow> Q (Inl e) s' | Inr x \<Rightarrow> wp (f x) Q s') s"
  by (simp add: wp_def bindM_def split: prod.splits sum.splits)

lemma wp_seqM [wp_rules]:
  "wp (seqM m k) Q s =
     wp m (\<lambda>r s'. case r of Inl e \<Rightarrow> Q (Inl e) s' | Inr _ \<Rightarrow> wp k Q s') s"
  by (simp add: seqM_def wp_bindM)

lemma wp_if [wp_rules]: "wp (if b then m else k) Q s = (if b then wp m Q s else wp k Q s)"
  by simp

lemma wp_mono: "wp m P s \<Longrightarrow> (\<And>r s'. P r s' \<Longrightarrow> Q r s') \<Longrightarrow> wp m Q s"
  by (simp add: wp_def)

lemma wp_conj: "wp m (\<lambda>r s. P r s \<and> Q r s) s = (wp m P s \<and> wp m Q s)"
  by (simp add: wp_def)

lemma wp_True [simp]: "wp m (\<lambda>_ _. True) s"
  by (simp add: wp_def)

lemma wpI: "(\<And>s' r. m s = (s', r) \<Longrightarrow> Q r s') \<Longrightarrow> wp m Q s"
  by (simp add: wp_def)

lemma wpD: "wp m Q s \<Longrightarrow> m s = (s', r) \<Longrightarrow> Q r s'"
  by (simp add: wp_def)

text \<open>The loop rule: an invariant that every iteration keeps, also when it fails.\<close>

lemma wp_forM:
  assumes "I s"
    and "\<And>x s. x \<in> set xs \<Longrightarrow> I s \<Longrightarrow> wp (f x) (\<lambda>r s'. case r of Inl e \<Rightarrow> E e s' | Inr _ \<Rightarrow> I s') s"
  shows "wp (forM f xs) (\<lambda>r s'. case r of Inl e \<Rightarrow> E e s' | Inr _ \<Rightarrow> I s') s"
  using assms
proof (induction xs arbitrary: s)
  case Nil
  then show ?case by (simp add: wp_rules)
next
  case (Cons x xs)
  have "wp (f x) (\<lambda>r s'. case r of Inl e \<Rightarrow> E e s' | Inr _ \<Rightarrow> I s') s"
    using Cons.prems by simp
  then show ?case
    unfolding forM.simps wp_seqM
  proof (rule wp_mono)
    fix r :: "unit result" and s'
    assume "case r of Inl e \<Rightarrow> E e s' | Inr _ \<Rightarrow> I s'"
    then show "case r of Inl e \<Rightarrow> (case Inl e of Inl e \<Rightarrow> E e s' | Inr _ \<Rightarrow> I s')
        | Inr _ \<Rightarrow> wp (forM f xs) (\<lambda>r s'. case r of Inl e \<Rightarrow> E e s' | Inr _ \<Rightarrow> I s') s'"
      using Cons by (cases r) auto
  qed
qed

subsection \<open>State invariants\<close>

text \<open>
  \<open>keeps E I m\<close>: from a state with \<open>I\<close> the operation \<open>m\<close> ends in a state with \<open>I\<close>, also when it
  returns an error; if it panics or blocks, it does so in a way that \<open>E\<close> allows. The state is then
  of no interest, because the process has ended.
\<close>

definition outcome :: "(go_error \<Rightarrow> bool) \<Rightarrow> 'a result \<Rightarrow> bool \<Rightarrow> bool" where
  "outcome E r P = (case r of Inr _ \<Rightarrow> P | Inl (Error _) \<Rightarrow> P | Inl e \<Rightarrow> E e)"

definition keeps :: "(go_error \<Rightarrow> bool) \<Rightarrow> ('s \<Rightarrow> bool) \<Rightarrow> ('s, 'a) handler \<Rightarrow> bool" where
  "keeps E I m = (\<forall>s. I s \<longrightarrow> wp m (\<lambda>r s'. outcome E r (I s')) s)"

lemma outcome_simps [simp]:
  "outcome E (Inr x) P = P" "outcome E (Inl (Error e)) P = P" "outcome E (Inl (Panic e)) P = E (Panic e)"
  "outcome E (Inl Blocked) P = E Blocked"
  by (simp_all add: outcome_def)

lemma outcome_Inl: "outcome E (Inl e :: 'a result) P = outcome E (Inl e :: 'b result) P"
  by (cases e) simp_all

lemma outcome_mono: "outcome E r P \<Longrightarrow> (P \<Longrightarrow> Q) \<Longrightarrow> outcome E r Q"
  by (auto simp: outcome_def split: sum.splits go_error.splits)

lemma outcome_weaken: "outcome E r P \<Longrightarrow> (\<And>e. E e \<Longrightarrow> E' e) \<Longrightarrow> outcome E' r P"
  by (auto simp: outcome_def split: sum.splits go_error.splits)

lemma outcome_no_panic: "outcome E r P \<Longrightarrow> \<not> is_panic r \<Longrightarrow> P"
  by (auto simp: outcome_def is_panic_def split: sum.splits go_error.splits)

lemma keepsI: "(\<And>s. I s \<Longrightarrow> wp m (\<lambda>r s'. outcome E r (I s')) s) \<Longrightarrow> keeps E I m"
  by (simp add: keeps_def)

lemma keepsD: "keeps E I m \<Longrightarrow> I s \<Longrightarrow> wp m (\<lambda>r s'. outcome E r (I s')) s"
  by (simp add: keeps_def)

lemma keeps_run: "keeps E I m \<Longrightarrow> I s \<Longrightarrow> m s = (s', r) \<Longrightarrow> outcome E r (I s')"
  by (auto simp: keeps_def wp_def)

lemma keeps_ret: "keeps E I (ret x)" and keeps_gets: "keeps E I (gets f)"
  and keeps_error: "keeps E I (throw (Error e))"
  by (simp_all add: keeps_def wp_rules)

lemma keeps_throw: "(\<forall>m. e \<noteq> Error m \<Longrightarrow> E e) \<Longrightarrow> keeps E I (throw e)"
  by (cases e) (simp_all add: keeps_def wp_rules)

lemma keeps_check: "(\<And>e. r = Inl e \<Longrightarrow> \<forall>m. e \<noteq> Error m \<Longrightarrow> E e) \<Longrightarrow> keeps E I (check r)"
  by (cases r; cases "projl r") (auto simp: keeps_def wp_rules outcome_def split: sum.splits go_error.splits)

lemma wp_outcome_bindM:
  assumes "wp m (\<lambda>r s'. outcome E r (J s')) s"
    and "\<And>x s'. m s = (s', Inr x) \<Longrightarrow> J s' \<Longrightarrow> wp (f x) (\<lambda>r s'. outcome E r (I s')) s'"
    and "\<And>s'. J s' \<Longrightarrow> I s'"
  shows "wp (bindM m f) (\<lambda>r s'. outcome E r (I s')) s"
proof -
  obtain s' r where m: "m s = (s', r)" by fastforce
  then have out: "outcome E r (J s')" using assms(1) by (simp add: wp_def)
  show ?thesis
  proof (cases r)
    case (Inl e)
    then show ?thesis using m out assms(3) by (cases e) (auto simp: wp_def bindM_def)
  next
    case (Inr x)
    then show ?thesis using assms(2) [of s' x] m out by (simp add: wp_def bindM_def)
  qed
qed

lemma keeps_bindM: "keeps E I m \<Longrightarrow> (\<And>x. keeps E I (f x)) \<Longrightarrow> keeps E I (bindM m f)"
  unfolding keeps_def by (blast intro: wp_outcome_bindM)

lemma keeps_seqM: "keeps E I m \<Longrightarrow> keeps E I k \<Longrightarrow> keeps E I (seqM m k)"
  unfolding seqM_def by (rule keeps_bindM)

lemma keeps_if: "(b \<Longrightarrow> keeps E I m) \<Longrightarrow> (\<not> b \<Longrightarrow> keeps E I k) \<Longrightarrow> keeps E I (if b then m else k)"
  by simp

lemma keeps_modify: "(\<And>s. I s \<Longrightarrow> I (f s)) \<Longrightarrow> keeps E I (modify f)"
  by (simp add: keeps_def wp_rules)

lemma keeps_forM: "(\<And>x. x \<in> set xs \<Longrightarrow> keeps E I (f x)) \<Longrightarrow> keeps E I (forM f xs)"
  by (induction xs) (auto intro: keeps_ret keeps_seqM)

lemma keeps_weaken: "keeps E I m \<Longrightarrow> (\<And>e. E e \<Longrightarrow> E' e) \<Longrightarrow> keeps E' I m"
  unfolding keeps_def wp_def by (blast intro: outcome_weaken)

lemma keeps_gets_bindM:
  "(\<And>s. I s \<Longrightarrow> wp (f (g s)) (\<lambda>r s'. outcome E r (I s')) s) \<Longrightarrow> keeps E I (bindM (gets g) f)"
  by (simp add: keeps_def wp_rules)

lemmas keeps_intros = keeps_ret keeps_gets keeps_error keeps_bindM keeps_seqM keeps_if keeps_forM

section \<open>Association lists\<close>

lemma map_of_update [simp]: "map_of (AList.update k v al) = (map_of al)(k \<mapsto> v)"
  by (rule update_conv')

lemma map_of_delete [simp]: "map_of (AList.delete k al) = (map_of al)(k := None)"
  by (rule delete_conv')

lemma in_set_conv_map_of: "distinct (map fst al) \<Longrightarrow> ((k, v) \<in> set al) = (map_of al k = Some v)"
  by simp

end
