(* ===== verification/Encoding.thy ===== *)
theory Encoding
  imports Prelude
begin

text \<open>
  The parts of Go's \<open>encoding/binary\<close> that the sources use: fixed-width unsigned integers
  written in big-endian order, and read back from the front of a byte string.
\<close>

unbundle bit_operations_syntax

definition be_bytes :: "nat \<Rightarrow> 'a :: len word \<Rightarrow> bytes" where
  "be_bytes k w = map (\<lambda>i. ucast (drop_bit (8 * i) w)) (rev [0..<k])"

definition from_be :: "bytes \<Rightarrow> 'a :: len word" where
  "from_be bs = foldl (\<lambda>acc b. push_bit 8 acc OR ucast b) 0 bs"

definition be32 :: "u32 \<Rightarrow> bytes" where
  "be32 w = be_bytes 4 w"

definition be64 :: "u64 \<Rightarrow> bytes" where
  "be64 w = be_bytes 8 w"

definition str_bytes :: "string \<Rightarrow> bytes" where
  "str_bytes s = map of_char s"

text \<open>\<open>binary.Read\<close> of a \<open>uint64\<close> from a buffer: the value and what is left of the buffer.\<close>

definition read_be64 :: "bytes \<Rightarrow> (u64 \<times> bytes) result" where
  "read_be64 bs =
     (if bs = [] then Inl (Error ''EOF'')
      else if length bs < 8 then Inl (Error ''unexpected EOF'')
      else Inr (from_be (take 8 bs), drop 8 bs))"

section \<open>Round trips\<close>

lemma be_bytes_Suc: "be_bytes (Suc k) w = ucast (drop_bit (8 * k) w) # be_bytes k w"
  by (simp add: be_bytes_def)

lemma length_be_bytes [simp]: "length (be_bytes k w) = k"
  by (simp add: be_bytes_def)

lemma be_byte_shift:
  fixes w acc :: "'a :: len word"
  shows "push_bit (8 * k) (push_bit 8 acc OR ucast (ucast (drop_bit (8 * k) w) :: u8))
      OR take_bit (8 * k) w = push_bit (8 * Suc k) acc OR take_bit (8 * Suc k) w"
    (is "?l = ?r")
proof (rule bit_word_eqI)
  fix n assume n: "n < LENGTH('a)"
  consider "n < 8 * k" | "8 * k \<le> n" "n < 8 * Suc k" | "8 * Suc k \<le> n" by linarith
  then show "bit ?l n = bit ?r n"
    using n by cases (auto simp: bit_simps ac_simps)
qed

lemma foldl_be_bytes:
  "foldl (\<lambda>acc b. push_bit 8 acc OR ucast b) acc (be_bytes k w) =
     push_bit (8 * k) acc OR take_bit (8 * k) (w :: 'a :: len word)"
proof (induction k arbitrary: acc)
  case 0
  then show ?case by (simp add: be_bytes_def)
next
  case (Suc k)
  show ?case
    unfolding be_bytes_Suc foldl.simps Suc.IH by (rule be_byte_shift)
qed

lemma from_be_bytes: "LENGTH('a) = 8 * k \<Longrightarrow> from_be (be_bytes k (w :: 'a :: len word)) = w"
  by (simp add: from_be_def foldl_be_bytes word_size take_bit_word_eq_self)

lemma be_bytes_snoc: "be_bytes (Suc k) w = be_bytes k (drop_bit 8 w) @ [ucast w]"
  by (induction k) (simp_all add: be_bytes_def drop_bit_drop_bit ac_simps)

lemma from_be_snoc: "from_be (bs @ [b]) = push_bit 8 (from_be bs) OR ucast b"
  by (simp add: from_be_def)

lemma bit_from_be: "8 * length bs \<le> n \<Longrightarrow> n < LENGTH('a) \<Longrightarrow> \<not> bit (from_be bs :: 'a :: len word) n"
proof (induction bs arbitrary: n rule: rev_induct)
  case Nil then show ?case by (simp add: from_be_def)
next
  case (snoc b bs)
  then show ?case by (auto simp: from_be_snoc bit_simps dest!: bit_imp_le_length)
qed

lemma be_bytes_from_be:
  "8 * length bs \<le> LENGTH('a) \<Longrightarrow> be_bytes (length bs) (from_be bs :: 'a :: len word) = bs"
proof (induction bs rule: rev_induct)
  case Nil then show ?case by (simp add: be_bytes_def)
next
  case (snoc b bs)
  have hi: "n < 8 * length bs" if "bit (from_be bs :: 'a word) n" for n
    using that bit_from_be [of bs n, where 'a = 'a] bit_imp_le_length [OF that] by linarith
  have "drop_bit 8 (push_bit 8 (from_be bs) OR ucast b) = (from_be bs :: 'a word)"
    using snoc.prems by (intro bit_word_eqI) (auto simp: bit_simps dest: hi bit_imp_le_length)
  moreover have "ucast (push_bit 8 (from_be bs :: 'a word) OR ucast b) = b"
    using snoc.prems by (intro bit_word_eqI) (auto simp: bit_simps)
  ultimately show ?case using snoc by (simp add: be_bytes_snoc from_be_snoc)
qed
lemma length_be32 [simp]: "length (be32 v) = 4" and length_be64 [simp]: "length (be64 w) = 8"
  by (simp_all add: be32_def be64_def)

lemma from_be64 [simp]: "from_be (be64 w) = w" and from_be32 [simp]: "from_be (be32 v) = v"
  by (simp_all add: be64_def be32_def from_be_bytes)

lemma be64_inject [simp]: "(be64 v = be64 w) = (v = w)" and
  be32_inject [simp]: "(be32 x = be32 y) = (x = y)"
  by (metis from_be64, metis from_be32)

lemma be64_append_inject [simp]: "(be64 v @ xs = be64 w @ ys) = (v = w \<and> xs = ys)" and
  be32_append_inject [simp]: "(be32 v' @ xs = be32 w' @ ys) = (v' = w' \<and> xs = ys)"
  by (simp_all add: append_eq_append_conv)

lemma append_be64_inject [simp]: "(xs @ be64 v = ys @ be64 w) = (xs = ys \<and> v = w)"
  by (simp add: append_eq_append_conv)

lemma read_be64_be64 [simp]: "read_be64 (be64 w @ bs) = Inr (w, bs)"
  by (simp add: read_be64_def flip: length_0_conv)

lemma read_be64_error: "(\<exists>e. read_be64 bs = Inl (Error e)) = (length bs < 8)"
  by (auto simp: read_be64_def)

lemma read_be64_append: "read_be64 bs = Inr (w, rest) \<Longrightarrow> be64 w @ rest = bs"
  using be_bytes_from_be [of "take 8 bs", where 'a = 64]
  by (auto simp: read_be64_def be64_def split: if_splits)

lemma length_str_bytes [simp]: "length (str_bytes s) = length s"
  by (simp add: str_bytes_def)

end
