(* ===== verification/Usig.thy ===== *)
theory Usig
  imports Encoding
begin

text \<open>
  Package \<open>usig\<close>: the unique identifier that a USIG assigns to a message, and its binary form.
\<close>

record ui =
  Counter :: u64
  Cert :: bytes

definition MarshalBinary :: "ui \<Rightarrow> bytes" where
  "MarshalBinary u = be64 (Counter u) @ Cert u"

definition UnmarshalBinary :: "bytes \<Rightarrow> ui result" where
  "UnmarshalBinary inp =
     (case read_be64 inp of
        Inl e \<Rightarrow> Inl e
      | Inr (ctr, rest) \<Rightarrow> Inr \<lparr>Counter = ctr, Cert = rest\<rparr>)"

definition MustUnmarshalUI :: "bytes \<Rightarrow> ui result" where
  "MustUnmarshalUI inp =
     (case UnmarshalBinary inp of
        Inl e \<Rightarrow> Inl (Panic ''MustUnmarshalUI'')
      | Inr u \<Rightarrow> Inr u)"

lemma unmarshal_marshal [simp]: "UnmarshalBinary (MarshalBinary u) = Inr u"
  by (simp add: UnmarshalBinary_def MarshalBinary_def)

lemma must_unmarshal_marshal [simp]: "MustUnmarshalUI (MarshalBinary u) = Inr u"
  by (simp add: MustUnmarshalUI_def)

lemma marshal_unmarshal: "UnmarshalBinary bs = Inr u \<Longrightarrow> MarshalBinary u = bs"
  by (auto simp: UnmarshalBinary_def MarshalBinary_def read_be64_append split: sum.splits)

lemma unmarshal_short: "(\<exists>e. UnmarshalBinary bs = Inl (Error e)) = (length bs < 8)"
  by (auto simp: UnmarshalBinary_def read_be64_def)

end
