(* ===== verification/Messages.thy ===== *)
theory Messages
  imports Usig
begin

text \<open>
  Package \<open>messages\<close>: the protocol messages, and the bytes of a message that its
  authentication tag covers. The Go interfaces \<open>Request\<close>, \<open>Reply\<close> and \<open>ReqViewChange\<close>
  are records. \<open>CertifiedMessage\<close> is a datatype with one constructor per message kind; it is
  mutually recursive with \<open>ViewChange\<close>, because a ViewChange carries a log of certified
  messages and a NewView carries a list of ViewChange messages.
\<close>

section \<open>Message types\<close>

record request =
  req_ClientID :: u32
  req_Sequence :: u64
  req_Operation :: bytes
  req_Signature :: bytes

record reply =
  rep_ReplicaID :: u32
  rep_ClientID :: u32
  rep_Sequence :: u64
  rep_Result :: bytes
  rep_Signature :: bytes

record req_view_change =
  rvc_ReplicaID :: u32
  rvc_NewView :: u64
  rvc_Signature :: bytes

datatype certified =
    Prepare u32 u64 request ui
  | Commit u32 certified ui
  | CViewChange view_change
  | NewView u32 u64 "view_change list" ui
and view_change =
    ViewChange (vc_ReplicaID: u32) (vc_NewView: u64) (vc_MessageLog: "certified list")
      (vc_ViewChangeCert: "req_view_change list") (vc_UI: ui)

datatype message =
    MHello u32
  | MRequest request
  | MReply reply
  | MReqViewChange req_view_change
  | MCertified certified

type_synonym message_log = "certified list"
type_synonym view_change_cert = "req_view_change list"
type_synonym new_view_cert = "view_change list"

fun ReplicaID :: "certified \<Rightarrow> u32" where
  "ReplicaID (Prepare r v req u) = r"
| "ReplicaID (Commit r prop u) = r"
| "ReplicaID (CViewChange vc) = vc_ReplicaID vc"
| "ReplicaID (NewView r nv cert u) = r"

fun UI :: "certified \<Rightarrow> ui" where
  "UI (Prepare r v req u) = u"
| "UI (Commit r prop u) = u"
| "UI (CViewChange vc) = vc_UI vc"
| "UI (NewView r nv cert u) = u"

fun SetUI :: "ui \<Rightarrow> certified \<Rightarrow> certified" where
  "SetUI u (Prepare r v req _) = Prepare r v req u"
| "SetUI u (Commit r prop _) = Commit r prop u"
| "SetUI u (CViewChange (ViewChange r nv l c _)) = CViewChange (ViewChange r nv l c u)"
| "SetUI u (NewView r nv cert _) = NewView r nv cert u"

text \<open>
  The constructors of \<open>MessageImpl\<close>. A new message has no UI and no signature; a certified one
  gets \<open>no_ui\<close>, whose zero counter no verifier accepts, until \<open>SetUI\<close> replaces it.
\<close>

definition no_ui :: ui where
  "no_ui = \<lparr>Counter = 0, Cert = []\<rparr>"

definition NewRequest :: "u32 \<Rightarrow> u64 \<Rightarrow> bytes \<Rightarrow> request" where
  "NewRequest cl seq op =
     \<lparr>req_ClientID = cl, req_Sequence = seq, req_Operation = op, req_Signature = []\<rparr>"

definition NewPrepare :: "u32 \<Rightarrow> u64 \<Rightarrow> request \<Rightarrow> certified" where
  "NewPrepare r v req = Prepare r v req no_ui"

definition NewCommit :: "u32 \<Rightarrow> certified \<Rightarrow> certified" where
  "NewCommit r prop = Commit r prop no_ui"

definition NewReply :: "u32 \<Rightarrow> u32 \<Rightarrow> u64 \<Rightarrow> bytes \<Rightarrow> reply" where
  "NewReply r cl seq res = \<lparr>rep_ReplicaID = r, rep_ClientID = cl, rep_Sequence = seq,
     rep_Result = res, rep_Signature = []\<rparr>"

definition NewReqViewChange :: "u32 \<Rightarrow> u64 \<Rightarrow> req_view_change" where
  "NewReqViewChange r nv = \<lparr>rvc_ReplicaID = r, rvc_NewView = nv, rvc_Signature = []\<rparr>"

definition NewViewChange :: "u32 \<Rightarrow> u64 \<Rightarrow> message_log \<Rightarrow> view_change_cert \<Rightarrow> certified" where
  "NewViewChange r nv lg vcCert = CViewChange (ViewChange r nv lg vcCert no_ui)"

definition NewNewView :: "u32 \<Rightarrow> u64 \<Rightarrow> new_view_cert \<Rightarrow> certified" where
  "NewNewView r nv nvCert = NewView r nv nvCert no_ui"

lemma UI_SetUI [simp]: "UI (SetUI u m) = u" and ReplicaID_SetUI [simp]: "ReplicaID (SetUI u m) = ReplicaID m"
  by (induction u m rule: SetUI.induct) simp_all

section \<open>Authenticated content\<close>

text \<open>
  \<open>hashsum\<close> is SHA-256, taken as a parameter \<open>H\<close>; the only property used of it is that its
  digests are 32 bytes long.
\<close>

definition write_request :: "(bytes \<Rightarrow> bytes) \<Rightarrow> request \<Rightarrow> bytes" where
  "write_request H r = be64 (req_Sequence r) @ H (req_Operation r)"

definition authen_request :: "(bytes \<Rightarrow> bytes) \<Rightarrow> request \<Rightarrow> bytes" where
  "authen_request H r = str_bytes ''REQUEST'' @ write_request H r"

definition authen_reply :: "(bytes \<Rightarrow> bytes) \<Rightarrow> reply \<Rightarrow> bytes" where
  "authen_reply H r =
     str_bytes ''REPLY'' @ be32 (rep_ClientID r) @ be64 (rep_Sequence r) @ H (rep_Result r)"

definition authen_rvc :: "req_view_change \<Rightarrow> bytes" where
  "authen_rvc r = str_bytes ''REQ-VIEW-CHANGE'' @ be64 (rvc_NewView r)"

fun authen_certified :: "(bytes \<Rightarrow> bytes) \<Rightarrow> certified \<Rightarrow> bytes" where
  "authen_certified H (Prepare r v req u) =
     str_bytes ''PREPARE'' @ be64 v @ be32 (req_ClientID req) @ write_request H req"
| "authen_certified H (Commit r prop u) =
     str_bytes ''COMMIT'' @ be32 (ReplicaID prop) @ authen_certified H prop @ be64 (Counter (UI prop))"
| "authen_certified H (CViewChange vc) = str_bytes ''VIEW-CHANGE'' @ be64 (vc_NewView vc)"
| "authen_certified H (NewView r nv cert u) =
     str_bytes ''NEW-VIEW'' @ be64 nv
       @ concat (map (\<lambda>vc. be32 (vc_ReplicaID vc) @ be64 (Counter (vc_UI vc))) cert)"

definition AuthenBytes :: "(bytes \<Rightarrow> bytes) \<Rightarrow> message \<Rightarrow> bytes result" where
  "AuthenBytes H m =
     (case m of
        MRequest r \<Rightarrow> Inr (authen_request H r)
      | MReply r \<Rightarrow> Inr (authen_reply H r)
      | MReqViewChange r \<Rightarrow> Inr (authen_rvc r)
      | MCertified c \<Rightarrow> Inr (authen_certified H c)
      | MHello _ \<Rightarrow> Inl (Panic ''unknown message type''))"

lemma authen_SetUI [simp]: "authen_certified H (SetUI u m) = authen_certified H m"
  by (induction u m rule: SetUI.induct) simp_all

section \<open>Authenticated content determines the bytes, and the bytes the content\<close>

text \<open>
  What an authentication tag pins down, as data: the kind of the message and the fields that
  \<open>writeAuthenBytes\<close> writes, operations and results being represented by their digests.
\<close>

datatype content =
    CtRequest u64 bytes
  | CtReply u32 u64 bytes
  | CtPrepare u64 u32 u64 bytes
  | CtCommit u32 content u64
  | CtReqViewChange u64
  | CtViewChange u64
  | CtNewView u64 "(u32 \<times> u64) list"

fun certified_content :: "(bytes \<Rightarrow> bytes) \<Rightarrow> certified \<Rightarrow> content" where
  "certified_content H (Prepare r v req u) =
     CtPrepare v (req_ClientID req) (req_Sequence req) (H (req_Operation req))"
| "certified_content H (Commit r prop u) =
     CtCommit (ReplicaID prop) (certified_content H prop) (Counter (UI prop))"
| "certified_content H (CViewChange vc) = CtViewChange (vc_NewView vc)"
| "certified_content H (NewView r nv cert u) =
     CtNewView nv (map (\<lambda>vc. (vc_ReplicaID vc, Counter (vc_UI vc))) cert)"

fun message_content :: "(bytes \<Rightarrow> bytes) \<Rightarrow> message \<Rightarrow> content option" where
  "message_content H (MRequest r) = Some (CtRequest (req_Sequence r) (H (req_Operation r)))"
| "message_content H (MReply r) = Some (CtReply (rep_ClientID r) (rep_Sequence r) (H (rep_Result r)))"
| "message_content H (MReqViewChange r) = Some (CtReqViewChange (rvc_NewView r))"
| "message_content H (MCertified c) = Some (certified_content H c)"
| "message_content H (MHello r) = None"

fun content_bytes :: "content \<Rightarrow> bytes" where
  "content_bytes (CtRequest seq h) = str_bytes ''REQUEST'' @ be64 seq @ h"
| "content_bytes (CtReply cl seq h) = str_bytes ''REPLY'' @ be32 cl @ be64 seq @ h"
| "content_bytes (CtPrepare v cl seq h) = str_bytes ''PREPARE'' @ be64 v @ be32 cl @ be64 seq @ h"
| "content_bytes (CtCommit r c k) = str_bytes ''COMMIT'' @ be32 r @ content_bytes c @ be64 k"
| "content_bytes (CtReqViewChange nv) = str_bytes ''REQ-VIEW-CHANGE'' @ be64 nv"
| "content_bytes (CtViewChange nv) = str_bytes ''VIEW-CHANGE'' @ be64 nv"
| "content_bytes (CtNewView nv es) =
     str_bytes ''NEW-VIEW'' @ be64 nv @ concat (map (\<lambda>(r, k). be32 r @ be64 k) es)"

lemma authen_certified_content: "authen_certified H c = content_bytes (certified_content H c)"
  by (induction H c rule: authen_certified.induct) (simp_all add: write_request_def comp_def)

lemma AuthenBytes_content:
  "AuthenBytes H m = (case message_content H m of
     None \<Rightarrow> Inl (Panic ''unknown message type'') | Some c \<Rightarrow> Inr (content_bytes c))"
  by (cases m) (simp_all add: AuthenBytes_def authen_request_def authen_reply_def authen_rvc_def
      write_request_def authen_certified_content)

lemma quorum_bytes_inject:
  "concat (map (\<lambda>(r, k). be32 r @ be64 k) es) = concat (map (\<lambda>(r, k). be32 r @ be64 k) es')
     \<Longrightarrow> es = es'"
proof (induction es arbitrary: es')
  case Nil
  then show ?case by (cases es') (auto simp flip: length_0_conv)
next
  case (Cons e es)
  then show ?case by (cases es') (auto simp: split_def prod_eq_iff simp flip: length_0_conv)
qed

lemma content_bytes_inject: "content_bytes c = content_bytes c' \<Longrightarrow> c = c'"
proof (induction c arbitrary: c')
  case (CtRequest seq h)
  then show ?case by (cases c') (simp_all add: str_bytes_def)
next
  case (CtReply x1 x2 x3)
  then show ?case by (cases c') (simp_all add: str_bytes_def)
next
  case (CtPrepare x1 x2 x3 x4)
  then show ?case by (cases c') (simp_all add: str_bytes_def)
next
  case (CtCommit r c k)
  then show ?case by (cases c') (auto simp add: str_bytes_def)
next
  case (CtReqViewChange x)
  then show ?case by (cases c') (simp_all add: str_bytes_def)
next
  case (CtViewChange x)
  then show ?case by (cases c') (simp_all add: str_bytes_def)
next
  case (CtNewView x1 x2)
  then show ?case by (cases c') (auto simp add: str_bytes_def dest: quorum_bytes_inject)
qed

lemma AuthenBytes_eq_iff: "AuthenBytes H m = AuthenBytes H m' \<longleftrightarrow> message_content H m = message_content H m'"
  by (auto simp: AuthenBytes_content split: option.splits dest: content_bytes_inject)

end
