(* ===== verification/ViewChanges.thy ===== *)
theory ViewChanges
  imports Messages
begin

text \<open>
  The state-free parts of \<open>core/view-change.go\<close>, \<open>core/new-view.go\<close> and
  \<open>core/req-view-change.go\<close>: the validators of certificates and message logs, the extraction of
  prepared requests from a new-view certificate, and the two collectors with their state.
\<close>

section \<open>Primary of a view\<close>

text \<open>\<open>isPrimary\<close> divides by \<open>n\<close>, which is positive in every replica that was created.\<close>

definition isPrimary :: "u64 \<Rightarrow> u32 \<Rightarrow> u32 \<Rightarrow> bool" where
  "isPrimary view i n \<longleftrightarrow> (ucast i :: u64) = view mod ucast n"

section \<open>Certificates\<close>

fun check_cert_rvcs :: "u64 \<Rightarrow> u32 set \<Rightarrow> view_change_cert \<Rightarrow> unit result" where
  "check_cert_rvcs newView q [] = Inr ()"
| "check_cert_rvcs newView q (rvc # cert) =
     (if rvc_NewView rvc \<noteq> newView then Inl (Error ''new view number mismatch'')
      else if rvc_ReplicaID rvc \<in> q then Inl (Error ''duplicate'')
      else check_cert_rvcs newView (insert (rvc_ReplicaID rvc) q) cert)"

definition validateVCCert :: "u32 \<Rightarrow> u64 \<Rightarrow> view_change_cert \<Rightarrow> unit result" where
  "validateVCCert viewChangeCertSize newView cert =
     (if length cert < unat viewChangeCertSize then Inl (Error ''insufficient quorum'')
      else check_cert_rvcs newView {} cert)"

fun check_cert_vcs :: "u64 \<Rightarrow> u32 set \<Rightarrow> new_view_cert \<Rightarrow> u32 set result" where
  "check_cert_vcs newView q [] = Inr q"
| "check_cert_vcs newView q (vc # cert) =
     (if vc_NewView vc \<noteq> newView then Inl (Error ''new view number mismatch'')
      else if vc_ReplicaID vc \<in> q then Inl (Error ''duplicate'')
      else check_cert_vcs newView (insert (vc_ReplicaID vc) q) cert)"

definition validateNVCert :: "u32 \<Rightarrow> u32 \<Rightarrow> u64 \<Rightarrow> new_view_cert \<Rightarrow> unit result" where
  "validateNVCert viewChangeCertSize newPrimary newView cert =
     (if length cert < unat viewChangeCertSize then Inl (Error ''insufficient quorum'')
      else case check_cert_vcs newView {} cert of
             Inl e \<Rightarrow> Inl e
           | Inr q \<Rightarrow> guard_err (newPrimary \<in> q) ''missing ViewChange from new primary'')"

lemma check_cert_rvcs_ok:
  "check_cert_rvcs nv q cert = Inr u \<longleftrightarrow>
     (\<forall>r \<in> set cert. rvc_NewView r = nv) \<and> distinct (map rvc_ReplicaID cert) \<and>
     rvc_ReplicaID ` set cert \<inter> q = {}"
  by (induction nv q cert rule: check_cert_rvcs.induct) auto

lemma check_cert_vcs_ok:
  "check_cert_vcs nv q cert = Inr q' \<longleftrightarrow>
     (\<forall>r \<in> set cert. vc_NewView r = nv) \<and> distinct (map vc_ReplicaID cert) \<and>
     vc_ReplicaID ` set cert \<inter> q = {} \<and> q' = q \<union> vc_ReplicaID ` set cert"
  by (induction nv q cert rule: check_cert_vcs.induct) auto

lemma check_cert_rvcs_no_panic [simp]: "\<not> is_panic (check_cert_rvcs nv q cert)"
  by (induction nv q cert rule: check_cert_rvcs.induct) auto

lemma check_cert_vcs_no_panic [simp]: "\<not> is_panic (check_cert_vcs nv q cert)"
  by (induction nv q cert rule: check_cert_vcs.induct) auto

lemma validateVCCert_ok:
  "validateVCCert k nv cert = Inr u \<longleftrightarrow>
     unat k \<le> length cert \<and> (\<forall>r \<in> set cert. rvc_NewView r = nv) \<and> distinct (map rvc_ReplicaID cert)"
  by (auto simp: validateVCCert_def check_cert_rvcs_ok)

lemma validateNVCert_ok:
  "validateNVCert k p nv cert = Inr u \<longleftrightarrow>
     unat k \<le> length cert \<and> (\<forall>r \<in> set cert. vc_NewView r = nv) \<and> distinct (map vc_ReplicaID cert) \<and>
     p \<in> vc_ReplicaID ` set cert"
proof (cases "check_cert_vcs nv {} cert")
  case (Inl e)
  then show ?thesis using check_cert_vcs_ok [of nv "{}" cert "vc_ReplicaID ` set cert"]
    by (auto simp: validateNVCert_def)
next
  case (Inr q)
  then show ?thesis using check_cert_vcs_ok [of nv "{}" cert q] by (auto simp: validateNVCert_def)
qed

lemma validateVCCert_no_panic [simp]: "\<not> is_panic (validateVCCert k nv cert)"
  by (simp add: validateVCCert_def)

lemma validateNVCert_no_panic [simp]: "\<not> is_panic (validateNVCert k p nv cert)"
  using check_cert_vcs_no_panic [of nv "{}" cert]
  by (cases "check_cert_vcs nv {} cert")
    (auto simp: validateNVCert_def simp del: check_cert_vcs_no_panic, metis is_panic_Inl_cast)

section \<open>Message logs\<close>

fun is_view_msg :: "certified \<Rightarrow> bool" where
  "is_view_msg (CViewChange vc) = True"
| "is_view_msg (NewView r nv cert u) = True"
| "is_view_msg _ = False"

fun view_of_msg :: "certified \<Rightarrow> u64" where
  "view_of_msg (CViewChange vc) = vc_NewView vc"
| "view_of_msg (NewView r nv cert u) = nv"
| "view_of_msg _ = 0"

text \<open>
  The loop of \<open>validateMessageLog\<close> runs from the last message to the first: the list is
  reversed, and the index is zero when no earlier message is left.
\<close>

fun check_log :: "u32 \<Rightarrow> u64 \<Rightarrow> u64 \<Rightarrow> message_log \<Rightarrow> unit result" where
  "check_log replicaID view nextCV [] = Inr ()"
| "check_log replicaID view nextCV (m # earlier) =
     (if ReplicaID m \<noteq> replicaID then Inl (Error ''foreign message'')
      else if Counter (UI m) + 1 \<noteq> nextCV then Inl (Error ''unexpected UI'')
      else if is_view_msg m then
        (if view_of_msg m \<noteq> view then Inl (Error ''log for unexpected view'')
         else if earlier \<noteq> [] then Inl (Error ''unexpected message before'')
         else check_log replicaID view (nextCV - 1) earlier)
      else if earlier = [] \<and> (view > 0 \<or> nextCV - 1 \<noteq> 1) then Inl (Error ''missing message before'')
      else check_log replicaID view (nextCV - 1) earlier)"

definition validateMessageLog :: "u32 \<Rightarrow> u64 \<Rightarrow> message_log \<Rightarrow> u64 \<Rightarrow> unit result" where
  "validateMessageLog replicaID view log nextCV =
     (if log = [] \<and> (view > 0 \<or> nextCV \<noteq> 1) then Inl (Error ''incomplete log'')
      else check_log replicaID view nextCV (rev log))"

lemma check_log_no_panic [simp]: "\<not> is_panic (check_log r v nextCV ms)"
  by (induction r v nextCV ms rule: check_log.induct) auto

lemma validateMessageLog_no_panic [simp]: "\<not> is_panic (validateMessageLog r v ms nextCV)"
  by (simp add: validateMessageLog_def)

text \<open>
  What a valid log is: all messages are of the replica, their counters are the ones just below
  \<open>nextCV\<close> in order, and the log starts where the view starts: with the ViewChange or NewView of
  the view, or with the replica's first counter in view zero.
\<close>

definition starts_view :: "u64 \<Rightarrow> message_log \<Rightarrow> bool" where
  "starts_view view ms =
     (case ms of
        [] \<Rightarrow> False
      | m # rest \<Rightarrow>
          (if is_view_msg m then view_of_msg m = view else view = 0 \<and> Counter (UI m) = 1) \<and>
          (\<forall>x \<in> set rest. \<not> is_view_msg x))"

fun counters_to :: "u64 \<Rightarrow> message_log \<Rightarrow> bool" where
  "counters_to nextCV [] = True"
| "counters_to nextCV (m # ms) = (Counter (UI m) + of_nat (Suc (length ms)) = nextCV \<and> counters_to nextCV ms)"

definition valid_log :: "u32 \<Rightarrow> u64 \<Rightarrow> message_log \<Rightarrow> u64 \<Rightarrow> bool" where
  "valid_log r view ms nextCV \<longleftrightarrow>
     (\<forall>m \<in> set ms. ReplicaID m = r) \<and> counters_to nextCV ms \<and>
     (if ms = [] then view = 0 \<and> nextCV = 1 else starts_view view ms)"

lemma counters_to_snoc:
  "counters_to nextCV (ms @ [m]) \<longleftrightarrow> counters_to (nextCV - 1) ms \<and> Counter (UI m) + 1 = nextCV"
  by (induction ms) (auto simp: algebra_simps)

lemma starts_view_snoc:
  "starts_view v (ms @ [m]) \<longleftrightarrow>
     (if ms = [] then (if is_view_msg m then view_of_msg m = v else v = 0 \<and> Counter (UI m) = 1)
      else starts_view v ms \<and> \<not> is_view_msg m)"
  by (auto simp: starts_view_def split: list.splits)

lemma check_log_ok:
  "check_log r v nextCV (rev ms) = Inr u \<longleftrightarrow>
     (\<forall>m \<in> set ms. ReplicaID m = r) \<and> counters_to nextCV ms \<and> (ms = [] \<or> starts_view v ms)"
proof (induction ms arbitrary: nextCV rule: rev_induct)
  case (snoc m ms)
  have "Counter (UI m) + 1 = nextCV \<Longrightarrow> (nextCV - 1 \<noteq> 1) = (Counter (UI m) \<noteq> 1)" by auto
  then show ?case using snoc
    by (auto simp: counters_to_snoc starts_view_snoc word_neq_0_conv [symmetric])
qed simp

lemma validateMessageLog_ok: "validateMessageLog r v ms nextCV = Inr u \<longleftrightarrow> valid_log r v ms nextCV"
  by (auto simp: validateMessageLog_def check_log_ok valid_log_def word_neq_0_conv [symmetric])

section \<open>Requests prepared in the previous views\<close>

text \<open>
  The first loop of \<open>extractPreparedRequests\<close>: the leading ViewChange messages of the logs, put
  aside, and the first longest of the remaining logs.
\<close>

definition strip_vc :: "message_log \<Rightarrow> message_log" where
  "strip_vc l = (case l of CViewChange vc # rest \<Rightarrow> rest | _ \<Rightarrow> l)"

fun leading_vcs :: "new_view_cert \<Rightarrow> view_change list" where
  "leading_vcs [] = []"
| "leading_vcs (vc # cert) =
     (case vc_MessageLog vc of CViewChange w # rest \<Rightarrow> w # leading_vcs cert | _ \<Rightarrow> leading_vcs cert)"

fun longest_log :: "message_log \<Rightarrow> new_view_cert \<Rightarrow> message_log" where
  "longest_log maxLog [] = maxLog"
| "longest_log maxLog (vc # cert) =
     (let l = strip_vc (vc_MessageLog vc)
      in longest_log (if length l > length maxLog then l else maxLog) cert)"

definition proposal_of :: "certified \<Rightarrow> certified" where
  "proposal_of m = (case m of Commit r prop u \<Rightarrow> prop | _ \<Rightarrow> m)"

lemma longest_log_cases:
  "longest_log l cert = l \<or> (\<exists>vc \<in> set cert. longest_log l cert = strip_vc (vc_MessageLog vc))"
proof (induction l cert rule: longest_log.induct)
  case (2 l vc cert)
  then show ?case by (auto simp: Let_def)
qed simp

lemma longest_log_length:
  "length l \<le> length (longest_log l cert)"
  "vc \<in> set cert \<Longrightarrow> length (strip_vc (vc_MessageLog vc)) \<le> length (longest_log l cert)"
proof (induction l cert rule: longest_log.induct)
  case (2 l w cert)
  {
    case 1
    then show ?case using 2(1) by (simp add: Let_def split: if_splits)
  next
    case 2
    then show ?case using "2.IH" by (fastforce simp: Let_def split: if_splits)
  }
qed simp_all

lemma strip_vc_subset: "set (strip_vc l) \<subseteq> set l"
  by (auto simp: strip_vc_def split: list.splits certified.splits)

lemma leading_vcs_cases:
  "w \<in> set (leading_vcs cert) \<Longrightarrow> \<exists>vc \<in> set cert. \<exists>rest. vc_MessageLog vc = CViewChange w # rest"
  by (induction cert) (auto split: list.splits certified.splits)

subsection \<open>Termination measure\<close>

lemma size_vc_log: "size_list size (vc_MessageLog vc) < size vc"
  by (cases vc) simp

lemma size_strip_vc: "size_list size (strip_vc l) \<le> size_list size l"
  by (auto simp: strip_vc_def split: list.splits certified.splits)

lemma size_in_list: "x \<in> set xs \<Longrightarrow> size x < size_list size xs"
  by (induction xs) auto

lemma size_longest_log:
  assumes "cert \<noteq> []"
  shows "size_list size (longest_log [] cert) < size_list size cert"
proof -
  consider "longest_log [] cert = []"
    | vc where "vc \<in> set cert" and "longest_log [] cert = strip_vc (vc_MessageLog vc)"
    using longest_log_cases by blast
  then show ?thesis
  proof cases
    case 1
    with assms show ?thesis by (cases cert) simp_all
  next
    case 2
    with size_strip_vc [of "vc_MessageLog vc"] size_vc_log [of vc] size_in_list [OF 2(1)]
    show ?thesis by simp
  qed
qed

lemma size_leading_vcs: "cert \<noteq> [] \<Longrightarrow> size_list size (leading_vcs cert) < size_list size cert"
proof (induction cert)
  case (Cons vc cert)
  have "size_list size (leading_vcs cert) \<le> size_list size cert"
    using Cons by (cases cert) auto
  then show ?case using size_vc_log [of vc] by (auto split: list.splits certified.splits)
qed simp

lemma size_proposal: "proposal_of m = NewView r v cert u \<Longrightarrow> size_list size cert < size m"
  by (cases m) (auto simp: proposal_of_def)

text \<open>
  \<open>extractPreparedRequests\<close> and, for its last loop, \<open>collect_prepared\<close>. For an empty certificate
  both loops are empty and so is the result.
\<close>

function (sequential) extractPreparedRequests :: "new_view_cert \<Rightarrow> request list result"
  and collect_prepared :: "request list \<Rightarrow> message_log \<Rightarrow> request list result" where
  "extractPreparedRequests [] = Inr []"
| "extractPreparedRequests (v # vs) =
     (let nvCert = v # vs; vcs = leading_vcs nvCert; maxLog = longest_log [] nvCert
      in if maxLog = [] \<and> vcs \<noteq> [] then extractPreparedRequests vcs
         else collect_prepared [] maxLog)"
| "collect_prepared prepared [] = Inr prepared"
| "collect_prepared prepared (m # ms) =
     (case proposal_of m of
        Prepare r view req u \<Rightarrow> collect_prepared (prepared @ [req]) ms
      | NewView r view cert u \<Rightarrow>
          (case extractPreparedRequests cert of
             Inl e \<Rightarrow> Inl e
           | Inr reqs \<Rightarrow> collect_prepared reqs ms)
      | _ \<Rightarrow> Inl (Panic ''Unexpected message type''))"
  by pat_completeness auto

termination
proof (relation "measure (\<lambda>x. case x of Inl cert \<Rightarrow> size_list size cert | Inr (_, ms) \<Rightarrow> size_list size ms)")
  fix v vs vcs maxLog and nvCert :: new_view_cert
  assume "nvCert = v # vs" and "vcs = leading_vcs nvCert"
  then show "(Inl vcs, Inl (v # vs)) \<in> measure
      (\<lambda>x. case x of Inl cert \<Rightarrow> size_list size cert | Inr (_, ms) \<Rightarrow> size_list size ms)"
    using size_leading_vcs [of nvCert] by simp
next
  fix v vs vcs maxLog and nvCert :: new_view_cert
  assume "nvCert = v # vs" and "maxLog = longest_log [] nvCert"
  then show "(Inr ([], maxLog), Inl (v # vs)) \<in> measure
      (\<lambda>x. case x of Inl cert \<Rightarrow> size_list size cert | Inr (_, ms) \<Rightarrow> size_list size ms)"
    using size_longest_log [of nvCert] by simp
qed (auto dest: size_proposal)

subsection \<open>The extraction does not panic on well-formed certificates\<close>

fun is_proposal :: "certified \<Rightarrow> bool" where
  "is_proposal (Prepare r v req u) = True"
| "is_proposal (NewView r v cert u) = True"
| "is_proposal _ = False"

text \<open>
  \<open>certified_ok\<close>: every Commit inside the message refers to a proposal, and in every log inside
  the message a ViewChange or NewView can only be the first entry. \<open>certified_reqs\<close>: the requests
  that the message carries, at any depth.
\<close>

fun certified_ok :: "certified \<Rightarrow> bool" and vc_ok :: "view_change \<Rightarrow> bool" where
  "certified_ok (Prepare r v req u) = True"
| "certified_ok (Commit r prop u) = (is_proposal prop \<and> certified_ok prop)"
| "certified_ok (CViewChange vc) = vc_ok vc"
| "certified_ok (NewView r v cert u) = (\<forall>vc \<in> set cert. vc_ok vc)"
| "vc_ok (ViewChange r v l c u) =
     ((\<forall>m \<in> set l. certified_ok m) \<and> (\<forall>m \<in> set (tl l). \<not> is_view_msg m))"

fun certified_reqs :: "certified \<Rightarrow> request set" and vc_reqs :: "view_change \<Rightarrow> request set" where
  "certified_reqs (Prepare r v req u) = {req}"
| "certified_reqs (Commit r prop u) = certified_reqs prop"
| "certified_reqs (CViewChange vc) = vc_reqs vc"
| "certified_reqs (NewView r v cert u) = (\<Union>vc \<in> set cert. vc_reqs vc)"
| "vc_reqs (ViewChange r v l c u) = (\<Union>m \<in> set l. certified_reqs m)"

lemma vc_ok_log: "vc_ok vc \<longleftrightarrow> (\<forall>m \<in> set (vc_MessageLog vc). certified_ok m) \<and>
    (\<forall>m \<in> set (tl (vc_MessageLog vc)). \<not> is_view_msg m)"
  by (cases vc) simp

lemma vc_reqs_log: "vc_reqs vc = (\<Union>m \<in> set (vc_MessageLog vc). certified_reqs m)"
  by (cases vc) simp

fun is_vc :: "certified \<Rightarrow> bool" where
  "is_vc (CViewChange vc) = True"
| "is_vc _ = False"

lemma strip_vc_no_vc:
  assumes "vc_ok vc" and "m \<in> set (strip_vc (vc_MessageLog vc))"
  shows "\<not> is_vc m"
proof -
  have tl_ok: "\<not> is_vc x" if "x \<in> set (tl (vc_MessageLog vc))" for x
    using assms(1) that by (cases x) (auto simp: vc_ok_log)
  show ?thesis
    using assms(2) tl_ok by (cases "vc_MessageLog vc" rule: list.exhaust)
      (auto simp: strip_vc_def split: certified.splits)
qed

lemma longest_log_ok:
  assumes "\<forall>vc \<in> set cert. vc_ok vc"
  shows "\<forall>m \<in> set (longest_log [] cert). certified_ok m \<and> \<not> is_vc m"
  using longest_log_cases [of "[]" cert]
proof
  assume "\<exists>vc \<in> set cert. longest_log [] cert = strip_vc (vc_MessageLog vc)"
  then obtain vc where vc: "vc \<in> set cert" "longest_log [] cert = strip_vc (vc_MessageLog vc)" by blast
  then show ?thesis using assms strip_vc_no_vc [of vc] strip_vc_subset [of "vc_MessageLog vc"]
    vc_ok_log [of vc] by auto
qed simp

lemma longest_log_reqs:
  "(\<Union>m \<in> set (longest_log [] cert). certified_reqs m) \<subseteq> (\<Union>vc \<in> set cert. vc_reqs vc)"
  using longest_log_cases [of "[]" cert]
proof
  assume "\<exists>vc \<in> set cert. longest_log [] cert = strip_vc (vc_MessageLog vc)"
  then obtain vc where vc: "vc \<in> set cert" "longest_log [] cert = strip_vc (vc_MessageLog vc)" by blast
  then have "(\<Union>m \<in> set (longest_log [] cert). certified_reqs m) \<subseteq> vc_reqs vc"
    using strip_vc_subset [of "vc_MessageLog vc"] vc_reqs_log [of vc] by auto
  with vc show ?thesis by blast
qed simp

lemma leading_vcs_ok: "\<forall>vc \<in> set cert. vc_ok vc \<Longrightarrow> w \<in> set (leading_vcs cert) \<Longrightarrow> vc_ok w"
  using leading_vcs_cases [of w cert] vc_ok_log by fastforce

lemma leading_vcs_reqs:
  "(\<Union>vc \<in> set (leading_vcs cert). vc_reqs vc) \<subseteq> (\<Union>vc \<in> set cert. vc_reqs vc)"
proof -
  have "vc_reqs w \<subseteq> (\<Union>vc \<in> set cert. vc_reqs vc)" if w: "w \<in> set (leading_vcs cert)" for w
  proof -
    obtain vc rest where vc: "vc \<in> set cert" and l: "vc_MessageLog vc = CViewChange w # rest"
      using leading_vcs_cases [OF w] by blast
    have "vc_reqs w \<subseteq> vc_reqs vc" using l vc_reqs_log [of vc] by simp
    with vc show ?thesis by blast
  qed
  then show ?thesis by blast
qed

lemma proposal_of_ok:
  "certified_ok m \<Longrightarrow> \<not> is_vc m \<Longrightarrow> is_proposal (proposal_of m) \<and> certified_ok (proposal_of m)"
  by (cases m) (simp_all add: proposal_of_def)

lemma proposal_of_reqs [simp]: "certified_reqs (proposal_of m) = certified_reqs m"
  by (cases m) (simp_all add: proposal_of_def)

lemma extract_step:
  "extractPreparedRequests (v # vs) =
     (if longest_log [] (v # vs) = [] \<and> leading_vcs (v # vs) \<noteq> []
      then extractPreparedRequests (leading_vcs (v # vs))
      else collect_prepared [] (longest_log [] (v # vs)))"
  by (simp only: extractPreparedRequests.simps Let_def)

lemma extract_ok:
  "\<forall>vc \<in> set cert. vc_ok vc \<Longrightarrow> \<exists>reqs. extractPreparedRequests cert = Inr reqs"
  and collect_ok:
  "\<forall>m \<in> set ms. certified_ok m \<and> \<not> is_vc m \<Longrightarrow> \<exists>reqs. collect_prepared pre ms = Inr reqs"
proof (induction cert and pre ms rule: extractPreparedRequests_collect_prepared.induct)
  case (2 v vs)
  show ?case
    unfolding extract_step
    using "2.IH" [OF refl refl refl] longest_log_ok [OF "2.prems"] leading_vcs_ok [OF "2.prems"]
    by (simp del: leading_vcs.simps longest_log.simps)
next
  case (4 pre m ms)
  then have m: "is_proposal (proposal_of m)" "certified_ok (proposal_of m)"
    using proposal_of_ok by auto
  with 4 show ?case by (cases "proposal_of m") auto
qed simp_all

lemma extract_reqs:
  "extractPreparedRequests cert = Inr reqs \<Longrightarrow> set reqs \<subseteq> (\<Union>vc \<in> set cert. vc_reqs vc)"
  and collect_reqs:
  "collect_prepared pre ms = Inr reqs \<Longrightarrow> set reqs \<subseteq> set pre \<union> (\<Union>m \<in> set ms. certified_reqs m)"
proof (induction cert and pre ms arbitrary: reqs and reqs
    rule: extractPreparedRequests_collect_prepared.induct)
  case (2 v vs)
  let ?cert = "v # vs"
  have "set reqs \<subseteq> (\<Union>m \<in> set (longest_log [] ?cert). certified_reqs m) \<union>
      (\<Union>vc \<in> set (leading_vcs ?cert). vc_reqs vc)"
    using "2.prems" "2.IH" [OF refl refl refl] unfolding extract_step
    by (fastforce simp del: leading_vcs.simps longest_log.simps split: if_splits)
  then show ?case by (rule subset_trans) (rule Un_least [OF longest_log_reqs leading_vcs_reqs])
next
  case (4 pre m ms)
  show ?case
  proof (cases "proposal_of m")
    case (Prepare r v req u)
    then show ?thesis using "4.prems" "4.IH"(1) [OF Prepare] proposal_of_reqs [of m] by fastforce
  next
    case (NewView r v cert u)
    then obtain p where p: "extractPreparedRequests cert = Inr p" "collect_prepared p ms = Inr reqs"
      using "4.prems" by (auto split: sum.splits)
    have "set p \<subseteq> certified_reqs m"
      using "4.IH"(2) [OF NewView p(1)] proposal_of_reqs [of m] NewView by simp
    moreover have "set reqs \<subseteq> set p \<union> (\<Union>m \<in> set ms. certified_reqs m)"
      using "4.IH"(3) [OF NewView p(1) p(2)] .
    ultimately show ?thesis by auto
  qed (use "4.prems" in simp_all)
qed simp_all

section \<open>Collector of view change requests\<close>

record rvc_collector =
  rvcc_view :: u64
  rvcc_collected :: view_change_cert
  rvcc_replicas :: "u32 set"

definition new_rvc_collector :: rvc_collector where
  "new_rvc_collector = \<lparr>rvcc_view = 0, rvcc_collected = [], rvcc_replicas = {}\<rparr>"

definition collectReqViewChange ::
    "u32 \<Rightarrow> req_view_change \<Rightarrow> rvc_collector \<Rightarrow> rvc_collector \<times> bool \<times> view_change_cert option" where
  "collectReqViewChange viewChangeCertSize rvc c =
     (if rvc_NewView rvc \<noteq> rvcc_view c + 1 \<or> rvc_ReplicaID rvc \<in> rvcc_replicas c then (c, False, None)
      else
        let c1 = c\<lparr>rvcc_collected := rvcc_collected c @ [rvc],
                  rvcc_replicas := insert (rvc_ReplicaID rvc) (rvcc_replicas c)\<rparr>
        in if length (rvcc_collected c1) < unat viewChangeCertSize then (c1, True, None)
           else (\<lparr>rvcc_view = rvcc_view c + 1, rvcc_collected = [], rvcc_replicas = {}\<rparr>, True,
                 Some (rvcc_collected c1)))"

definition rvcc_inv :: "u32 \<Rightarrow> rvc_collector \<Rightarrow> bool" where
  "rvcc_inv k c \<longleftrightarrow>
     (\<forall>r \<in> set (rvcc_collected c). rvc_NewView r = rvcc_view c + 1) \<and>
     rvcc_replicas c = rvc_ReplicaID ` set (rvcc_collected c) \<and>
     distinct (map rvc_ReplicaID (rvcc_collected c)) \<and>
     length (rvcc_collected c) \<le> unat (k - 1)"

lemma new_rvc_collector_inv: "rvcc_inv k new_rvc_collector"
  by (simp add: rvcc_inv_def new_rvc_collector_def)

lemma collectReqViewChange_inv:
  "rvcc_inv k c \<Longrightarrow> collectReqViewChange k rvc c = (c', new, cert) \<Longrightarrow> k \<noteq> 0 \<Longrightarrow> rvcc_inv k c'"
  by (auto simp: collectReqViewChange_def rvcc_inv_def Let_def unat_minus_one split: if_splits)

lemma collectReqViewChange_cert:
  assumes "rvcc_inv k c" and "collectReqViewChange k rvc c = (c', new, Some cert)" and "k \<noteq> 0"
  shows "validateVCCert k (rvc_NewView rvc) cert = Inr ()" and "length cert = unat k"
    and "rvc_NewView rvc = rvcc_view c + 1" and "rvcc_view c' = rvcc_view c + 1"
  using assms unat_gt_0 [of k]
  by (auto simp: collectReqViewChange_def rvcc_inv_def Let_def validateVCCert_ok unat_minus_one
      split: if_splits)

lemma collectReqViewChange_view:
  "collectReqViewChange k rvc c = (c', new, None) \<Longrightarrow> rvcc_view c' = rvcc_view c"
  by (auto simp: collectReqViewChange_def Let_def split: if_splits)

section \<open>Collector of ViewChange messages\<close>

text \<open>
  The slice \<open>collected\<close> always has the slot of the own message at index zero, nil until that
  message arrives; it is the pair of \<open>vcc_own\<close> and \<open>vcc_others\<close>, of length
  \<open>1 + length vcc_others\<close>.
\<close>

record vc_collector =
  vcc_view :: u64
  vcc_own :: "view_change option"
  vcc_others :: "view_change list"

definition new_vc_collector :: vc_collector where
  "new_vc_collector = \<lparr>vcc_view = 0, vcc_own = None, vcc_others = []\<rparr>"

definition collectViewChange ::
    "u32 \<Rightarrow> u32 \<Rightarrow> u32 \<Rightarrow> view_change \<Rightarrow> vc_collector \<Rightarrow> vc_collector \<times> bool \<times> new_view_cert option" where
  "collectViewChange i n viewChangeCertSize vc c =
     (let newView = vc_NewView vc
      in if newView < vcc_view c then (c, False, None)
         else
           let c1 = (if newView > vcc_view c
                     then \<lparr>vcc_view = newView, vcc_own = None, vcc_others = []\<rparr> else c)
           in if \<not> isPrimary (vcc_view c1) i n then (c1, False, None)
              else if vc_ReplicaID vc \<noteq> i \<and> \<not> 1 + length (vcc_others c1) < unat viewChangeCertSize
                then (c1, False, None)
              else
                let c2 = (if vc_ReplicaID vc = i then c1\<lparr>vcc_own := Some vc\<rparr>
                          else c1\<lparr>vcc_others := vcc_others c1 @ [vc]\<rparr>)
                in case vcc_own c2 of
                     None \<Rightarrow> (c2, True, None)
                   | Some own \<Rightarrow>
                       if 1 + length (vcc_others c2) < unat viewChangeCertSize then (c2, True, None)
                       else (\<lparr>vcc_view = vcc_view c2 + 1, vcc_own = None, vcc_others = []\<rparr>, True,
                             Some (own # vcc_others c2)))"

definition vcc_inv :: "u32 \<Rightarrow> u32 \<Rightarrow> vc_collector \<Rightarrow> bool" where
  "vcc_inv i k c \<longleftrightarrow>
     (\<forall>vc \<in> set_option (vcc_own c). vc_ReplicaID vc = i \<and> vc_NewView vc = vcc_view c) \<and>
     (\<forall>vc \<in> set (vcc_others c). vc_ReplicaID vc \<noteq> i \<and> vc_NewView vc = vcc_view c) \<and>
     1 + length (vcc_others c) \<le> max 1 (unat k)"

lemma new_vc_collector_inv: "vcc_inv i k new_vc_collector"
  by (simp add: vcc_inv_def new_vc_collector_def)

lemma collectViewChange_inv:
  assumes "vcc_inv i k c" and "collectViewChange i n k vc c = (c', new, cert)"
  shows "vcc_inv i k c'"
  using assms
  by (auto simp: collectViewChange_def vcc_inv_def Let_def split: if_splits option.splits)

text \<open>
  A certificate that the collector returns holds the own message first, only messages for the
  view of the last one, and exactly \<open>viewChangeCertSize\<close> of them.
\<close>

lemma collectViewChange_cert:
  assumes "vcc_inv i k c" and "collectViewChange i n k vc c = (c', new, Some cert)" and "k \<noteq> 0"
  shows "\<forall>w \<in> set cert. vc_NewView w = vc_NewView vc" and "length cert = unat k"
    and "\<exists>own others. cert = own # others \<and> vc_ReplicaID own = i"
    and "isPrimary (vc_NewView vc) i n"
  using assms unat_gt_0 [of k]
  by (auto simp: collectViewChange_def vcc_inv_def Let_def split: if_splits option.splits)

lemma collectViewChange_cert_mem:
  "collectViewChange i n k vc c = (c', new, Some cert) \<Longrightarrow>
     set cert \<subseteq> insert vc (set_option (vcc_own c) \<union> set (vcc_others c))"
  by (auto simp: collectViewChange_def Let_def split: if_splits option.splits)

end
