(* ===== verification/Validation.thy ===== *)
theory Validation
  imports ViewChanges
begin

text \<open>
  The configuration of a replica with its external modules as parameters, and the validators that
  \<open>defaultMessageHandlers\<close> composes: \<open>core/utils.go\<close>, \<open>core/usig-ui.go\<close> and the validation
  functions of \<open>core/request.go\<close>, \<open>core/prepare.go\<close>, \<open>core/commit.go\<close>,
  \<open>core/req-view-change.go\<close>, \<open>core/view-change.go\<close>, \<open>core/new-view.go\<close> and
  \<open>core/message-handling.go\<close>.
\<close>

section \<open>Configuration and external modules\<close>

datatype role = ReplicaAuthen | USIGAuthen | ClientAuthen

text \<open>
  The Authenticator is a parameter. \<open>cfg_verify\<close> is its verification, which has no effect;
  \<open>cfg_sign\<close> generates a replica signature, and \<open>cfg_usig k\<close> the tag that the USIG returns when
  it has created \<open>k\<close> unique identifiers before. \<open>cfg_order\<close> is the order in which Go iterates
  over a map of requests, \<open>cfg_hash\<close> is SHA-256.
\<close>

record config =
  cfg_id :: u32
  cfg_n :: u32
  cfg_f :: u32
  cfg_timeoutRequest :: int
  cfg_timeoutPrepare :: int
  cfg_timeoutViewChange :: "64 word"
  cfg_hash :: "bytes \<Rightarrow> bytes"
  cfg_verify :: "role \<Rightarrow> u32 \<Rightarrow> bytes \<Rightarrow> bytes \<Rightarrow> bool"
  cfg_sign :: "bytes \<Rightarrow> bytes result"
  cfg_usig :: "u64 \<Rightarrow> bytes \<Rightarrow> bytes result"
  cfg_order :: "request list \<Rightarrow> request list"

definition commitCertSize :: "config \<Rightarrow> u32" where
  "commitCertSize c = cfg_n c - cfg_f c"

definition viewChangeCertSize :: "config \<Rightarrow> u32" where
  "viewChangeCertSize c = cfg_n c - commitCertSize c + 1"

text \<open>The check of \<open>New\<close> in \<open>core/replica.go\<close>; the arithmetic is modulo \<open>2\<^sup>3\<^sup>2\<close>.\<close>

definition config_check :: "config \<Rightarrow> unit result" where
  "config_check c = guard_err (\<not> cfg_n c < 2 * cfg_f c + 1) ''not enough nodes''"

section \<open>Signatures and unique identifiers\<close>

definition verify_tag :: "config \<Rightarrow> role \<Rightarrow> u32 \<Rightarrow> bytes \<Rightarrow> bytes \<Rightarrow> unit result" where
  "verify_tag c role i msg tag = guard_err (cfg_verify c role i msg tag) ''authentication''"

text \<open>\<open>verifyMessageSignature\<close> picks the role and the signer by the kind of the message.\<close>

definition verify_request :: "config \<Rightarrow> request \<Rightarrow> unit result" where
  "verify_request c r =
     verify_tag c ClientAuthen (req_ClientID r) (authen_request (cfg_hash c) r) (req_Signature r)"

definition verify_rvc :: "config \<Rightarrow> req_view_change \<Rightarrow> unit result" where
  "verify_rvc c r = verify_tag c ReplicaAuthen (rvc_ReplicaID r) (authen_rvc r) (rvc_Signature r)"

definition verifyUI :: "config \<Rightarrow> certified \<Rightarrow> unit result" where
  "verifyUI c m =
     then_check (guard_err (Counter (UI m) \<noteq> 0) ''invalid (zero) counter value'')
       (verify_tag c USIGAuthen (ReplicaID m) (authen_certified (cfg_hash c) m) (MarshalBinary (UI m)))"

text \<open>\<open>signMessage\<close> for the two kinds of messages that a replica signs: failing to sign panics.\<close>

definition sign_bytes :: "config \<Rightarrow> bytes \<Rightarrow> bytes result" where
  "sign_bytes c bs = (case cfg_sign c bs of Inl e \<Rightarrow> Inl (Panic ''cannot sign'') | Inr sig \<Rightarrow> Inr sig)"

definition sign_reply :: "config \<Rightarrow> reply \<Rightarrow> reply result" where
  "sign_reply c r =
     (case sign_bytes c (authen_reply (cfg_hash c) r) of
        Inl e \<Rightarrow> Inl e
      | Inr sig \<Rightarrow> Inr (r\<lparr>rep_Signature := sig\<rparr>))"

definition sign_rvc :: "config \<Rightarrow> req_view_change \<Rightarrow> req_view_change result" where
  "sign_rvc c r =
     (case sign_bytes c (authen_rvc r) of
        Inl e \<Rightarrow> Inl e
      | Inr sig \<Rightarrow> Inr (r\<lparr>rvc_Signature := sig\<rparr>))"

text \<open>\<open>assignUI\<close>, given how many identifiers the USIG has created so far.\<close>

definition assignUI :: "config \<Rightarrow> u64 \<Rightarrow> certified \<Rightarrow> certified result" where
  "assignUI c k m =
     (case cfg_usig c k (authen_certified (cfg_hash c) m) of
        Inl e \<Rightarrow> Inl (Panic ''cannot assign UI'')
      | Inr uiBytes \<Rightarrow>
          (case MustUnmarshalUI uiBytes of
             Inl e \<Rightarrow> Inl e
           | Inr u \<Rightarrow> Inr (SetUI u m)))"

section \<open>Validators\<close>

definition validateRequest :: "config \<Rightarrow> request \<Rightarrow> unit result" where
  "validateRequest c r = verify_request c r"

definition validatePrepare :: "config \<Rightarrow> u32 \<Rightarrow> u64 \<Rightarrow> unit result" where
  "validatePrepare c replicaID view =
     guard_err (isPrimary view replicaID (cfg_n c)) ''Prepare from backup''"

definition validateCommit :: "u32 \<Rightarrow> certified \<Rightarrow> unit result" where
  "validateCommit replicaID prop =
     (if replicaID = ReplicaID prop then Inl (Error ''commit from primary'')
      else case prop of
             Prepare r v req u \<Rightarrow> Inr ()
           | NewView r v cert u \<Rightarrow> Inr ()
           | _ \<Rightarrow> Inl (Panic ''Unexpected proposal message type''))"

definition validateReqViewChange :: "config \<Rightarrow> req_view_change \<Rightarrow> unit result" where
  "validateReqViewChange c r =
     then_check (guard_err (\<not> rvc_NewView r < 1) ''Invalid new view number'') (verify_rvc c r)"

definition validateViewChange :: "config \<Rightarrow> view_change \<Rightarrow> unit result" where
  "validateViewChange c vc =
     then_check (guard_err (\<not> vc_NewView vc < 1) ''invalid new view number'')
       (then_check (validateVCCert (viewChangeCertSize c) (vc_NewView vc) (vc_ViewChangeCert vc))
         (validateMessageLog (vc_ReplicaID vc) (vc_NewView vc - 1) (vc_MessageLog vc)
           (Counter (vc_UI vc))))"

definition validateNewView :: "config \<Rightarrow> u32 \<Rightarrow> u64 \<Rightarrow> new_view_cert \<Rightarrow> unit result" where
  "validateNewView c replicaID newView cert =
     then_check (guard_err (\<not> newView < 1) ''invalid new view number'')
       (then_check (guard_err (isPrimary newView replicaID (cfg_n c)) ''NewView from backup replica'')
         (validateNVCert (viewChangeCertSize c) replicaID newView cert))"

definition validateCertifiedMessage :: "config \<Rightarrow> certified \<Rightarrow> unit result" where
  "validateCertifiedMessage c m =
     then_check (verifyUI c m)
       (case m of
          Prepare r v req u \<Rightarrow> validatePrepare c r v
        | Commit r prop u \<Rightarrow> validateCommit r prop
        | CViewChange vc \<Rightarrow> validateViewChange c vc
        | NewView r v cert u \<Rightarrow> validateNewView c r v cert)"

text \<open>
  \<open>validateMessage\<close> with \<open>validatePeerMessage\<close>. A Hello is a peer message that is neither
  certified nor a ReqViewChange, a Reply is not a peer message.
\<close>

definition validateMessage :: "config \<Rightarrow> message \<Rightarrow> unit result" where
  "validateMessage c m =
     (let peer = (\<lambda>replicaID k.
            if replicaID \<ge> cfg_n c then Inl (Error ''unexpected replica ID'') else k)
      in case m of
           MRequest r \<Rightarrow> validateRequest c r
         | MCertified x \<Rightarrow> peer (ReplicaID x) (validateCertifiedMessage c x)
         | MReqViewChange r \<Rightarrow> peer (rvc_ReplicaID r) (validateReqViewChange c r)
         | MHello r \<Rightarrow> peer r (Inl (Panic ''Unknown message type''))
         | MReply r \<Rightarrow> Inl (Panic ''Unknown message type''))"

section \<open>What the validators accept\<close>

lemma no_panic_error: "\<not> is_panic r \<Longrightarrow> r = Inl e \<Longrightarrow> \<exists>x. e = Error x"
  by (cases e) auto

lemma validators_no_panic [simp]:
  "\<not> is_panic (verify_tag c role i msg tag)" "\<not> is_panic (verifyUI c m)" "\<not> is_panic (validateRequest c r)"
  "\<not> is_panic (validatePrepare c i v)" "\<not> is_panic (validateReqViewChange c rvc)"
  "\<not> is_panic (validateViewChange c vc)" "\<not> is_panic (validateNewView c i v cert)"
  by (simp_all add: verify_tag_def verifyUI_def validateRequest_def verify_request_def validatePrepare_def
      validateReqViewChange_def verify_rvc_def validateViewChange_def validateNewView_def)

lemma validateMessage_panic:
  assumes "validateMessage c m = Inl e" and "\<forall>x. e \<noteq> Error x"
  shows "(\<exists>r prop u. m = MCertified (Commit r prop u) \<and> \<not> is_proposal prop \<and>
       e = Panic ''Unexpected proposal message type'') \<or>
     ((\<exists>r. m = MHello r) \<or> (\<exists>r. m = MReply r)) \<and> e = Panic ''Unknown message type''"
proof -
  have p: "is_panic (validateMessage c m)" using assms by (cases e) auto
  show ?thesis
  proof (cases m)
    case (MCertified y)
    then have cert: "validateCertifiedMessage c y = Inl e" "is_panic (validateCertifiedMessage c y)"
      using p assms by (auto simp: validateMessage_def Let_def split: if_splits)
    have ui: "verifyUI c y = Inr ()" using cert(2) by (simp add: validateCertifiedMessage_def)
    show ?thesis
    proof (cases y)
      case (Commit r q u)
      then show ?thesis using cert ui MCertified
        by (cases q) (auto simp: validateCertifiedMessage_def validateCommit_def split: if_splits)
    qed (use cert(2) in \<open>auto simp: validateCertifiedMessage_def\<close>)
  next
    case (MReqViewChange r)
    then show ?thesis using p by (auto simp: validateMessage_def Let_def split: if_splits)
  next
    case (MRequest r)
    then show ?thesis using p by (auto simp: validateMessage_def)
  qed (use assms in \<open>auto simp: validateMessage_def Let_def split: if_splits\<close>)
qed

lemma validateMessage_certified:
  "validateMessage c (MCertified y) = Inr () \<longleftrightarrow>
     ReplicaID y < cfg_n c \<and> verifyUI c y = Inr () \<and>
     (case y of
        Prepare r v req u \<Rightarrow> isPrimary v r (cfg_n c)
      | Commit r prop u \<Rightarrow> r \<noteq> ReplicaID prop \<and> is_proposal prop
      | CViewChange vc \<Rightarrow> vc_NewView vc \<noteq> 0 \<and>
          validateVCCert (viewChangeCertSize c) (vc_NewView vc) (vc_ViewChangeCert vc) = Inr () \<and>
          valid_log (vc_ReplicaID vc) (vc_NewView vc - 1) (vc_MessageLog vc) (Counter (vc_UI vc))
      | NewView r v cert u \<Rightarrow> v \<noteq> 0 \<and> isPrimary v r (cfg_n c) \<and>
          validateNVCert (viewChangeCertSize c) r v cert = Inr ())"
  by (cases y)
    (auto simp: validateMessage_def Let_def validateCertifiedMessage_def validatePrepare_def
      validateViewChange_def validateNewView_def validateMessageLog_ok word_less_1 not_le
      validateCommit_def split: if_splits certified.splits)

section \<open>What the identifier of a ViewChange binds\<close>

text \<open>
  The USIG of a replica assigns a counter value to at most one message: of two certified messages
  with the same valid identifier, the authenticated bytes are the same.
\<close>

definition usig_unique :: "config \<Rightarrow> u32 \<Rightarrow> bool" where
  "usig_unique c r \<longleftrightarrow>
     (\<forall>m m'. ReplicaID m = r \<longrightarrow> ReplicaID m' = r \<longrightarrow> verifyUI c m = Inr () \<longrightarrow> verifyUI c m' = Inr () \<longrightarrow>
        Counter (UI m) = Counter (UI m') \<longrightarrow> authen_certified (cfg_hash c) m = authen_certified (cfg_hash c) m')"

lemma verifyUI_nonzero: "verifyUI c m = Inr () \<Longrightarrow> Counter (UI m) \<noteq> 0"
  by (auto simp: verifyUI_def then_check_def guard_err_def split: if_splits)

lemma is_view_msg_content:
  "certified_content H m = certified_content H m' \<Longrightarrow> is_view_msg m \<longleftrightarrow> is_view_msg m'"
  by (cases m; cases m') auto

lemma check_log_Cons:
  assumes "check_log r v k (x # xs) = Inr ()" and "\<forall>m \<in> set xs. verifyUI c m = Inr ()"
  shows "ReplicaID x = r \<and> Counter (UI x) + 1 = k \<and> check_log r v (k - 1) xs = Inr () \<and>
    (xs = [] \<longleftrightarrow> is_view_msg x \<or> k - 1 = 1 \<and> v = 0)"
proof -
  have "\<not> (k - 1 = 1)" if "xs = m # ms" "check_log r v (k - 1) xs = Inr ()" for m ms
    using that assms(2) verifyUI_nonzero [of c m] by (auto split: if_splits)
  with assms(1) show ?thesis by (cases xs) (auto simp: word_neq_0_conv [symmetric] split: if_splits)
qed

lemma check_log_unique:
  assumes "usig_unique c r" and "check_log r v k xs = Inr ()" and "check_log r v k ys = Inr ()"
    and "\<forall>m \<in> set xs \<union> set ys. verifyUI c m = Inr ()" and "xs = [] \<longleftrightarrow> ys = []"
  shows "map (certified_content (cfg_hash c)) xs = map (certified_content (cfg_hash c)) ys"
  using assms(2-5)
proof (induction xs arbitrary: ys k)
  case (Cons x xs)
  then obtain y ys' where ys: "ys = y # ys'" by (cases ys) auto
  have ui: "verifyUI c x = Inr ()" "verifyUI c y = Inr ()" "\<forall>m \<in> set xs. verifyUI c m = Inr ()"
    "\<forall>m \<in> set ys'. verifyUI c m = Inr ()"
    using Cons.prems(3) ys by simp_all
  note x = check_log_Cons [OF Cons.prems(1) ui(3)]
  note y = check_log_Cons [OF Cons.prems(2) [unfolded ys] ui(4)]
  have "Counter (UI x) = Counter (UI y)" using x y by (metis add_right_cancel)
  with x y ui(1,2) assms(1) have "authen_certified (cfg_hash c) x = authen_certified (cfg_hash c) y"
    unfolding usig_unique_def by blast
  then have eq: "certified_content (cfg_hash c) x = certified_content (cfg_hash c) y"
    unfolding authen_certified_content by (rule content_bytes_inject)
  have "xs = [] \<longleftrightarrow> ys' = []" using x y is_view_msg_content [OF eq] by simp
  with Cons.IH [of "k - 1" ys'] x y ui(3,4) eq ys show ?case by auto
qed auto

lemma valid_logs_empty:
  assumes "validateMessageLog r v ms k = Inr ()" "validateMessageLog r v ms' k = Inr ()"
    and "\<forall>m \<in> set ms. verifyUI c m = Inr ()" and "ms' = []"
  shows "ms = []"
proof (cases ms rule: rev_cases)
  case (snoc xs x)
  with assms verifyUI_nonzero [of c x] show ?thesis
    by (auto simp: validateMessageLog_def split: if_splits)
qed

end
