(* ===== verification/ViewState.thy ===== *)
theory ViewState
  imports Prelude
begin

text \<open>
  Package \<open>core/internal/viewstate\<close>: the current and the expected view number. The operations
  are given first as the critical sections that run under the read-write lock; the second half
  models the lock itself, with the release functions that the operations hand out, as a step
  relation over any number of goroutines.
\<close>

section \<open>State and operations\<close>

record view_state =
  currentView :: u64
  expectedView :: u64

definition new_view_state :: view_state where
  "new_view_state = \<lparr>currentView = 0, expectedView = 0\<rparr>"

definition HoldView :: "view_state \<Rightarrow> u64 \<times> u64" where
  "HoldView s = (currentView s, expectedView s)"

definition AdvanceExpectedView :: "u64 \<Rightarrow> view_state \<Rightarrow> view_state \<times> bool" where
  "AdvanceExpectedView v s =
     (if expectedView s < v then (s\<lparr>expectedView := v\<rparr>, True) else (s, False))"

text \<open>\<open>Some\<close> carries the expected view that is returned together with \<open>ok = true\<close>.\<close>

definition AdvanceCurrentView :: "u64 \<Rightarrow> view_state \<Rightarrow> view_state \<times> u64 option" where
  "AdvanceCurrentView v s =
     (if currentView s < v then (s\<lparr>currentView := v\<rparr>, Some (expectedView s)) else (s, None))"

section \<open>The contract of the \<open>State\<close> interface\<close>

datatype view_op = AdvExpected u64 | AdvCurrent u64

locale view_state_interface =
  fixes hold :: "'s \<Rightarrow> u64 \<times> u64"
    and adv_expected :: "u64 \<Rightarrow> 's \<Rightarrow> 's \<times> bool"
    and adv_current :: "u64 \<Rightarrow> 's \<Rightarrow> 's \<times> u64 option"
  assumes hold_adv_expected: "hold (fst (adv_expected v s)) = (fst (hold s), max (snd (hold s)) v)"
    and hold_adv_current: "hold (fst (adv_current v s)) = (max (fst (hold s)) v, snd (hold s))"
    and adv_expected_ok: "snd (adv_expected v s) = (snd (hold s) < v)"
    and adv_current_ok: "snd (adv_current v s) = (if fst (hold s) < v then Some (snd (hold s)) else None)"
begin

fun view_exec :: "'s \<Rightarrow> view_op \<Rightarrow> 's" where
  "view_exec s (AdvExpected v) = fst (adv_expected v s)"
| "view_exec s (AdvCurrent v) = fst (adv_current v s)"

lemma exec_mono:
  "fst (hold s) \<le> fst (hold (view_exec s x)) \<and> snd (hold s) \<le> snd (hold (view_exec s x))"
  by (cases x) (simp_all add: hold_adv_expected hold_adv_current)

lemma run_mono:
  "fst (hold s) \<le> fst (hold (foldl view_exec s xs)) \<and> snd (hold s) \<le> snd (hold (foldl view_exec s xs))"
proof (induction xs arbitrary: s)
  case Nil
  then show ?case by simp
next
  case (Cons x xs)
  from exec_mono [of s x] Cons [of "view_exec s x"] show ?case by auto
qed

text \<open>An advance succeeds exactly once per view: afterwards the same view is refused.\<close>

lemma advance_once:
  "\<not> snd (adv_expected v (fst (adv_expected v s)))"
  "snd (adv_current v (fst (adv_current v s))) = None"
  by (simp_all add: adv_expected_ok adv_current_ok hold_adv_expected hold_adv_current)

end

interpretation vs: view_state_interface HoldView AdvanceExpectedView AdvanceCurrentView
  by unfold_locales
    (auto simp: HoldView_def AdvanceExpectedView_def AdvanceCurrentView_def max_def)

section \<open>The read-write lock\<close>

text \<open>
  \<open>readers\<close> are the goroutines that called \<open>HoldView\<close> and have not yet released, with the
  values they were given; \<open>writer\<close> is the one whose advance succeeded and is not yet
  released, with the values in force when the operation returned. A refused advance takes and
  drops the lock within the call.
\<close>

record locked_view =
  lv_state :: view_state
  lv_readers :: "(nat \<times> u64 \<times> u64) list"
  lv_writer :: "(nat \<times> u64 \<times> u64) option"

inductive lock_step :: "locked_view \<Rightarrow> locked_view \<Rightarrow> bool" where
  hold: "lv_writer l = None \<Longrightarrow>
    lock_step l (l\<lparr>lv_readers := (t, HoldView (lv_state l)) # lv_readers l\<rparr>)"
| advance_expected: "lv_writer l = None \<Longrightarrow> lv_readers l = [] \<Longrightarrow>
    AdvanceExpectedView v (lv_state l) = (s', True) \<Longrightarrow>
    lock_step l (l\<lparr>lv_state := s', lv_writer := Some (t, HoldView s')\<rparr>)"
| advance_current: "lv_writer l = None \<Longrightarrow> lv_readers l = [] \<Longrightarrow>
    AdvanceCurrentView v (lv_state l) = (s', Some e) \<Longrightarrow>
    lock_step l (l\<lparr>lv_state := s', lv_writer := Some (t, v, e)\<rparr>)"
| refused_expected: "lv_writer l = None \<Longrightarrow> lv_readers l = [] \<Longrightarrow>
    AdvanceExpectedView v (lv_state l) = (s', False) \<Longrightarrow> lock_step l (l\<lparr>lv_state := s'\<rparr>)"
| refused_current: "lv_writer l = None \<Longrightarrow> lv_readers l = [] \<Longrightarrow>
    AdvanceCurrentView v (lv_state l) = (s', None) \<Longrightarrow> lock_step l (l\<lparr>lv_state := s'\<rparr>)"
| release_read: "lv_readers l = xs @ h # ys \<Longrightarrow> lock_step l (l\<lparr>lv_readers := xs @ ys\<rparr>)"
| release_write: "lv_writer l = Some h \<Longrightarrow> lock_step l (l\<lparr>lv_writer := None\<rparr>)"

definition unlocked :: "view_state \<Rightarrow> locked_view" where
  "unlocked s = \<lparr>lv_state = s, lv_readers = [], lv_writer = None\<rparr>"

inductive lock_reach :: "locked_view \<Rightarrow> bool" where
  lock_init: "lock_reach (unlocked new_view_state)"
| lock_more: "lock_reach l \<Longrightarrow> lock_step l l' \<Longrightarrow> lock_reach l'"

definition lock_inv :: "locked_view \<Rightarrow> bool" where
  "lock_inv l \<longleftrightarrow>
     (\<forall>h \<in> set (lv_readers l). snd h = HoldView (lv_state l)) \<and>
     (\<forall>h. lv_writer l = Some h \<longrightarrow> snd h = HoldView (lv_state l) \<and> lv_readers l = [])"

lemma lock_step_inv: "lock_step l l' \<Longrightarrow> lock_inv l \<Longrightarrow> lock_inv l'"
  by (induction rule: lock_step.induct)
    (auto simp: lock_inv_def HoldView_def AdvanceExpectedView_def AdvanceCurrentView_def
      split: if_splits)

lemma lock_inv_unlocked: "lock_inv (unlocked s)"
  by (simp add: lock_inv_def unlocked_def)

lemma lock_reach_inv: "lock_reach l \<Longrightarrow> lock_inv l"
  by (induction rule: lock_reach.induct) (blast intro: lock_inv_unlocked lock_step_inv)+

lemma lock_step_mono:
  "lock_step l l' \<Longrightarrow> currentView (lv_state l) \<le> currentView (lv_state l') \<and>
     expectedView (lv_state l) \<le> expectedView (lv_state l')"
  by (induction rule: lock_step.induct)
    (auto simp: AdvanceExpectedView_def AdvanceCurrentView_def split: if_splits)

end
