(* ===== verification/Timer.thy ===== *)
theory Timer
  imports Prelude
begin

text \<open>
  Packages \<open>core/internal/timer\<close> and \<open>core/internal/backofftimer\<close>. A timer provider keeps
  the callbacks that are armed and will run when their timer expires; a timer is a handle into
  it. The provider stands for \<open>time.AfterFunc\<close>: arming returns a fresh handle, stopping disarms
  the callback if it has not run yet, and expiry runs an armed callback once. \<open>'cb\<close> is what
  the callback closure captures.
\<close>

section \<open>Timer provider\<close>

record 'cb provider =
  next_handle :: nat
  armed :: "(nat \<times> int \<times> 'cb) list"

definition new_provider :: "'cb provider" where
  "new_provider = \<lparr>next_handle = 0, armed = []\<rparr>"

definition AfterFunc :: "int \<Rightarrow> 'cb \<Rightarrow> 'cb provider \<Rightarrow> 'cb provider \<times> nat" where
  "AfterFunc d cb p =
     (p\<lparr>next_handle := Suc (next_handle p), armed := armed p @ [(next_handle p, d, cb)]\<rparr>, next_handle p)"

definition StopTimer :: "nat \<Rightarrow> 'cb provider \<Rightarrow> 'cb provider \<times> bool" where
  "StopTimer h p =
     (p\<lparr>armed := filter (\<lambda>(h', _, _). h' \<noteq> h) (armed p)\<rparr>, \<exists>x \<in> set (armed p). fst x = h)"

definition expire :: "nat \<Rightarrow> 'cb provider \<Rightarrow> ('cb provider \<times> 'cb) option" where
  "expire h p =
     (case map_of (armed p) h of
        None \<Rightarrow> None
      | Some (_, cb) \<Rightarrow> Some (fst (StopTimer h p), cb))"

definition provider_inv :: "'cb provider \<Rightarrow> bool" where
  "provider_inv p \<longleftrightarrow> distinct (map fst (armed p)) \<and> (\<forall>x \<in> set (armed p). fst x < next_handle p)"

lemma provider_inv_new [simp]: "provider_inv new_provider"
  by (simp add: provider_inv_def new_provider_def)

lemma provider_inv_AfterFunc: "provider_inv p \<Longrightarrow> provider_inv (fst (AfterFunc d cb p))"
  by (fastforce simp: provider_inv_def AfterFunc_def less_Suc_eq)

lemma provider_inv_StopTimer: "provider_inv p \<Longrightarrow> provider_inv (fst (StopTimer h p))"
  by (auto simp: provider_inv_def StopTimer_def distinct_map_filter)

lemma StopTimer_disarms: "map_of (armed (fst (StopTimer h p))) h = None"
  by (auto simp: StopTimer_def map_of_eq_None_iff)

lemma StopTimer_other: "h' \<noteq> h \<Longrightarrow> map_of (armed (fst (StopTimer h p))) h' = map_of (armed p) h'"
proof -
  assume "h' \<noteq> h"
  then have "map_of (filter (\<lambda>(a, _, _). a \<noteq> h) xs) h' = map_of xs h'" for xs :: "(nat \<times> int \<times> 'a) list"
    by (induction xs) auto
  then show ?thesis by (simp add: StopTimer_def)
qed

lemma AfterFunc_arms:
  "provider_inv p \<Longrightarrow>
     map_of (armed (fst (AfterFunc d cb p))) = (map_of (armed p))(next_handle p \<mapsto> (d, cb))"
proof -
  assume "provider_inv p"
  then have "map_of (armed p) (next_handle p) = None"
    by (auto simp: provider_inv_def map_of_eq_None_iff)
  then have "[next_handle p \<mapsto> (d, cb)] ++ map_of (armed p) = map_of (armed p) ++ [next_handle p \<mapsto> (d, cb)]"
    by (intro map_add_comm) (auto simp: domIff)
  then show ?thesis by (simp add: AfterFunc_def)
qed

section \<open>Back-off timer\<close>

text \<open>
  Durations are \<open>int64\<close> nanoseconds, doubled on every start; the doubling wraps around like
  Go's signed multiplication. \<open>Start\<close> overwrites the timer it holds without stopping it.
\<close>

record 'cb backoff =
  bo_init :: "64 word"
  bo_current :: "64 word"
  bo_timer :: "nat option"
  bo_provider :: "'cb provider"

definition new_backoff :: "64 word \<Rightarrow> 'cb backoff" where
  "new_backoff d = \<lparr>bo_init = d, bo_current = d, bo_timer = None, bo_provider = new_provider\<rparr>"

definition backoff_Start :: "'cb \<Rightarrow> 'cb backoff \<Rightarrow> 'cb backoff" where
  "backoff_Start cb t =
     (let (p, h) = AfterFunc (sint (bo_current t)) cb (bo_provider t)
      in t\<lparr>bo_timer := Some h, bo_provider := p, bo_current := bo_current t * 2\<rparr>)"

definition backoff_Stop :: "'cb backoff \<Rightarrow> 'cb backoff" where
  "backoff_Stop t =
     (let t' = (case bo_timer t of
                  None \<Rightarrow> t
                | Some h \<Rightarrow> t\<lparr>bo_timer := None, bo_provider := fst (StopTimer h (bo_provider t))\<rparr>)
      in t'\<lparr>bo_current := bo_init t'\<rparr>)"

definition backoff_inv :: "'cb backoff \<Rightarrow> bool" where
  "backoff_inv t \<longleftrightarrow> provider_inv (bo_provider t)"

lemma backoff_inv_new [simp]: "backoff_inv (new_backoff d)"
  by (simp add: backoff_inv_def new_backoff_def)

lemma backoff_inv_Start: "backoff_inv t \<Longrightarrow> backoff_inv (backoff_Start cb t)"
  using provider_inv_AfterFunc [of "bo_provider t"]
  by (simp add: backoff_inv_def backoff_Start_def split_def Let_def)

lemma backoff_inv_Stop: "backoff_inv t \<Longrightarrow> backoff_inv (backoff_Stop t)"
  by (auto simp: backoff_inv_def backoff_Stop_def Let_def provider_inv_StopTimer split: option.splits)

lemma backoff_current_Stop [simp]: "bo_current (backoff_Stop t) = bo_init t"
  by (simp add: backoff_Stop_def Let_def split: option.splits)

lemma backoff_init_Stop [simp]: "bo_init (backoff_Stop t) = bo_init t"
  by (simp add: backoff_Stop_def Let_def split: option.splits)

lemma backoff_init_Start [simp]: "bo_init (backoff_Start cb t) = bo_init t"
  by (simp add: backoff_Start_def split_def Let_def)

lemma backoff_current_Start [simp]: "bo_current (backoff_Start cb t) = bo_current t * 2"
  by (simp add: backoff_Start_def split_def Let_def)

lemma backoff_current_Starts:
  "bo_current (fold backoff_Start cbs t) = bo_current t * 2 ^ length cbs"
  by (induction cbs arbitrary: t) (simp_all add: ac_simps)

end
