(* ===== verification/ClientState.thy ===== *)
theory ClientState
  imports Messages Timer
begin

text \<open>
  Package \<open>core/internal/clientstate\<close>: what a replica keeps for every client, namely the
  identifiers of the requests it has captured, released, prepared and retired, the last reply,
  and the request and prepare timers.
\<close>

section \<open>Request identifiers\<close>

record seq_state =
  lastCapturedSeq :: u64
  lastReleasedSeq :: u64
  lastPreparedSeq :: u64
  lastRetiredSeq :: u64

definition newSeqState :: seq_state where
  "newSeqState = \<lparr>lastCapturedSeq = 0, lastReleasedSeq = 0, lastPreparedSeq = 0, lastRetiredSeq = 0\<rparr>"

text \<open>
  One pass of the capture loop under the lock. \<open>Wait\<close> is a wait on the condition variable,
  after which the loop tries again.
\<close>

datatype capture = NotNew | Captured | Wait

definition CaptureRequestSeq :: "u64 \<Rightarrow> seq_state \<Rightarrow> seq_state \<times> capture" where
  "CaptureRequestSeq seq s =
     (if seq \<le> lastCapturedSeq s then
        (if seq > lastReleasedSeq s then (s, Wait) else (s, NotNew))
      else if lastCapturedSeq s > lastReleasedSeq s then (s, Wait)
      else (s\<lparr>lastCapturedSeq := seq\<rparr>, Captured))"

definition release_seq :: "seq_state \<Rightarrow> seq_state" where
  "release_seq s = s\<lparr>lastReleasedSeq := lastCapturedSeq s\<rparr>"

definition PrepareRequestSeq :: "u64 \<Rightarrow> (seq_state, bool) handler" where
  "PrepareRequestSeq seq s =
     (if seq \<le> lastPreparedSeq s then (s, Inr False)
      else if seq > lastCapturedSeq s then (s, Inl (Error ''Request ID not captured''))
      else (s\<lparr>lastPreparedSeq := seq\<rparr>, Inr True))"

definition RetireRequestSeq :: "u64 \<Rightarrow> (seq_state, bool) handler" where
  "RetireRequestSeq seq s =
     (if seq \<le> lastRetiredSeq s then (s, Inr False)
      else if seq > lastPreparedSeq s then (s, Inl (Error ''Request ID not prepared''))
      else (s\<lparr>lastRetiredSeq := seq\<rparr>, Inr True))"

definition UnprepareRequestSeq :: "seq_state \<Rightarrow> seq_state" where
  "UnprepareRequestSeq s = s\<lparr>lastPreparedSeq := lastRetiredSeq s\<rparr>"

definition seq_inv :: "seq_state \<Rightarrow> bool" where
  "seq_inv s \<longleftrightarrow> lastRetiredSeq s \<le> lastPreparedSeq s \<and> lastPreparedSeq s \<le> lastCapturedSeq s \<and>
     lastReleasedSeq s \<le> lastCapturedSeq s"

lemmas seq_defs = CaptureRequestSeq_def release_seq_def PrepareRequestSeq_def RetireRequestSeq_def
  UnprepareRequestSeq_def seq_inv_def newSeqState_def

lemma seq_inv_new [simp]: "seq_inv newSeqState"
  by (simp add: seq_defs)

lemma seq_inv_capture: "seq_inv s \<Longrightarrow> seq_inv (fst (CaptureRequestSeq seq s))"
  by (auto simp: seq_defs)

lemma seq_inv_release: "seq_inv s \<Longrightarrow> seq_inv (release_seq s)"
  by (auto simp: seq_defs)

lemma seq_inv_prepare: "seq_inv s \<Longrightarrow> seq_inv (fst (PrepareRequestSeq seq s))"
  by (auto simp: seq_defs)

lemma seq_inv_retire: "seq_inv s \<Longrightarrow> seq_inv (fst (RetireRequestSeq seq s))"
  by (auto simp: seq_defs)

lemma seq_inv_unprepare: "seq_inv s \<Longrightarrow> seq_inv (UnprepareRequestSeq s)"
  by (auto simp: seq_defs)

subsection \<open>Concurrent capture\<close>

text \<open>
  Any number of goroutines handle requests of the client at the same time: \<open>Trying seq\<close> is
  inside \<open>CaptureRequestSeq\<close>, \<open>Holding seq\<close> has captured \<open>seq\<close> and not yet invoked the release
  function, \<open>Returned seq new\<close> is done.
\<close>

datatype capture_pc = Trying u64 | Holding u64 | Returned u64 bool

record capture_sys =
  cp_state :: seq_state
  cp_pcs :: "nat \<Rightarrow> capture_pc option"
  cp_won :: "u64 list"

inductive capture_step :: "capture_sys \<Rightarrow> capture_sys \<Rightarrow> bool" where
  enter: "cp_pcs y t = None \<Longrightarrow> capture_step y (y\<lparr>cp_pcs := (cp_pcs y)(t \<mapsto> Trying seq)\<rparr>)"
| win: "cp_pcs y t = Some (Trying seq) \<Longrightarrow> CaptureRequestSeq seq (cp_state y) = (s', Captured) \<Longrightarrow>
    capture_step y (y\<lparr>cp_state := s', cp_pcs := (cp_pcs y)(t \<mapsto> Holding seq), cp_won := seq # cp_won y\<rparr>)"
| lose: "cp_pcs y t = Some (Trying seq) \<Longrightarrow> CaptureRequestSeq seq (cp_state y) = (s', NotNew) \<Longrightarrow>
    capture_step y (y\<lparr>cp_state := s', cp_pcs := (cp_pcs y)(t \<mapsto> Returned seq False)\<rparr>)"
| release: "cp_pcs y t = Some (Holding seq) \<Longrightarrow>
    capture_step y (y\<lparr>cp_state := release_seq (cp_state y),
      cp_pcs := (cp_pcs y)(t \<mapsto> Returned seq True)\<rparr>)"

definition capture_start :: capture_sys where
  "capture_start = \<lparr>cp_state = newSeqState, cp_pcs = Map.empty, cp_won = []\<rparr>"

inductive capture_reach :: "capture_sys \<Rightarrow> bool" where
  capture_init: "capture_reach capture_start"
| capture_more: "capture_reach y \<Longrightarrow> capture_step y y' \<Longrightarrow> capture_reach y'"

text \<open>
  The captured identifier is unreleased exactly while some goroutine holds it; a holder holds the
  last captured one, and the identifiers that were won are strictly increasing.
\<close>

definition capture_inv :: "capture_sys \<Rightarrow> bool" where
  "capture_inv y \<longleftrightarrow>
     lastReleasedSeq (cp_state y) \<le> lastCapturedSeq (cp_state y) \<and>
     (\<forall>t seq. cp_pcs y t = Some (Holding seq) \<longrightarrow>
        seq = lastCapturedSeq (cp_state y) \<and> lastReleasedSeq (cp_state y) < seq) \<and>
     (\<forall>t u a b. cp_pcs y t = Some (Holding a) \<longrightarrow> cp_pcs y u = Some (Holding b) \<longrightarrow> t = u) \<and>
     (lastReleasedSeq (cp_state y) < lastCapturedSeq (cp_state y) \<longrightarrow>
        (\<exists>t. cp_pcs y t = Some (Holding (lastCapturedSeq (cp_state y))))) \<and>
     sorted_wrt (>) (cp_won y) \<and> (\<forall>x \<in> set (cp_won y). x \<le> lastCapturedSeq (cp_state y))"

lemma capture_inv_start: "capture_inv capture_start"
  by (simp add: capture_inv_def capture_start_def newSeqState_def)

lemma capture_inv_same:
  assumes "cp_state y' = cp_state y" and "cp_won y' = cp_won y"
    and "\<And>t a. (cp_pcs y' t = Some (Holding a)) = (cp_pcs y t = Some (Holding a))"
  shows "capture_inv y' = capture_inv y"
  by (simp add: capture_inv_def assms)

lemma capture_inv_idle:
  assumes "capture_inv y" and "lastCapturedSeq (cp_state y) = lastReleasedSeq (cp_state y)"
  shows "cp_pcs y t \<noteq> Some (Holding a)"
  using assms by (auto simp: capture_inv_def)

lemma capture_inv_busy:
  assumes "capture_inv y" and "cp_pcs y t = Some (Holding a)"
  shows "cp_pcs y u = Some (Holding b) \<longleftrightarrow> u = t \<and> b = a"
proof -
  have "u = t" if "cp_pcs y u = Some (Holding b)"
    using that assms unfolding capture_inv_def by blast
  then show ?thesis using assms(2) by auto
qed

lemma capture_step_inv: "capture_step y y' \<Longrightarrow> capture_inv y \<Longrightarrow> capture_inv y'"
proof (induction rule: capture_step.induct)
  case (win y t seq s')
  then have s': "s' = (cp_state y)\<lparr>lastCapturedSeq := seq\<rparr>" "lastCapturedSeq (cp_state y) < seq"
      "lastCapturedSeq (cp_state y) = lastReleasedSeq (cp_state y)"
    by (auto simp: CaptureRequestSeq_def capture_inv_def split: if_splits)
  have pcs: "((cp_pcs y)(t \<mapsto> Holding seq)) u = Some (Holding a) \<longleftrightarrow> u = t \<and> a = seq" for u a
    using capture_inv_idle [OF win.prems s'(3)] by auto
  have "\<forall>x \<in> set (cp_won y). x < seq" and "sorted_wrt (>) (cp_won y)"
    using win.prems s' by (auto simp: capture_inv_def)
  with s' show ?case
    by (auto simp: capture_inv_def pcs simp del: fun_upd_apply)
next
  case (release y t seq)
  have "((cp_pcs y)(t \<mapsto> Returned seq True)) u \<noteq> Some (Holding a)" for u a
    using capture_inv_busy [OF release.prems release.hyps] by auto
  with release.prems show ?case
    by (simp add: capture_inv_def release_seq_def del: fun_upd_apply)
next
  case (lose y t seq s')
  then have "s' = cp_state y" by (auto simp: CaptureRequestSeq_def split: if_splits)
  with lose show ?case by (subst capture_inv_same [where y = y]) auto
next
  case (enter y t seq)
  then show ?case by (subst capture_inv_same [where y = y]) auto
qed

lemma capture_reach_inv: "capture_reach y \<Longrightarrow> capture_inv y"
  by (induction rule: capture_reach.induct) (blast intro: capture_inv_start capture_step_inv)+

text \<open>A goroutine that has to wait waits for another one that can release: there is no deadlock.\<close>

lemma capture_wait_holder:
  "capture_inv y \<Longrightarrow> cp_pcs y t = Some (Trying seq) \<Longrightarrow> snd (CaptureRequestSeq seq (cp_state y)) = Wait \<Longrightarrow>
   \<exists>u. u \<noteq> t \<and> cp_pcs y u = Some (Holding (lastCapturedSeq (cp_state y)))"
proof -
  assume y: "capture_inv y" and t: "cp_pcs y t = Some (Trying seq)"
    and "snd (CaptureRequestSeq seq (cp_state y)) = Wait"
  then have "lastReleasedSeq (cp_state y) < lastCapturedSeq (cp_state y)"
    by (auto simp: CaptureRequestSeq_def split: if_splits)
  with y obtain u where "cp_pcs y u = Some (Holding (lastCapturedSeq (cp_state y)))"
    unfolding capture_inv_def by blast
  with t show ?thesis by (intro exI [of _ u]) auto
qed

subsection \<open>The contract of the identifier operations\<close>

datatype seq_op = PrepareOp u64 | RetireOp u64 | UnprepareOp

locale request_ids =
  fixes captured :: "'s \<Rightarrow> u64" and prepared :: "'s \<Rightarrow> u64" and retired :: "'s \<Rightarrow> u64"
    and prepare :: "u64 \<Rightarrow> ('s, bool) handler" and retire :: "u64 \<Rightarrow> ('s, bool) handler"
    and unprepare :: "'s \<Rightarrow> 's"
  assumes prepare_spec: "prepare q s = (s', r) \<Longrightarrow>
      captured s' = captured s \<and> retired s' = retired s \<and>
      prepared s' = (if r = Inr True then q else prepared s) \<and>
      (r = Inr True \<longleftrightarrow> prepared s < q \<and> q \<le> captured s) \<and> (r = Inr False \<longleftrightarrow> q \<le> prepared s)"
    and retire_spec: "retire q s = (s', r) \<Longrightarrow>
      captured s' = captured s \<and> prepared s' = prepared s \<and>
      retired s' = (if r = Inr True then q else retired s) \<and>
      (r = Inr True \<longleftrightarrow> retired s < q \<and> q \<le> prepared s) \<and> (r = Inr False \<longleftrightarrow> q \<le> retired s)"
    and unprepare_spec: "captured (unprepare s) = captured s \<and> retired (unprepare s) = retired s \<and>
      prepared (unprepare s) = retired s"
begin

text \<open>Running a list of operations, with the identifiers that were retired as new.\<close>

fun run_ids :: "'s \<Rightarrow> seq_op list \<Rightarrow> u64 list" where
  "run_ids s [] = []"
| "run_ids s (PrepareOp q # xs) = run_ids (fst (prepare q s)) xs"
| "run_ids s (RetireOp q # xs) =
     (case retire q s of (s', r) \<Rightarrow> if r = Inr True then q # run_ids s' xs else run_ids s' xs)"
| "run_ids s (UnprepareOp # xs) = run_ids (unprepare s) xs"

lemma run_ids_greater: "q \<in> set (run_ids s xs) \<Longrightarrow> retired s < q"
proof (induction s xs rule: run_ids.induct)
  case (2 s q' xs)
  then show ?case using prepare_spec [of q' s] by (cases "prepare q' s") auto
next
  case (3 s q' xs)
  obtain s' r where m: "retire q' s = (s', r)" by fastforce
  with 3 show ?case using retire_spec [OF m] by (auto split: if_splits)
next
  case (4 s xs)
  then show ?case using unprepare_spec [of s] by simp
qed simp

lemma run_ids_increasing: "sorted_wrt (<) (run_ids s xs)"
proof (induction s xs rule: run_ids.induct)
  case (3 s q' xs)
  obtain s' r where m: "retire q' s = (s', r)" by fastforce
  with 3 show ?case using retire_spec [OF m] by (auto split: if_splits dest: run_ids_greater)
qed simp_all

end

interpretation seqs: request_ids lastCapturedSeq lastPreparedSeq lastRetiredSeq
  PrepareRequestSeq RetireRequestSeq UnprepareRequestSeq
  by unfold_locales (auto simp: seq_defs split: if_splits)

section \<open>Replies\<close>

record reply_state =
  lastRepliedSeq :: u64
  lastReply :: "reply option"

definition newReplyState :: reply_state where
  "newReplyState = \<lparr>lastRepliedSeq = 0, lastReply = None\<rparr>"

definition AddReply :: "reply \<Rightarrow> reply_state \<Rightarrow> reply_state" where
  "AddReply r s =
     (if rep_Sequence r \<le> lastRepliedSeq s then s
      else s\<lparr>lastReply := Some r, lastRepliedSeq := rep_Sequence r\<rparr>)"

text \<open>
  One iteration of the goroutine behind \<open>ReplyChannel\<close>: it sends the reply and closes the channel,
  closes the channel without a reply, or waits for the next reply to be added.
\<close>

datatype reply_poll = SendReply reply | CloseEmpty | AwaitReply

definition ReplyChannel :: "u64 \<Rightarrow> reply_state \<Rightarrow> reply_poll result" where
  "ReplyChannel seq s =
     (if seq \<le> lastRepliedSeq s then
        (case lastReply s of
           None \<Rightarrow> Inl (Panic ''nil pointer dereference'')
         | Some r \<Rightarrow> Inr (if rep_Sequence r = seq then SendReply r else CloseEmpty))
      else Inr AwaitReply)"

definition reply_inv :: "reply_state \<Rightarrow> bool" where
  "reply_inv s \<longleftrightarrow> (case lastReply s of None \<Rightarrow> lastRepliedSeq s = 0
     | Some r \<Rightarrow> rep_Sequence r = lastRepliedSeq s \<and> 0 < lastRepliedSeq s)"

lemma reply_inv_new [simp]: "reply_inv newReplyState"
  by (simp add: reply_inv_def newReplyState_def)

lemma reply_inv_add: "reply_inv s \<Longrightarrow> reply_inv (AddReply r s)"
  using word_neq_0_conv [of "rep_Sequence r"]
  by (auto simp: reply_inv_def AddReply_def not_le split: option.splits)

section \<open>Timers\<close>

record 'cb timer_state =
  ts_timer :: "nat option"
  ts_seq :: u64
  ts_provider :: "'cb provider"

definition newTimerState :: "'cb timer_state" where
  "newTimerState = \<lparr>ts_timer = None, ts_seq = 0, ts_provider = new_provider\<rparr>"

definition stopAnyLocked :: "'cb timer_state \<Rightarrow> 'cb timer_state" where
  "stopAnyLocked s =
     (case ts_timer s of
        None \<Rightarrow> s
      | Some h \<Rightarrow> s\<lparr>ts_provider := fst (StopTimer h (ts_provider s)), ts_timer := None\<rparr>)"

definition timer_Start :: "int \<Rightarrow> u64 \<Rightarrow> 'cb \<Rightarrow> 'cb timer_state \<Rightarrow> 'cb timer_state" where
  "timer_Start timeout seq handleTimeout s =
     (let s1 = (case ts_timer s of
                  None \<Rightarrow> s
                | Some h \<Rightarrow> s\<lparr>ts_provider := fst (StopTimer h (ts_provider s))\<rparr>);
          s2 = s1\<lparr>ts_seq := seq\<rparr>
      in if timeout \<le> 0 then s2
         else let (p, h) = AfterFunc timeout handleTimeout (ts_provider s2)
              in s2\<lparr>ts_provider := p, ts_timer := Some h\<rparr>)"

definition timer_Stop :: "u64 \<Rightarrow> 'cb timer_state \<Rightarrow> 'cb timer_state" where
  "timer_Stop seq s = (if ts_seq s \<noteq> seq then s else stopAnyLocked s)"

definition timer_StopAny :: "'cb timer_state \<Rightarrow> 'cb timer_state" where
  "timer_StopAny s = stopAnyLocked s"

text \<open>At most one callback is armed, and it is the one of the timer that is held.\<close>

definition timer_inv :: "'cb timer_state \<Rightarrow> bool" where
  "timer_inv s \<longleftrightarrow> provider_inv (ts_provider s) \<and>
     (\<forall>x \<in> set (armed (ts_provider s)). ts_timer s = Some (fst x))"

lemma timer_inv_new [simp]: "timer_inv newTimerState"
  by (simp add: timer_inv_def newTimerState_def new_provider_def provider_inv_def)

lemma timer_stop_empty:
  "timer_inv s \<Longrightarrow> ts_timer s = Some h \<Longrightarrow> armed (fst (StopTimer h (ts_provider s))) = []"
  by (auto simp: timer_inv_def StopTimer_def filter_empty_conv)

lemma timer_none_empty: "timer_inv s \<Longrightarrow> ts_timer s = None \<Longrightarrow> armed (ts_provider s) = []"
  by (cases "armed (ts_provider s)") (auto simp: timer_inv_def)

lemma timer_stopAny_disarms: "timer_inv s \<Longrightarrow> armed (ts_provider (stopAnyLocked s)) = []"
  by (simp add: stopAnyLocked_def timer_stop_empty timer_none_empty split: option.splits)

lemma timer_inv_stopAny: "timer_inv s \<Longrightarrow> timer_inv (stopAnyLocked s)"
  using timer_stopAny_disarms [of s]
  by (auto simp: timer_inv_def provider_inv_def)

lemma timer_inv_Stop: "timer_inv s \<Longrightarrow> timer_inv (timer_Stop seq s)"
  by (simp add: timer_Stop_def timer_inv_stopAny)

lemma timer_Start_armed:
  assumes "timer_inv s"
  shows "map (\<lambda>(_, d, cb). (d, cb)) (armed (ts_provider (timer_Start timeout seq cb s))) =
           (if 0 < timeout then [(timeout, cb)] else [])"
  using assms
  by (cases "ts_timer s") (auto simp: timer_Start_def Let_def AfterFunc_def timer_stop_empty timer_none_empty)

lemma timer_inv_Start: "timer_inv s \<Longrightarrow> timer_inv (timer_Start timeout seq cb s)"
proof -
  assume "timer_inv s"
  then have "armed (case ts_timer s of None \<Rightarrow> ts_provider s | Some h \<Rightarrow> fst (StopTimer h (ts_provider s))) = []"
    by (simp add: timer_stop_empty timer_none_empty split: option.splits)
  then show ?thesis
    by (cases "ts_timer s")
      (simp_all add: timer_Start_def Let_def AfterFunc_def timer_inv_def provider_inv_def)
qed

section \<open>Client state and its provider\<close>

text \<open>
  The callback of the request timer captures the client, the identifier and the view; the one of
  the prepare timer captures the request and the view.
\<close>

record client_state =
  cs_seq :: seq_state
  cs_reply :: reply_state
  cs_requestTimer :: "(u32 \<times> u64 \<times> u64) timer_state"
  cs_prepareTimer :: "(request \<times> u64) timer_state"

definition newClientState :: client_state where
  "newClientState = \<lparr>cs_seq = newSeqState, cs_reply = newReplyState,
     cs_requestTimer = newTimerState, cs_prepareTimer = newTimerState\<rparr>"

definition StopAllTimers :: "client_state \<Rightarrow> client_state" where
  "StopAllTimers c = c\<lparr>cs_requestTimer := timer_StopAny (cs_requestTimer c),
     cs_prepareTimer := timer_StopAny (cs_prepareTimer c)\<rparr>"

type_synonym client_states = "(u32 \<times> client_state) list"

text \<open>
  \<open>ClientState(id)\<close> returns a pointer to the state of the client, which it creates on first use:
  \<open>client_of\<close> reads through the pointer and \<open>with_client\<close> updates through it.
\<close>

definition client_of :: "u32 \<Rightarrow> client_states \<Rightarrow> client_state" where
  "client_of cid p = (case map_of p cid of None \<Rightarrow> newClientState | Some c \<Rightarrow> c)"

definition with_client :: "u32 \<Rightarrow> (client_state \<Rightarrow> client_state) \<Rightarrow> client_states \<Rightarrow> client_states" where
  "with_client cid f p = AList.update cid (f (client_of cid p)) p"

definition Clients :: "client_states \<Rightarrow> u32 list" where
  "Clients p = map fst p"

lemma client_of_with_client [simp]:
  "client_of c (with_client d f p) = (if c = d then f (client_of d p) else client_of c p)"
  by (simp add: client_of_def with_client_def)

lemma client_of_Nil [simp]: "client_of c [] = newClientState"
  by (simp add: client_of_def)

definition client_inv :: "client_state \<Rightarrow> bool" where
  "client_inv c \<longleftrightarrow> seq_inv (cs_seq c) \<and> reply_inv (cs_reply c) \<and>
     timer_inv (cs_requestTimer c) \<and> timer_inv (cs_prepareTimer c)"

lemma client_inv_new [simp]: "client_inv newClientState"
  by (simp add: client_inv_def newClientState_def)

lemma StopAllTimers_disarms:
  "client_inv c \<Longrightarrow> armed (ts_provider (cs_requestTimer (StopAllTimers c))) = [] \<and>
     armed (ts_provider (cs_prepareTimer (StopAllTimers c))) = []"
  by (simp add: client_inv_def StopAllTimers_def timer_StopAny_def timer_stopAny_disarms)

end
