(* ===== verification/RequestList.thy ===== *)
theory RequestList
  imports Messages
begin

text \<open>
  Package \<open>core/internal/requestlist\<close>: a set of requests with at most one request per client,
  a Go map from client IDs to requests. The map is an association list with distinct keys. Go
  iterates over a map in an unspecified order, so \<open>All\<close> takes the order of the iteration as a
  parameter: a function that permutes its argument.
\<close>

section \<open>State and operations\<close>

type_synonym request_list = "(u32 \<times> request) list"

definition new_list :: request_list where
  "new_list = []"

definition Add :: "request \<Rightarrow> request_list \<Rightarrow> request_list" where
  "Add req l = AList.update (req_ClientID req) req l"

definition Remove :: "request \<Rightarrow> request_list \<Rightarrow> request_list" where
  "Remove req l =
     (case map_of l (req_ClientID req) of
        None \<Rightarrow> l
      | Some lastReq \<Rightarrow>
          if req_Sequence lastReq \<noteq> req_Sequence req then l
          else AList.delete (req_ClientID req) l)"

definition All :: "(request list \<Rightarrow> request list) \<Rightarrow> request_list \<Rightarrow> request list" where
  "All ord l = ord (map snd l)"

definition list_inv :: "request_list \<Rightarrow> bool" where
  "list_inv l \<longleftrightarrow> distinct (map fst l) \<and> (\<forall>c r. map_of l c = Some r \<longrightarrow> req_ClientID r = c)"

definition iter_order :: "(request list \<Rightarrow> request list) \<Rightarrow> bool" where
  "iter_order ord \<longleftrightarrow> (\<forall>xs. distinct xs \<longrightarrow> set (ord xs) = set xs \<and> distinct (ord xs))"

section \<open>The contract of the \<open>List\<close> interface\<close>

locale request_set =
  fixes empty :: 'l
    and add :: "request \<Rightarrow> 'l \<Rightarrow> 'l"
    and remove :: "request \<Rightarrow> 'l \<Rightarrow> 'l"
    and all :: "(request list \<Rightarrow> request list) \<Rightarrow> 'l \<Rightarrow> request list"
    and find :: "'l \<Rightarrow> u32 \<Rightarrow> request option"
    and invar :: "'l \<Rightarrow> bool"
  assumes invar_empty: "invar empty"
    and invar_add: "invar l \<Longrightarrow> invar (add r l)"
    and invar_remove: "invar l \<Longrightarrow> invar (remove r l)"
    and find_empty: "find empty = Map.empty"
    and find_add: "invar l \<Longrightarrow> find (add r l) = (find l)(req_ClientID r \<mapsto> r)"
    and find_remove: "invar l \<Longrightarrow> find (remove r l) =
      (if \<exists>q. find l (req_ClientID r) = Some q \<and> req_Sequence q = req_Sequence r
       then (find l)(req_ClientID r := None) else find l)"
    and set_all: "invar l \<Longrightarrow> iter_order ord \<Longrightarrow> set (all ord l) = ran (find l)"
    and distinct_all: "invar l \<Longrightarrow> iter_order ord \<Longrightarrow> distinct (map req_ClientID (all ord l))"
    and find_client: "invar l \<Longrightarrow> find l c = Some r \<Longrightarrow> req_ClientID r = c"
begin

lemma add_remove_gone: "invar l \<Longrightarrow> find (remove r (add r l)) (req_ClientID r) = None"
  by (simp add: invar_add find_add find_remove)

lemma remove_stale: "invar l \<Longrightarrow> find l (req_ClientID r) = Some q \<Longrightarrow>
    req_Sequence q \<noteq> req_Sequence r \<Longrightarrow> find (remove r l) = find l"
  by (simp add: find_remove)

text \<open>Moving every request of one list into another: the loop of the request un-preparer.\<close>

lemma move_all:
  assumes "invar a" and "invar b" and "distinct (map req_ClientID rs)"
    and "\<And>r. r \<in> set rs \<Longrightarrow> find b (req_ClientID r) = Some r"
  defines "a' \<equiv> fold add rs a" and "b' \<equiv> fold remove rs b"
  shows "invar a' \<and> invar b' \<and>
    find a' = (\<lambda>c. case find b c of Some r \<Rightarrow> if r \<in> set rs then Some r else find a c | None \<Rightarrow> find a c) \<and>
    find b' = (\<lambda>c. case find b c of Some r \<Rightarrow> if r \<in> set rs then None else Some r | None \<Rightarrow> None)"
  using assms(1-4) unfolding a'_def b'_def
proof (induction rs arbitrary: a b)
  case Nil
  then show ?case by (auto simp: fun_eq_iff split: option.splits)
next
  case (Cons r rs)
  have hd: "find b (req_ClientID r) = Some r" and ne: "\<And>q. q \<in> set rs \<Longrightarrow> req_ClientID q \<noteq> req_ClientID r"
    using Cons.prems by (auto simp: image_iff)
  have fb: "find (remove r b) = (find b)(req_ClientID r := None)"
    using hd Cons.prems by (simp add: find_remove)
  have "invar (add r a)" "invar (remove r b)" using Cons.prems by (simp_all add: invar_add invar_remove)
  moreover have "\<And>q. q \<in> set rs \<Longrightarrow> find (remove r b) (req_ClientID q) = Some q"
    using Cons.prems ne by (auto simp: fb)
  ultimately have IH: "invar (fold add rs (add r a)) \<and> invar (fold remove rs (remove r b)) \<and>
    find (fold add rs (add r a)) = (\<lambda>c. case find (remove r b) c of
      Some q \<Rightarrow> if q \<in> set rs then Some q else find (add r a) c | None \<Rightarrow> find (add r a) c) \<and>
    find (fold remove rs (remove r b)) = (\<lambda>c. case find (remove r b) c of
      Some q \<Rightarrow> if q \<in> set rs then None else Some q | None \<Rightarrow> None)"
    using Cons.prems(3) by (intro Cons.IH) auto
  have nr: "q \<noteq> r" if "find b c = Some q" and "c \<noteq> req_ClientID r" for c q
    using find_client [OF Cons.prems(2) that(1)] that(2) by auto
  show ?case
    using IH hd ne Cons.prems(1) nr
    by (auto simp: fb find_add fun_eq_iff split: option.splits if_splits)
qed

end

section \<open>The model provides the contract\<close>

lemma list_inv_new [simp]: "list_inv new_list"
  by (simp add: list_inv_def new_list_def)

lemma list_inv_Add: "list_inv l \<Longrightarrow> list_inv (Add r l)"
  by (simp add: list_inv_def Add_def distinct_update)

lemma list_inv_Remove: "list_inv l \<Longrightarrow> list_inv (Remove r l)"
  by (auto simp: list_inv_def Remove_def distinct_delete simp del: map_of_eq_Some_iff
      split: option.splits if_splits)

lemma list_inv_client: "list_inv l \<Longrightarrow> map_of l c = Some r \<Longrightarrow> req_ClientID r = c"
  by (simp add: list_inv_def)

lemma list_inv_clients: "list_inv l \<Longrightarrow> map req_ClientID (map snd l) = map fst l"
  by (auto simp: list_inv_def)

lemma list_inv_distinct: "list_inv l \<Longrightarrow> distinct (map snd l)"
  using list_inv_clients [of l] by (metis distinct_map list_inv_def)

lemma set_All: "list_inv l \<Longrightarrow> iter_order ord \<Longrightarrow> set (All ord l) = ran (map_of l)"
  using list_inv_distinct [of l]
  by (auto simp: iter_order_def All_def list_inv_def ran_distinct)

lemma distinct_All: "list_inv l \<Longrightarrow> iter_order ord \<Longrightarrow> distinct (map req_ClientID (All ord l))"
proof -
  assume l: "list_inv l" and ord: "iter_order ord"
  have "inj_on req_ClientID (set (map snd l))"
    using l list_inv_clients [OF l] by (metis distinct_map list_inv_def)
  then show ?thesis
    using ord list_inv_distinct [OF l] by (auto simp: iter_order_def All_def distinct_map)
qed

interpretation rl: request_set new_list Add Remove All map_of list_inv
proof unfold_locales
  show "map_of new_list = Map.empty" by (simp add: new_list_def)
next
  fix l r assume "list_inv l"
  show "map_of (Remove r l) =
      (if \<exists>q. map_of l (req_ClientID r) = Some q \<and> req_Sequence q = req_Sequence r
       then (map_of l)(req_ClientID r := None) else map_of l)"
    by (simp add: Remove_def split: option.splits)
next
  fix l r assume "list_inv l"
  show "map_of (Add r l) = (map_of l)(req_ClientID r \<mapsto> r)" by (simp add: Add_def)
qed (simp_all add: list_inv_Add list_inv_Remove set_All distinct_All list_inv_client)

end
