(* ===== verification/MessageLog.thy ===== *)
theory MessageLog
  imports Messages
begin

text \<open>
  Package \<open>core/internal/messagelog\<close>: an ordered storage of messages with independent streams.
  The channel that \<open>Reset\<close> closes and recreates is represented by its generation number: a
  stream that holds an older generation sees its channel closed. The channel that \<open>Append\<close>
  closes and recreates tells a waiting stream that the log has grown past the position it has
  read up to.
\<close>

section \<open>The log\<close>

record log_state =
  msgs :: "message list"
  resets :: nat

definition new_log :: log_state where
  "new_log = \<lparr>msgs = [], resets = 0\<rparr>"

definition Append :: "message \<Rightarrow> log_state \<Rightarrow> log_state" where
  "Append m l = l\<lparr>msgs := msgs l @ [m]\<rparr>"

definition Messages :: "log_state \<Rightarrow> message list" where
  "Messages l = msgs l"

definition Reset :: "message list \<Rightarrow> log_state \<Rightarrow> log_state" where
  "Reset ms l = l\<lparr>msgs := ms, resets := Suc (resets l)\<rparr>"

locale message_store =
  fixes fresh :: 'l
    and append :: "message \<Rightarrow> 'l \<Rightarrow> 'l"
    and contents :: "'l \<Rightarrow> message list"
    and reset :: "message list \<Rightarrow> 'l \<Rightarrow> 'l"
  assumes contents_fresh: "contents fresh = []"
    and contents_append: "contents (append m l) = contents l @ [m]"
    and contents_reset: "contents (reset ms l) = ms"
begin

lemma contents_appends: "contents (fold append ms l) = contents l @ ms"
  by (induction ms arbitrary: l) (simp_all add: contents_append)

lemma contents_reset_appends: "contents (fold append ms (reset [] l)) = ms"
  by (simp add: contents_appends contents_reset)

end

interpretation ml: message_store new_log Append Messages Reset
  by unfold_locales (simp_all add: new_log_def Append_def Messages_def Reset_def)

section \<open>A stream over the log\<close>

text \<open>
  The loop of \<open>supplyMessages\<close>. \<open>st_gen\<close> is the reset channel the stream holds, \<open>st_next\<close> its
  position, \<open>st_buf\<close> the messages it has fetched but not yet sent. \<open>AtTop\<close> is the start of an
  iteration, \<open>Sending\<close> the inner loop followed by the wait, and \<open>Closed\<close> the return after
  \<open>done\<close>. \<open>fetch\<close> is the section under the read lock; slicing the log beyond its length would
  panic.
\<close>

datatype stream_pc = AtTop | Sending | Closed

record stream =
  st_pc :: stream_pc
  st_gen :: nat
  st_next :: nat
  st_buf :: "message list"

definition open_stream :: "log_state \<Rightarrow> stream" where
  "open_stream l = \<lparr>st_pc = AtTop, st_gen = resets l, st_next = 0, st_buf = []\<rparr>"

definition fetch :: "log_state \<Rightarrow> stream \<Rightarrow> stream result" where
  "fetch l st =
     (let nxt = (if st_gen st \<noteq> resets l then 0 else st_next st)
      in if length (msgs l) < nxt then Inl (Panic ''slice bounds out of range'')
         else Inr \<lparr>st_pc = Sending, st_gen = resets l, st_next = length (msgs l),
                   st_buf = drop nxt (msgs l)\<rparr>)"

text \<open>An iteration of the loop up to the next message to send, as far as the log allows it now.\<close>

definition advance :: "log_state \<Rightarrow> stream \<Rightarrow> stream result" where
  "advance l st =
     (case st_pc st of
        AtTop \<Rightarrow> fetch l st
      | Sending \<Rightarrow>
          Inr (if st_gen st \<noteq> resets l \<or> st_buf st = [] \<and> length (msgs l) \<noteq> st_next st
               then st\<lparr>st_pc := AtTop\<rparr> else st)
      | Closed \<Rightarrow> Inr st)"

text \<open>
  A system of one log and one stream. \<open>sl_hist\<close> records what every generation of the log
  contained last, and \<open>sl_out\<close> what the stream has sent since it adopted its generation.
\<close>

record stream_sys =
  sl_log :: log_state
  sl_stream :: stream
  sl_out :: "message list"
  sl_hist :: "nat \<Rightarrow> message list"

inductive stream_step :: "stream_sys \<Rightarrow> stream_sys \<Rightarrow> bool" where
  append: "stream_step y (y\<lparr>sl_log := Append m (sl_log y),
      sl_hist := (sl_hist y)(resets (sl_log y) := msgs (sl_log y) @ [m])\<rparr>)"
| reset: "stream_step y (y\<lparr>sl_log := Reset ms (sl_log y),
      sl_hist := (sl_hist y)(Suc (resets (sl_log y)) := ms)\<rparr>)"
| fetch: "st_pc (sl_stream y) = AtTop \<Longrightarrow> fetch (sl_log y) (sl_stream y) = Inr st' \<Longrightarrow>
    stream_step y (y\<lparr>sl_stream := st',
      sl_out := (if st_gen (sl_stream y) \<noteq> resets (sl_log y) then [] else sl_out y)\<rparr>)"
| send: "st_pc (sl_stream y) = Sending \<Longrightarrow> st_buf (sl_stream y) = m # rest \<Longrightarrow>
    stream_step y (y\<lparr>sl_stream := (sl_stream y)\<lparr>st_buf := rest\<rparr>, sl_out := sl_out y @ [m]\<rparr>)"
| restart: "st_pc (sl_stream y) = Sending \<Longrightarrow> st_gen (sl_stream y) \<noteq> resets (sl_log y) \<Longrightarrow>
    stream_step y (y\<lparr>sl_stream := (sl_stream y)\<lparr>st_pc := AtTop\<rparr>\<rparr>)"
| wake: "st_pc (sl_stream y) = Sending \<Longrightarrow> st_buf (sl_stream y) = [] \<Longrightarrow>
    length (msgs (sl_log y)) \<noteq> st_next (sl_stream y) \<Longrightarrow>
    stream_step y (y\<lparr>sl_stream := (sl_stream y)\<lparr>st_pc := AtTop\<rparr>\<rparr>)"
| finish: "st_pc (sl_stream y) = Sending \<Longrightarrow>
    stream_step y (y\<lparr>sl_stream := (sl_stream y)\<lparr>st_pc := Closed\<rparr>\<rparr>)"

definition stream_start :: "log_state \<Rightarrow> stream_sys" where
  "stream_start l = \<lparr>sl_log = l, sl_stream = open_stream l, sl_out = [],
     sl_hist = (\<lambda>_. [])(resets l := msgs l)\<rparr>"

inductive stream_reach :: "log_state \<Rightarrow> stream_sys \<Rightarrow> bool" for l where
  stream_init: "stream_reach l (stream_start l)"
| stream_more: "stream_reach l y \<Longrightarrow> stream_step y y' \<Longrightarrow> stream_reach l y'"

text \<open>
  The messages sent so far followed by the fetched ones are the first \<open>st_next\<close> messages of the
  stream's generation, and a stream whose generation was reset has nothing fetched beyond it.
\<close>

definition stream_inv :: "stream_sys \<Rightarrow> bool" where
  "stream_inv y \<longleftrightarrow>
     (let st = sl_stream y; l = sl_log y in
        sl_hist y (resets l) = msgs l \<and> st_gen st \<le> resets l \<and>
        st_next st \<le> length (sl_hist y (st_gen st)) \<and>
        (st_pc st = AtTop \<and> st_gen st = resets l \<longrightarrow> st_buf st = []) \<and>
        sl_out y @ st_buf st = take (st_next st) (sl_hist y (st_gen st)))"

lemma stream_inv_start: "stream_inv (stream_start l)"
  by (simp add: stream_inv_def stream_start_def open_stream_def)

lemma stream_step_inv: "stream_step y y' \<Longrightarrow> stream_inv y \<Longrightarrow> stream_inv y'"
  by (induction rule: stream_step.induct)
    (auto simp: stream_inv_def fetch_def Append_def Reset_def Let_def split: if_splits)

lemma stream_reach_inv: "stream_reach l y \<Longrightarrow> stream_inv y"
  by (induction rule: stream_reach.induct) (blast intro: stream_inv_start stream_step_inv)+

lemma fetch_in_bounds: "stream_inv y \<Longrightarrow> \<exists>st'. fetch (sl_log y) (sl_stream y) = Inr st'"
  by (auto simp: stream_inv_def fetch_def Let_def)

lemma stream_caught_up:
  "stream_inv y \<Longrightarrow> st_gen (sl_stream y) = resets (sl_log y) \<Longrightarrow> st_buf (sl_stream y) = [] \<Longrightarrow>
   st_next (sl_stream y) = length (msgs (sl_log y)) \<Longrightarrow> sl_out y = Messages (sl_log y)"
  by (simp add: stream_inv_def Let_def Messages_def)

text \<open>
  A stream of the message log sends, of the contents of the log since the last reset that the
  stream has noticed, a prefix: no message is lost, duplicated or reordered. A stream that has
  nothing to do has sent the whole log, and taking the next messages never fails.
\<close>

lemma stream_complete:
  assumes "stream_reach l y"
  defines "st \<equiv> sl_stream y"
  shows "(\<exists>rest. sl_hist y (st_gen st) = sl_out y @ rest) \<and>
    (st_gen st = resets (sl_log y) \<longrightarrow> sl_hist y (st_gen st) = Messages (sl_log y)) \<and>
    (\<exists>st'. fetch (sl_log y) st = Inr st') \<and>
    (st_pc st = Sending \<longrightarrow> sl_out y = Messages (sl_log y) \<or>
       (\<exists>y'. stream_step y y' \<and> (sl_out y' \<noteq> sl_out y \<or> st_pc (sl_stream y') = AtTop)))"
proof -
  have inv: "stream_inv y" by (rule stream_reach_inv [OF assms(1)])
  let ?h = "sl_hist y (st_gen st)"
  have "sl_out y @ st_buf st = take (st_next st) ?h" using inv by (simp add: stream_inv_def Let_def st_def)
  then have "?h = sl_out y @ (st_buf st @ drop (st_next st) ?h)" by (metis append.assoc append_take_drop_id)
  moreover have "st_gen st = resets (sl_log y) \<longrightarrow> ?h = Messages (sl_log y)"
    using inv by (simp add: stream_inv_def Let_def st_def Messages_def)
  moreover have "\<exists>y'. stream_step y y' \<and> (sl_out y' \<noteq> sl_out y \<or> st_pc (sl_stream y') = AtTop)"
    if pc: "st_pc st = Sending" and n: "sl_out y \<noteq> Messages (sl_log y)"
  proof (cases "st_gen st = resets (sl_log y) \<and> st_buf st = []")
    case True
    with stream_caught_up [OF inv] n have "length (msgs (sl_log y)) \<noteq> st_next (sl_stream y)" by (auto simp: st_def)
    with stream_step.wake [of y] pc True show ?thesis by (fastforce simp: st_def)
  next
    case False
    then consider "st_gen st \<noteq> resets (sl_log y)" | m rest where "st_buf st = m # rest" by (cases "st_buf st") auto
    then show ?thesis
    proof cases
      case 1
      with stream_step.restart [of y] pc show ?thesis by (fastforce simp: st_def)
    next
      case 2
      with stream_step.send [of y m rest] pc show ?thesis by (fastforce simp: st_def)
    qed
  qed
  ultimately show ?thesis using fetch_in_bounds [OF inv] unfolding st_def by blast
qed

end
