(* ===== verification/Commitments.thy ===== *)
theory Commitments
  imports Messages
begin

text \<open>
  \<open>core/commit.go\<close>: the acceptor that checks commitments for consistency and the counter that
  tells when a proposal has gathered its commit certificate. Go maps with a zero default are
  total functions. The counter keeps, instead of one tally per proposal, the vector \<open>highest\<close>;
  the second half of the theory relates it to the tally it stands for.
\<close>

section \<open>Acceptor\<close>

record acceptor =
  replicaViews :: "u32 \<Rightarrow> u64"
  lastPrimaryCVs :: "u32 \<Rightarrow> u64"
  lastReplicaCVs :: "u32 \<Rightarrow> u64"

definition new_acceptor :: acceptor where
  "new_acceptor = \<lparr>replicaViews = (\<lambda>_. 0), lastPrimaryCVs = (\<lambda>_. 0), lastReplicaCVs = (\<lambda>_. 0)\<rparr>"

definition acceptCommitment :: "u32 \<Rightarrow> bool \<Rightarrow> u64 \<Rightarrow> u64 \<Rightarrow> u64 \<Rightarrow> (acceptor, unit) handler" where
  "acceptCommitment replicaID newView view primaryCV replicaCV a =
     (let record_cvs = (\<lambda>a. a\<lparr>lastPrimaryCVs := (lastPrimaryCVs a)(replicaID := primaryCV),
                             lastReplicaCVs := (lastReplicaCVs a)(replicaID := replicaCV)\<rparr>)
      in if newView then
           if view \<le> replicaViews a replicaID then (a, Inl (Error ''unexpected view number''))
           else (record_cvs (a\<lparr>replicaViews := (replicaViews a)(replicaID := view)\<rparr>), Inr ())
         else if view \<noteq> replicaViews a replicaID then (a, Inl (Error ''unexpected view number''))
         else if primaryCV \<noteq> lastPrimaryCVs a replicaID + 1 then (a, Inl (Error ''non-sequential primary UI''))
         else if replicaCV \<noteq> lastReplicaCVs a replicaID + 1 then (a, Inl (Error ''non-sequential replica UI''))
         else (record_cvs a, Inr ()))"

section \<open>Counter\<close>

record counter =
  lastView :: u64
  highest :: "u64 list"

definition new_counter :: "u32 \<Rightarrow> counter" where
  "new_counter commitCertSize = \<lparr>lastView = 0, highest = replicate (unat (commitCertSize - 1)) 0\<rparr>"

text \<open>The loop over \<open>highest\<close>: raise the first entry below \<open>cv\<close>, or \<open>None\<close> if there is none.\<close>

fun raise_first :: "u64 \<Rightarrow> u64 list \<Rightarrow> u64 list option" where
  "raise_first cv [] = None"
| "raise_first cv (h # hs) = (if cv > h then Some (cv # hs) else map_option ((#) h) (raise_first cv hs))"

definition countCommitment :: "u64 \<Rightarrow> u64 \<Rightarrow> counter \<Rightarrow> counter \<times> bool" where
  "countCommitment view primaryCV c =
     (if view < lastView c then (c, False)
      else
        let c1 = (if view > lastView c
                  then c\<lparr>lastView := view, highest := replicate (length (highest c)) 0\<rparr> else c)
        in case raise_first primaryCV (highest c1) of
             Some hs \<Rightarrow> (c1\<lparr>highest := hs\<rparr>, False)
           | None \<Rightarrow> (c1, True))"

section \<open>The decision of the collector\<close>

text \<open>
  The section of \<open>makeCommitmentCollector\<close> under its lock up to the decision: accept the
  commitment, then count it. What is executed on a positive answer is modelled with the replica.
\<close>

record commitments =
  cm_acceptor :: acceptor
  cm_counter :: counter

definition new_commitments :: "u32 \<Rightarrow> commitments" where
  "new_commitments commitCertSize =
     \<lparr>cm_acceptor = new_acceptor, cm_counter = new_counter commitCertSize\<rparr>"

definition commitment_done :: "u32 \<Rightarrow> bool \<Rightarrow> u64 \<Rightarrow> u64 \<Rightarrow> u64 \<Rightarrow> (commitments, bool) handler" where
  "commitment_done replicaID newView view primaryCV replicaCV s =
     (case acceptCommitment replicaID newView view primaryCV replicaCV (cm_acceptor s) of
        (a, Inl e) \<Rightarrow> (s\<lparr>cm_acceptor := a\<rparr>, Inl e)
      | (a, Inr _) \<Rightarrow>
          (case countCommitment view primaryCV (cm_counter s) of
             (c, done) \<Rightarrow> (s\<lparr>cm_acceptor := a, cm_counter := c\<rparr>, Inr done)))"

section \<open>What the vector \<open>highest\<close> counts\<close>

definition at_least :: "u64 \<Rightarrow> u64 list \<Rightarrow> nat" where
  "at_least x hs = length (filter (\<lambda>h. x \<le> h) hs)"

lemma at_least_simps [simp]:
  "at_least x [] = 0" "at_least x (h # hs) = (if x \<le> h then 1 else 0) + at_least x hs"
  by (simp_all add: at_least_def)

lemma at_least_le: "at_least x hs \<le> length hs"
  by (simp add: at_least_def)

lemma at_least_zeros [simp]: "0 < x \<Longrightarrow> at_least x (replicate k 0) = 0"
  by (induction k) (simp_all add: not_le)

lemma sorted_zeros [simp]: "sorted_wrt (\<ge>) (replicate k (0 :: u64))"
  by (induction k) simp_all

lemma raise_first_None: "raise_first cv hs = None \<longleftrightarrow> at_least cv hs = length hs"
proof (induction hs)
  case (Cons h hs)
  then show ?case using at_least_le [of cv hs] by (auto simp: not_le)
qed simp

lemma raise_first_length: "raise_first cv hs = Some hs' \<Longrightarrow> length hs' = length hs"
  by (induction hs arbitrary: hs') (auto split: if_splits)

lemma raise_first_set: "raise_first cv hs = Some hs' \<Longrightarrow> set hs' \<subseteq> insert cv (set hs)"
  by (induction hs arbitrary: hs') (auto split: if_splits)

lemma raise_first_sorted:
  "raise_first cv hs = Some hs' \<Longrightarrow> sorted_wrt (\<ge>) hs \<Longrightarrow> sorted_wrt (\<ge>) hs'"
proof (induction hs arbitrary: hs')
  case (Cons h hs)
  show ?case
  proof (cases "cv > h")
    case True
    with Cons.prems show ?thesis by fastforce
  next
    case False
    then obtain hs1 where "raise_first cv hs = Some hs1" and "hs' = h # hs1"
      using Cons.prems by auto
    with False Cons raise_first_set [of cv hs hs1] show ?thesis by (auto simp: not_less)
  qed
qed simp

text \<open>
  Raising an entry of a descending vector adds one to the tally of \<open>x\<close> at most, and only for
  thresholds \<open>x \<le> cv\<close> such that no entry lies between \<open>x\<close> and \<open>cv\<close>.
\<close>

lemma raise_first_at_least:
  assumes "raise_first cv hs = Some hs'" and "sorted_wrt (\<ge>) hs"
  shows "at_least x hs' = at_least x hs \<or>
    (x \<le> cv \<and> at_least x hs' = Suc (at_least x hs) \<and> at_least x hs = at_least cv hs)"
  using assms
proof (induction hs arbitrary: hs')
  case Nil
  then show ?case by simp
next
  case (Cons h hs)
  show ?case
  proof (cases "cv > h")
    case True
    then have hs': "hs' = cv # hs" using Cons.prems by simp
    have "at_least cv hs = 0" using True Cons.prems(2)
      by (auto simp: at_least_def filter_empty_conv)
    moreover have "at_least x hs = 0" if "\<not> x \<le> h"
      using that Cons.prems(2) by (auto simp: at_least_def filter_empty_conv)
    ultimately show ?thesis using True hs' by (auto simp: not_le)
  next
    case False
    then obtain hs1 where hs1: "raise_first cv hs = Some hs1" and hs': "hs' = h # hs1"
      using Cons.prems by auto
    from Cons.IH [OF hs1] Cons.prems(2) False hs' show ?thesis by auto
  qed
qed

section \<open>Soundness of the decision\<close>

text \<open>The replicas whose last accepted commitment is in view \<open>v\<close> with primary counter at least \<open>x\<close>.\<close>

definition supporters :: "acceptor \<Rightarrow> u64 \<Rightarrow> u64 \<Rightarrow> u32 set" where
  "supporters a v x = {r. replicaViews a r = v \<and> x \<le> lastPrimaryCVs a r}"

definition cm_inv :: "commitments \<Rightarrow> bool" where
  "cm_inv s \<longleftrightarrow>
     sorted_wrt (\<ge>) (highest (cm_counter s)) \<and>
     (\<forall>r. replicaViews (cm_acceptor s) r \<le> lastView (cm_counter s)) \<and>
     (\<forall>x > 0. at_least x (highest (cm_counter s)) \<le>
        card (supporters (cm_acceptor s) (lastView (cm_counter s)) x))"

lemma cm_inv_new: "cm_inv (new_commitments n)"
  by (simp add: cm_inv_def new_commitments_def new_counter_def new_acceptor_def)

lemma accept_cases:
  assumes "acceptCommitment r nv v cv rcv a = (a', Inr u)" and "cv \<noteq> 0"
  obtains "replicaViews a r < v" "nv" "replicaViews a' = (replicaViews a)(r := v)"
      "lastPrimaryCVs a' = (lastPrimaryCVs a)(r := cv)"
    | "replicaViews a r = v" "\<not> nv" "lastPrimaryCVs a r < cv" "cv = lastPrimaryCVs a r + 1"
      "replicaViews a' = replicaViews a" "lastPrimaryCVs a' = (lastPrimaryCVs a)(r := cv)"
  using assms word_Suc_nonzero_less [of "lastPrimaryCVs a r"]
  by (auto simp: acceptCommitment_def Let_def not_le split: if_splits)

lemma accept_supporters:
  assumes acc: "acceptCommitment r nv v cv rcv a = (a', Inr u)" and "cv \<noteq> 0"
  shows "supporters a' v x = (if x \<le> cv then insert r (supporters a v x) else supporters a v x)"
    and "r \<notin> supporters a v cv"
    and "\<And>w. v < w \<Longrightarrow> supporters a' w x = supporters a w x"
proof -
  show "supporters a' v x = (if x \<le> cv then insert r (supporters a v x) else supporters a v x)"
    using acc \<open>cv \<noteq> 0\<close> by (cases rule: accept_cases) (auto simp: supporters_def)
  show "r \<notin> supporters a v cv"
    using acc \<open>cv \<noteq> 0\<close> by (cases rule: accept_cases) (auto simp: supporters_def)
  show "supporters a' w x = supporters a w x" if "v < w" for w
    using acc \<open>cv \<noteq> 0\<close> that by (cases rule: accept_cases) (auto simp: supporters_def)
qed

lemma count_cases:
  assumes "countCommitment v cv c = (c', d)"
  obtains "v < lastView c" "c' = c" "\<not> d"
    | hs where "lastView c \<le> v" "hs = (if lastView c < v then replicate (length (highest c)) 0 else highest c)"
      "lastView c' = v" "raise_first cv hs = None" "highest c' = hs" "d"
    | hs hs' where "lastView c \<le> v" "hs = (if lastView c < v then replicate (length (highest c)) 0 else highest c)"
      "lastView c' = v" "raise_first cv hs = Some hs'" "highest c' = hs'" "\<not> d"
  using assms unfolding countCommitment_def
  by (cases "v < lastView c"; cases "lastView c < v") (auto simp: Let_def split: option.splits)

lemma count_length: "countCommitment v cv c = (c', d) \<Longrightarrow> length (highest c') = length (highest c)"
  by (erule count_cases) (auto dest: raise_first_length split: if_splits)

text \<open>
  One accepted commitment: the invariant is kept, and a positive answer means that a full
  certificate of replicas supports the primary counter.
\<close>

lemma accepted_commitment:
  assumes inv: "cm_inv s" and cv: "cv \<noteq> 0"
    and ok: "commitment_done r nv v cv rcv s = (s', Inr d)"
  shows "cm_inv s'"
    and "d \<Longrightarrow> v = lastView (cm_counter s') \<and>
      length (highest (cm_counter s)) < card (supporters (cm_acceptor s') v cv)"
proof -
  obtain a' u c' where acc: "acceptCommitment r nv v cv rcv (cm_acceptor s) = (a', Inr u)"
    and cnt: "countCommitment v cv (cm_counter s) = (c', d)"
    and s': "cm_acceptor s' = a'" "cm_counter s' = c'"
    using ok by (auto simp: commitment_done_def split: prod.splits sum.splits)
  let ?a = "cm_acceptor s" and ?c = "cm_counter s"
  note sup = accept_supporters [OF acc cv]
  have views: "replicaViews a' q \<le> max v (lastView ?c)" for q
    using inv acc cv by (cases rule: accept_cases [OF acc cv])
      (auto simp: cm_inv_def max_def le_less_trans intro: order_trans less_imp_le)
  have new: "supporters ?a v x = {}" if "lastView ?c < v" for x
    using inv that by (auto simp: cm_inv_def supporters_def not_less [symmetric])
  have tally: "at_least x hs \<le> card (supporters ?a v x)" if "0 < x" "lastView ?c \<le> v"
      "hs = (if lastView ?c < v then replicate (length (highest ?c)) 0 else highest ?c)" for x hs
    using inv that by (cases "lastView ?c < v") (auto simp: cm_inv_def)
  have sorted: "sorted_wrt (\<ge>) hs"
    if "hs = (if lastView ?c < v then replicate (length (highest ?c)) 0 else highest ?c)" for hs
    using inv that by (auto simp: cm_inv_def)
  have more: "card (supporters a' v x) = Suc (card (supporters ?a v x))" if "x = cv" for x
    using sup that by simp
  have mono: "card (supporters ?a v x) \<le> card (supporters a' v x)" for x
    by (rule card_mono) (auto simp: sup)
  from cnt show "cm_inv s'"
  proof (cases rule: count_cases)
    case 1
    then have "max v (lastView ?c) = lastView ?c" by (simp add: max_absorb2)
    then show ?thesis using 1 inv sup(3) views s' by (auto simp: cm_inv_def)
  next
    case (2 hs)
    then have "max v (lastView ?c) = v" by (simp add: max_absorb1)
    moreover have "at_least x hs \<le> card (supporters a' v x)" if "0 < x" for x
      using that 2 tally [of x hs] mono [of x] by simp
    ultimately show ?thesis
      using 2 sorted [of hs] views s' by (simp add: cm_inv_def)
  next
    case (3 hs hs')
    have "at_least x hs' \<le> card (supporters a' v x)" if "0 < x" for x
    proof -
      have "card (supporters ?a v cv) < card (supporters a' v x)" if "x \<le> cv"
      proof -
        have "supporters ?a v cv \<subseteq> supporters ?a v x"
          using that by (auto simp: supporters_def)
        then have "insert r (supporters ?a v cv) \<subseteq> supporters a' v x"
          using that by (auto simp: sup(1))
        from card_mono [OF finite this] sup(2) show ?thesis by simp
      qed
      moreover have "at_least x hs' = at_least x hs \<or>
          (x \<le> cv \<and> at_least x hs' = Suc (at_least x hs) \<and> at_least x hs = at_least cv hs)"
        using raise_first_at_least 3 sorted by blast
      ultimately show ?thesis
        using tally [of x hs] tally [of cv hs] mono [of x] that 3 cv by (auto simp: word_neq_0_conv)
    qed
    moreover have "sorted_wrt (\<ge>) hs'" using 3 sorted raise_first_sorted by blast
    moreover have "max v (lastView ?c) = v" using 3 by (simp add: max_absorb1)
    ultimately show ?thesis using 3 views s' by (simp add: cm_inv_def)
  qed
  from cnt show "v = lastView (cm_counter s') \<and>
      length (highest (cm_counter s)) < card (supporters (cm_acceptor s') v cv)" if "d"
  proof (cases rule: count_cases)
    case (2 hs)
    then have "at_least cv hs = length (highest ?c)" by (auto simp: raise_first_None split: if_splits)
    then show ?thesis using tally [of cv hs] 2 cv more s' by (auto simp: word_neq_0_conv)
  qed (use that in auto)
qed

section \<open>Histories of accepted commitments\<close>

text \<open>
  A history is the list of the commitments the collector has accepted, oldest first, as tuples of
  replica, new-view flag, view, primary counter and replica counter. UI counters are never zero:
  \<open>makeUIVerifier\<close> rejects a zero counter.
\<close>

type_synonym commitment = "u32 \<times> bool \<times> u64 \<times> u64 \<times> u64"

inductive commit_trace :: "u32 \<Rightarrow> commitment list \<Rightarrow> commitments \<Rightarrow> bool" for sz where
  trace_start: "commit_trace sz [] (new_commitments sz)"
| trace_accept: "commit_trace sz h s \<Longrightarrow> cv \<noteq> 0 \<Longrightarrow>
    commitment_done r nv v cv rcv s = (s', Inr d) \<Longrightarrow> commit_trace sz (h @ [(r, nv, v, cv, rcv)]) s'"
| trace_reject: "commit_trace sz h s \<Longrightarrow>
    commitment_done r nv v cv rcv s = (s', Inl e) \<Longrightarrow> commit_trace sz h s'"

definition committed_to :: "commitment list \<Rightarrow> u64 \<Rightarrow> u64 \<Rightarrow> u32 set" where
  "committed_to h v cv = {r. \<exists>nv rcv. (r, nv, v, cv, rcv) \<in> set h}"

text \<open>All accepted commitments to a NewView of view \<open>v\<close> name the same NewView.\<close>

definition one_new_view :: "commitment list \<Rightarrow> u64 \<Rightarrow> bool" where
  "one_new_view h v \<longleftrightarrow>
     (\<forall>r cv rcv q cv' rcv'. (r, True, v, cv, rcv) \<in> set h \<longrightarrow> (q, True, v, cv', rcv') \<in> set h \<longrightarrow> cv = cv')"

text \<open>
  Every replica's last position is backed by the history: from its first commitment in the view
  (counter 1 in view 0, the NewView afterwards) it committed to every counter in turn.
\<close>

definition backed_at :: "commitment list \<Rightarrow> u32 \<Rightarrow> u64 \<Rightarrow> u64 \<Rightarrow> bool" where
  "backed_at h q v l \<longleftrightarrow>
     (if v = 0 then (\<forall>x. 0 < x \<and> x \<le> l \<longrightarrow> q \<in> committed_to h v x)
      else (\<exists>b rcv. (q, True, v, b, rcv) \<in> set h \<and> b \<le> l \<and>
              (\<forall>x. b \<le> x \<and> x \<le> l \<longrightarrow> q \<in> committed_to h v x)))"

definition backed :: "commitment list \<Rightarrow> acceptor \<Rightarrow> bool" where
  "backed h a \<longleftrightarrow> (\<forall>q. backed_at h q (replicaViews a q) (lastPrimaryCVs a q))"

lemma committed_to_snoc:
  "committed_to (h @ [(r, nv, v, cv, rcv)]) w x =
     (if w = v \<and> x = cv then insert r (committed_to h w x) else committed_to h w x)"
  by (auto simp: committed_to_def)

lemma commitment_done_accepts:
  "commitment_done r nv v cv rcv s = (s', Inr d) \<Longrightarrow>
     acceptCommitment r nv v cv rcv (cm_acceptor s) = (cm_acceptor s', Inr ())"
  by (auto simp: commitment_done_def split: prod.splits sum.splits)

lemma commitment_done_rejects: "commitment_done r nv v cv rcv s = (s', Inl e) \<Longrightarrow> s' = s"
  by (auto simp: commitment_done_def acceptCommitment_def Let_def split: prod.splits sum.splits if_splits)

lemma committed_to_mono: "set h \<subseteq> set h' \<Longrightarrow> committed_to h v x \<subseteq> committed_to h' v x"
  by (auto simp: committed_to_def)

lemma backed_at_mono: "backed_at h q v l \<Longrightarrow> set h \<subseteq> set h' \<Longrightarrow> backed_at h' q v l"
  using committed_to_mono [of h h' v] unfolding backed_at_def by (auto split: if_splits) blast

lemma backed_at_first: "(q, True, v, cv, rcv) \<in> set h \<Longrightarrow> v \<noteq> 0 \<Longrightarrow> backed_at h q v cv"
proof -
  assume q: "(q, True, v, cv, rcv) \<in> set h" and "v \<noteq> 0"
  then have "q \<in> committed_to h v cv" by (auto simp: committed_to_def)
  with q \<open>v \<noteq> 0\<close> show ?thesis
    unfolding backed_at_def by (auto intro: exI [of _ cv] exI [of _ rcv])
qed

lemma backed_at_next:
  assumes "backed_at h q v l" and "(q, nv, v, l + 1, rcv) \<in> set h" and "l + 1 \<noteq> 0"
  shows "backed_at h q v (l + 1)"
proof -
  have new: "q \<in> committed_to h v (l + 1)" using assms(2) by (auto simp: committed_to_def)
  have le: "x \<le> l \<or> x = l + 1" if "x \<le> l + 1" for x
    using that by (metis less_inc_imp_less_eq order_le_less)
  have lt: "l \<le> l + 1" using word_Suc_nonzero_less [OF assms(3)] by simp
  show ?thesis
  proof (cases "v = 0")
    case True
    with assms(1) new le show ?thesis unfolding backed_at_def by metis
  next
    case False
    with assms(1) obtain b rcv' where b: "(q, True, v, b, rcv') \<in> set h" "b \<le> l"
      "\<And>x. b \<le> x \<Longrightarrow> x \<le> l \<Longrightarrow> q \<in> committed_to h v x"
      unfolding backed_at_def by auto
    have "\<forall>x. b \<le> x \<and> x \<le> l + 1 \<longrightarrow> q \<in> committed_to h v x" using b(3) new le by blast
    with False b(1) order_trans [OF b(2) lt] show ?thesis unfolding backed_at_def by auto
  qed
qed

lemma trace_backed: "commit_trace sz h s \<Longrightarrow> cm_inv s \<and> backed h (cm_acceptor s)"
proof (induction rule: commit_trace.induct)
  case trace_start
  have "backed_at [] q 0 0" for q by (simp add: backed_at_def)
  then have "backed [] (cm_acceptor (new_commitments sz))"
    by (simp add: backed_def new_commitments_def new_acceptor_def)
  then show ?case using cm_inv_new by blast
next
  case (trace_accept h s cv r nv v rcv s' d)
  note acc = commitment_done_accepts [OF trace_accept.hyps(3)]
  let ?h = "h @ [(r, nv, v, cv, rcv)]"
  have old: "backed_at ?h q (replicaViews (cm_acceptor s) q) (lastPrimaryCVs (cm_acceptor s) q)" for q
    using trace_accept.IH by (auto simp: backed_def intro: backed_at_mono)
  have "backed ?h (cm_acceptor s')"
    using acc \<open>cv \<noteq> 0\<close>
  proof (cases rule: accept_cases)
    case 1
    then have "v \<noteq> 0" by auto
    then show ?thesis using 1 old backed_at_first [of r v cv rcv ?h] by (auto simp: backed_def)
  next
    case 2
    then show ?thesis using old backed_at_next [of ?h r v "lastPrimaryCVs (cm_acceptor s) r" nv rcv] \<open>cv \<noteq> 0\<close>
      by (auto simp: backed_def)
  qed
  then show ?case using accepted_commitment(1) trace_accept by blast
next
  case (trace_reject h s r nv v cv rcv s' e)
  then show ?case using commitment_done_rejects by blast
qed

lemma trace_length: "commit_trace sz h s \<Longrightarrow> length (highest (cm_counter s)) = unat (sz - 1)"
proof (induction rule: commit_trace.induct)
  case (trace_accept h s cv r nv v rcv s' d)
  then show ?case
    by (auto simp: commitment_done_def dest: count_length split: prod.splits sum.splits)
next
  case (trace_reject h s r nv v cv rcv s' e)
  then show ?case using commitment_done_rejects by blast
qed (simp add: new_commitments_def new_counter_def)

lemma supporters_committed:
  assumes "backed h a" and "one_new_view h v" and r: "r \<in> supporters a v cv" and "lastPrimaryCVs a r = cv"
    and "cv \<noteq> 0"
  shows "supporters a v cv \<subseteq> committed_to h v cv"
proof
  fix q assume q: "q \<in> supporters a v cv"
  have "backed_at h q (replicaViews a q) (lastPrimaryCVs a q)"
    "backed_at h r (replicaViews a r) (lastPrimaryCVs a r)"
    using assms(1) by (simp_all add: backed_def)
  then have at: "backed_at h q v (lastPrimaryCVs a q)" "backed_at h r v cv"
    using q r assms(4) by (simp_all add: supporters_def)
  show "q \<in> committed_to h v cv"
  proof (cases "v = 0")
    case True
    with at(1) q \<open>cv \<noteq> 0\<close> show ?thesis
      by (auto simp: backed_at_def supporters_def word_neq_0_conv)
  next
    case False
    with at obtain b rb c rc where "(q, True, v, b, rb) \<in> set h"
      and b: "\<And>x. b \<le> x \<Longrightarrow> x \<le> lastPrimaryCVs a q \<Longrightarrow> q \<in> committed_to h v x"
      and "(r, True, v, c, rc) \<in> set h" "c \<le> cv"
      unfolding backed_at_def by auto
    moreover from this have "b = c" using assms(2) unfolding one_new_view_def by blast
    ultimately show ?thesis using q by (auto simp: supporters_def)
  qed
qed

text \<open>
  The decision is sound: when the collector reports a proposal as done, a commit certificate of
  distinct replicas has committed to exactly that proposal.
\<close>

lemma done_has_certificate:
  assumes tr: "commit_trace sz h s" and cv: "cv \<noteq> 0" and sz: "sz \<noteq> 0"
    and ok: "commitment_done r nv v cv rcv s = (s', Inr True)"
    and one: "one_new_view (h @ [(r, nv, v, cv, rcv)]) v"
  shows "unat sz \<le> card (committed_to (h @ [(r, nv, v, cv, rcv)]) v cv)"
proof -
  let ?h = "h @ [(r, nv, v, cv, rcv)]"
  have inv: "cm_inv s" and bk: "backed ?h (cm_acceptor s')"
    using trace_backed [OF tr] trace_backed [OF trace_accept [OF tr cv ok]] by auto
  have "length (highest (cm_counter s)) < card (supporters (cm_acceptor s') v cv)"
    using accepted_commitment(2) [OF inv cv ok] by blast
  moreover have "r \<in> supporters (cm_acceptor s') v cv" "lastPrimaryCVs (cm_acceptor s') r = cv"
    using commitment_done_accepts [OF ok] cv
    by (auto elim!: accept_cases simp: supporters_def)
  then have "card (supporters (cm_acceptor s') v cv) \<le> card (committed_to ?h v cv)"
    using supporters_committed [OF bk one _ _ cv] by (intro card_mono) auto
  moreover have "unat sz = Suc (unat (sz - 1))"
    using sz by (simp add: unat_minus_one unat_gt_0 word_neq_0_conv)
  ultimately show ?thesis using trace_length [OF tr] by simp
qed

section \<open>Completeness of the decision\<close>

text \<open>
  As long as the commitments to NewView messages of a view agree, the vector is exact: the number
  of entries that reach \<open>x\<close> is the number of supporters of \<open>x\<close>, cut off at the length of the
  vector.
\<close>

definition exact :: "commitments \<Rightarrow> bool" where
  "exact s \<longleftrightarrow> (\<forall>x > 0. at_least x (highest (cm_counter s)) =
     min (length (highest (cm_counter s)))
       (card (supporters (cm_acceptor s) (lastView (cm_counter s)) x)))"

lemma raise_first_at_least_self:
  "raise_first cv hs = Some hs' \<Longrightarrow> at_least cv hs' = Suc (at_least cv hs)"
proof (induction hs arbitrary: hs')
  case (Cons h hs)
  show ?case
  proof (cases "cv > h")
    case True
    then have "\<not> cv \<le> h" by simp
    with True Cons.prems show ?thesis by auto
  next
    case False
    then obtain hs1 where "raise_first cv hs = Some hs1" and "hs' = h # hs1"
      using Cons.prems by auto
    with Cons.IH show ?thesis by simp
  qed
qed simp

lemma at_least_antimono: "x \<le> y \<Longrightarrow> at_least y hs \<le> at_least x hs"
proof (induction hs)
  case (Cons h hs)
  then have "y \<le> h \<Longrightarrow> x \<le> h" by simp
  with Cons show ?case by simp
qed simp

lemma exact_raise:
  fixes S S' :: "u64 \<Rightarrow> u32 set"
  assumes srt: "sorted_wrt (\<ge>) hs" and ex: "\<And>x. 0 < x \<Longrightarrow> at_least x hs = min (length hs) (card (S x))"
    and S': "\<And>x. S' x = (if x \<le> cv then insert r (S x) else S x)"
    and r: "r \<notin> S cv" and anti: "\<And>x y. x \<le> y \<Longrightarrow> S y \<subseteq> S x"
    and gap: "\<And>x. 0 < x \<Longrightarrow> x \<le> cv \<Longrightarrow> r \<notin> S x \<Longrightarrow> S x = S cv"
    and x: "0 < x" "0 < cv"
  shows "raise_first cv hs = Some hs' \<Longrightarrow> at_least x hs' = min (length hs') (card (S' x))"
    and "raise_first cv hs = None \<Longrightarrow> at_least x hs = min (length hs) (card (S' x))"
proof -
  have grow: "card (S' x) = (if x \<le> cv \<and> r \<notin> S x then Suc (card (S cv)) else card (S x))"
    using gap [of x] x by (auto simp: S' insert_absorb)
  have old: "Suc (card (S cv)) \<le> card (S x)" if "x \<le> cv" "r \<in> S x"
    using card_mono [of "S x" "insert r (S cv)"] anti [OF that(1)] that(2) r by simp
  show "at_least x hs' = min (length hs') (card (S' x))" if some: "raise_first cv hs = Some hs'"
  proof -
    note len = raise_first_length [OF some] and self = raise_first_at_least_self [OF some]
    have lt: "at_least cv hs < length hs" using self at_least_le [of cv hs'] len by simp
    with ex [OF x(2)] have cv: "at_least cv hs = card (S cv)" by simp
    note cases = raise_first_at_least [OF some srt, of x]
    show ?thesis
    proof (cases "x \<le> cv \<and> r \<notin> S x")
      case True
      then have "at_least x hs = card (S cv)" using ex [OF x(1)] gap [OF x(1)] lt cv by simp
      moreover have "Suc (at_least cv hs) \<le> at_least x hs'"
        using at_least_antimono [of x cv hs'] True self by simp
      ultimately show ?thesis using cases cv grow True lt len by auto
    next
      case False
      then have "at_least x hs' = at_least x hs" using cases ex [OF x(1)] old cv lt by auto
      then show ?thesis using ex [OF x(1)] grow False len by simp
    qed
  qed
  show "at_least x hs = min (length hs) (card (S' x))" if none: "raise_first cv hs = None"
  proof -
    have "length hs \<le> card (S cv)" using none ex [OF x(2)] by (simp add: raise_first_None)
    then show ?thesis using ex [OF x(1)] grow gap [OF x(1)] by auto
  qed
qed

lemma supporters_antimono: "x \<le> y \<Longrightarrow> supporters a v y \<subseteq> supporters a v x"
  by (auto simp: supporters_def)

lemma one_new_view_snoc: "one_new_view (h @ [e]) v \<Longrightarrow> one_new_view h v"
  unfolding one_new_view_def by auto

text \<open>No supporter of an accepted commitment's view lies strictly below it and above the committer.\<close>

lemma accept_no_gap:
  assumes acc: "acceptCommitment r nv v cv rcv a = (a', Inr u)" and cv: "cv \<noteq> 0" and bk: "backed h a"
    and one: "one_new_view (h @ [(r, nv, v, cv, rcv)]) v"
    and x: "0 < x" "x \<le> cv" "r \<notin> supporters a v x"
  shows "supporters a v x = supporters a v cv"
proof
  show "supporters a v cv \<subseteq> supporters a v x" using x(2) by (rule supporters_antimono)
  show "supporters a v x \<subseteq> supporters a v cv"
    using acc cv
  proof (cases rule: accept_cases)
    case 1
    then have v: "v \<noteq> 0" by auto
    have "cv \<le> lastPrimaryCVs a q" if q: "replicaViews a q = v" for q
    proof -
      have "backed_at h q v (lastPrimaryCVs a q)" using bk q by (auto simp: backed_def)
      then obtain b rb where "(q, True, v, b, rb) \<in> set h" and b: "b \<le> lastPrimaryCVs a q"
        using v unfolding backed_at_def by auto
      moreover have "b = cv" using one 1(2) calculation unfolding one_new_view_def by fastforce
      ultimately show ?thesis by simp
    qed
    then show ?thesis by (auto simp: supporters_def)
  next
    case 2
    then have "lastPrimaryCVs a r < x" using x(3) by (auto simp: supporters_def not_le)
    then have "cv \<le> x" using 2 cv by (simp add: word_Suc_nonzero_le)
    with x(2) show ?thesis by simp
  qed
qed

lemma exact_step:
  assumes inv: "cm_inv s" and ex: "exact s" and cv: "cv \<noteq> 0" and bk: "backed h (cm_acceptor s)"
    and ok: "commitment_done r nv v cv rcv s = (s', Inr d)"
    and one: "one_new_view (h @ [(r, nv, v, cv, rcv)]) v"
  shows "exact s'"
    and "d \<longleftrightarrow> lastView (cm_counter s) \<le> v \<and>
      length (highest (cm_counter s)) < card (supporters (cm_acceptor s') v cv)"
proof -
  obtain c' where acc: "acceptCommitment r nv v cv rcv (cm_acceptor s) = (cm_acceptor s', Inr ())"
    and cnt: "countCommitment v cv (cm_counter s) = (c', d)" and c': "cm_counter s' = c'"
    using ok by (auto simp: commitment_done_def split: prod.splits sum.splits)
  let ?S = "supporters (cm_acceptor s) v" and ?S' = "supporters (cm_acceptor s') v" and ?c = "cm_counter s"
  let ?hs = "if lastView ?c < v then replicate (length (highest ?c)) 0 else highest ?c"
  note sup = accept_supporters [OF acc cv] and gap = accept_no_gap [OF acc cv bk one]
  have pos: "0 < cv" using cv by (simp add: word_neq_0_conv)
  have srt: "sorted_wrt (\<ge>) ?hs" using inv by (simp add: cm_inv_def)
  have new: "?S x = {}" if "lastView ?c < v" for x
    using inv that by (auto simp: cm_inv_def supporters_def not_less [symmetric])
  have tally: "at_least x ?hs = min (length ?hs) (card (?S x))" if "0 < x" "lastView ?c \<le> v" for x
    using ex that new by (cases "lastView ?c < v") (auto simp: exact_def)
  note raise = exact_raise [where S = ?S and S' = ?S' and hs = ?hs and cv = cv and r = r,
      OF srt tally sup(1) sup(2) supporters_antimono gap _ pos]
  show "exact s'"
    using cnt
  proof (cases rule: count_cases)
    case 1
    then show ?thesis using ex sup(3) c' by (simp add: exact_def)
  next
    case (2 hs)
    then show ?thesis using raise(2) c' by (simp add: exact_def)
  next
    case (3 hs hs')
    then show ?thesis using raise(1) c' by (simp add: exact_def)
  qed
  have S': "card (?S' cv) = Suc (card (?S cv))" using sup by simp
  show "d \<longleftrightarrow> lastView ?c \<le> v \<and> length (highest ?c) < card (?S' cv)"
    using cnt
  proof (cases rule: count_cases)
    case (2 hs)
    then show ?thesis using tally [OF pos] S' by (auto simp: raise_first_None split: if_splits)
  next
    case (3 hs hs')
    then have "at_least cv hs \<noteq> length hs" using raise_first_None [of cv hs] by simp
    then show ?thesis using 3 tally [OF pos] S' by (auto split: if_splits)
  qed auto
qed

definition reaches :: "acceptor \<Rightarrow> u32 \<Rightarrow> u64 \<Rightarrow> u64 \<Rightarrow> bool" where
  "reaches a q v cv \<longleftrightarrow> v < replicaViews a q \<or> v = replicaViews a q \<and> cv \<le> lastPrimaryCVs a q"

definition covered :: "commitment list \<Rightarrow> acceptor \<Rightarrow> bool" where
  "covered h a \<longleftrightarrow> (\<forall>(q, nv, v, cv, rcv) \<in> set h. reaches a q v cv)"

lemma reaches_accept:
  assumes "acceptCommitment r nv v cv rcv a = (a', Inr u)" and "cv \<noteq> 0"
  shows "reaches a' r v cv" and "reaches a q w x \<Longrightarrow> reaches a' q w x"
proof -
  show "reaches a' r v cv"
    using assms by (cases rule: accept_cases) (simp_all add: reaches_def)
  show "reaches a' q w x" if "reaches a q w x"
    using assms
  proof (cases rule: accept_cases)
    case 1
    with that show ?thesis by (cases "q = r") (auto simp: reaches_def)
  next
    case 2
    with that show ?thesis by (cases "q = r") (auto simp: reaches_def)
  qed
qed

lemma covered_accept:
  assumes "covered h a" and "acceptCommitment r nv v cv rcv a = (a', Inr u)" and "cv \<noteq> 0"
  shows "covered (h @ [(r, nv, v, cv, rcv)]) a'"
  using assms(1) reaches_accept [OF assms(2,3)] by (fastforce simp: covered_def)

lemma trace_covered: "commit_trace sz h s \<Longrightarrow> covered h (cm_acceptor s)"
proof (induction rule: commit_trace.induct)
  case (trace_accept h s cv r nv v rcv s' d)
  then show ?case using covered_accept commitment_done_accepts by blast
next
  case (trace_reject h s r nv v cv rcv s' e)
  then show ?case using commitment_done_rejects by blast
qed (simp add: covered_def)

lemma trace_exact: "commit_trace sz h s \<Longrightarrow> (\<And>v. one_new_view h v) \<Longrightarrow> exact s"
proof (induction rule: commit_trace.induct)
  case trace_start
  then show ?case
    by (simp add: exact_def new_commitments_def new_counter_def new_acceptor_def supporters_def)
next
  case (trace_accept h s cv r nv v rcv s' d)
  moreover have "exact s" using trace_accept one_new_view_snoc by blast
  ultimately show ?case using exact_step(1) trace_backed by blast
next
  case (trace_reject h s r nv v cv rcv s' e)
  then show ?case using commitment_done_rejects by blast
qed

lemma done_iff_certificate_core:
  assumes tr: "commit_trace sz h s" and cv: "cv \<noteq> 0" and sz: "sz \<noteq> 0"
    and ok: "commitment_done r nv v cv rcv s = (s', Inr d)"
    and one: "\<And>w. one_new_view (h @ [(r, nv, v, cv, rcv)]) w"
  shows "d \<longleftrightarrow> lastView (cm_counter s) \<le> v \<and>
           unat sz \<le> card (committed_to (h @ [(r, nv, v, cv, rcv)]) v cv)"
proof -
  let ?h = "h @ [(r, nv, v, cv, rcv)]"
  note tr' = trace_accept [OF tr cv ok]
  have acc: "r \<in> supporters (cm_acceptor s') v cv" "lastPrimaryCVs (cm_acceptor s') r = cv"
    using commitment_done_accepts [OF ok] cv by (auto elim!: accept_cases simp: supporters_def)
  have "supporters (cm_acceptor s') v cv = committed_to ?h v cv" if "lastView (cm_counter s) \<le> v"
  proof
    show "supporters (cm_acceptor s') v cv \<subseteq> committed_to ?h v cv"
      using supporters_committed [OF _ one acc cv] trace_backed [OF tr'] by blast
    have "lastView (cm_counter s') = v"
      using ok that by (auto simp: commitment_done_def split: prod.splits sum.splits elim!: count_cases)
    then have "replicaViews (cm_acceptor s') q \<le> v" for q
      using trace_backed [OF tr'] by (auto simp: cm_inv_def)
    then show "committed_to ?h v cv \<subseteq> supporters (cm_acceptor s') v cv"
      using trace_covered [OF tr'] unfolding covered_def committed_to_def supporters_def reaches_def
      by (fastforce simp: not_less [symmetric])
  qed
  moreover have "d \<longleftrightarrow> lastView (cm_counter s) \<le> v \<and>
      length (highest (cm_counter s)) < card (supporters (cm_acceptor s') v cv)"
    using exact_step(2) [OF _ _ cv _ ok one] trace_backed [OF tr] trace_exact [OF tr] one one_new_view_snoc
    by blast
  moreover have "unat sz = Suc (length (highest (cm_counter s)))"
    using sz trace_length [OF tr] by (simp add: unat_minus_one unat_gt_0 word_neq_0_conv)
  ultimately show ?thesis by (auto simp: Suc_le_eq)
qed

end
