(* ===== verification/Replica.thy ===== *)
theory Replica
  imports Validation ViewState ClientState RequestList MessageLog Commitments
begin

text \<open>
  The replica: the state that \<open>defaultMessageHandlers\<close> shares between its closures, and the whole
  of its message processing, timeouts included. Every function is the sequential body of the Go
  closure; the locks that serialise these bodies are the subject of the component theories.
\<close>

section \<open>State\<close>

text \<open>
  \<open>rs_usig\<close> counts the identifiers the USIG of the replica has created. \<open>rs_delivered\<close> records the
  calls of \<open>Deliver\<close> on the request consumer, and \<open>rs_executing\<close> the goroutines that wait for a
  result. \<open>rs_accepted\<close> is a history variable, which no operation reads: the commitments that were
  accepted, oldest first.
\<close>

record replica =
  rs_view :: view_state
  rs_clients :: client_states
  rs_pending :: request_list
  rs_prepared :: request_list
  rs_log :: log_state
  rs_unicast :: "u32 \<rightharpoonup> log_state"
  rs_commitments :: commitments
  rs_lastUI :: "u64 list"
  rs_rvcs :: rvc_collector
  rs_vcs :: vc_collector
  rs_requested :: u64
  rs_vcTimer :: "u64 backoff"
  rs_usig :: u64
  rs_accepted :: message_log
  rs_delivered :: "request list"
  rs_executing :: "(u32 \<times> u64) list"

definition new_replica :: "config \<Rightarrow> replica" where
  "new_replica c =
     \<lparr>rs_view = new_view_state, rs_clients = [], rs_pending = new_list, rs_prepared = new_list,
      rs_log = new_log,
      rs_unicast = (\<lambda>p. if p < cfg_n c \<and> p \<noteq> cfg_id c then Some new_log else None),
      rs_commitments = new_commitments (commitCertSize c),
      rs_lastUI = replicate (unat (cfg_n c)) 0,
      rs_rvcs = new_rvc_collector, rs_vcs = new_vc_collector, rs_requested = 0,
      rs_vcTimer = new_backoff (cfg_timeoutViewChange c), rs_usig = 0,
      rs_accepted = [], rs_delivered = [], rs_executing = []\<rparr>"

type_synonym 'a op = "(replica, 'a) handler"

section \<open>Access to the parts\<close>

definition upd_client :: "u32 \<Rightarrow> (client_state \<Rightarrow> client_state) \<Rightarrow> unit op" where
  "upd_client cid f = modify (\<lambda>s. s\<lparr>rs_clients := with_client cid f (rs_clients s)\<rparr>)"

definition on_seq :: "u32 \<Rightarrow> (seq_state, 'a) handler \<Rightarrow> 'a op" where
  "on_seq cid m s =
     (case m (cs_seq (client_of cid (rs_clients s))) of
        (q, r) \<Rightarrow> (s\<lparr>rs_clients := with_client cid (\<lambda>k. k\<lparr>cs_seq := q\<rparr>) (rs_clients s)\<rparr>, r))"

definition on_commitments :: "(commitments, 'a) handler \<Rightarrow> 'a op" where
  "on_commitments m s = (case m (rs_commitments s) of (k, r) \<Rightarrow> (s\<lparr>rs_commitments := k\<rparr>, r))"

section \<open>Generated messages\<close>

definition consumeGeneratedMessage :: "message \<Rightarrow> unit op" where
  "consumeGeneratedMessage m =
     (case m of
        MReply r \<Rightarrow> upd_client (rep_ClientID r) (\<lambda>k. k\<lparr>cs_reply := AddReply r (cs_reply k)\<rparr>)
      | MRequest r \<Rightarrow> throw (Panic ''Unknown message type'')
      | _ \<Rightarrow> modify (\<lambda>s. s\<lparr>rs_log := Append m (rs_log s)\<rparr>))"

definition handleGeneratedMessage :: "config \<Rightarrow> message \<Rightarrow> unit op" where
  "handleGeneratedMessage c m =
     (case m of
        MCertified x \<Rightarrow>
          bindM (gets rs_usig) (\<lambda>k.
          bindM (check (assignUI c k x)) (\<lambda>y.
          seqM (modify (\<lambda>s. s\<lparr>rs_usig := k + 1\<rparr>))
            (consumeGeneratedMessage (MCertified y))))
      | MReqViewChange r \<Rightarrow>
          bindM (check (sign_rvc c r)) (\<lambda>r'. consumeGeneratedMessage (MReqViewChange r'))
      | MReply r \<Rightarrow> bindM (check (sign_reply c r)) (\<lambda>r'. consumeGeneratedMessage (MReply r'))
      | _ \<Rightarrow> consumeGeneratedMessage m)"

section \<open>Requests\<close>

definition startReqTimer :: "config \<Rightarrow> request \<Rightarrow> u64 \<Rightarrow> unit op" where
  "startReqTimer c req view =
     upd_client (req_ClientID req) (\<lambda>k. k\<lparr>cs_requestTimer :=
       timer_Start (cfg_timeoutRequest c) (req_Sequence req) (req_ClientID req, req_Sequence req, view)
         (cs_requestTimer k)\<rparr>)"

definition stopReqTimer :: "request \<Rightarrow> unit op" where
  "stopReqTimer req =
     upd_client (req_ClientID req)
       (\<lambda>k. k\<lparr>cs_requestTimer := timer_Stop (req_Sequence req) (cs_requestTimer k)\<rparr>)"

definition startPrepTimer :: "config \<Rightarrow> request \<Rightarrow> u64 \<Rightarrow> unit op" where
  "startPrepTimer c req view =
     upd_client (req_ClientID req) (\<lambda>k. k\<lparr>cs_prepareTimer :=
       timer_Start (cfg_timeoutPrepare c) (req_Sequence req) (req, view) (cs_prepareTimer k)\<rparr>)"

definition stopPrepTimer :: "request \<Rightarrow> unit op" where
  "stopPrepTimer req =
     upd_client (req_ClientID req)
       (\<lambda>k. k\<lparr>cs_prepareTimer := timer_Stop (req_Sequence req) (cs_prepareTimer k)\<rparr>)"

definition captureReq :: "request \<Rightarrow> bool op" where
  "captureReq req =
     bindM (on_seq (req_ClientID req)
              (\<lambda>q. case CaptureRequestSeq (req_Sequence req) q of (q', k) \<Rightarrow> (q', Inr k)))
       (\<lambda>k. case k of
              NotNew \<Rightarrow> ret False
            | Wait \<Rightarrow> throw Blocked
            | Captured \<Rightarrow> seqM (modify (\<lambda>s. s\<lparr>rs_pending := Add req (rs_pending s)\<rparr>)) (ret True))"

definition releaseReq :: "request \<Rightarrow> unit op" where
  "releaseReq req = on_seq (req_ClientID req) (\<lambda>q. (release_seq q, Inr ()))"

text \<open>The preparer and the retirer panic when the identifier operation returns an error.\<close>

definition must :: "('s, 'a) handler \<Rightarrow> ('s, 'a) handler" where
  "must m s =
     (case m s of (s', Inl (Error e)) \<Rightarrow> (s', Inl (Panic e)) | (s', r) \<Rightarrow> (s', r))"

definition prepareReq :: "request \<Rightarrow> bool op" where
  "prepareReq req =
     bindM (must (on_seq (req_ClientID req) (PrepareRequestSeq (req_Sequence req)))) (\<lambda>new.
       if \<not> new then ret False
       else seqM (modify (\<lambda>s. s\<lparr>rs_prepared := Add req (rs_prepared s),
                               rs_pending := Remove req (rs_pending s)\<rparr>))
              (ret True))"

definition retireReq :: "request \<Rightarrow> bool op" where
  "retireReq req =
     bindM (must (on_seq (req_ClientID req) (RetireRequestSeq (req_Sequence req)))) (\<lambda>new.
       if \<not> new then ret False
       else seqM (modify (\<lambda>s. s\<lparr>rs_prepared := Remove req (rs_prepared s)\<rparr>)) (ret True))"

definition unprepareReq :: "request \<Rightarrow> unit op" where
  "unprepareReq req =
     seqM (on_seq (req_ClientID req) (\<lambda>q. (UnprepareRequestSeq q, Inr ())))
       (modify (\<lambda>s. s\<lparr>rs_pending := Add req (rs_pending s), rs_prepared := Remove req (rs_prepared s)\<rparr>))"

definition unprepareReqs :: "config \<Rightarrow> unit op" where
  "unprepareReqs c =
     bindM (gets (\<lambda>s. All (cfg_order c) (rs_prepared s))) (forM unprepareReq)"

definition applyRequest :: "config \<Rightarrow> request \<Rightarrow> u64 \<Rightarrow> unit op" where
  "applyRequest c req view =
     seqM (startReqTimer c req view)
       (if isPrimary view (cfg_id c) (cfg_n c)
        then handleGeneratedMessage c (MCertified (NewPrepare (cfg_id c) view req))
        else startPrepTimer c req view)"

definition applyPendingReqs :: "config \<Rightarrow> u64 \<Rightarrow> unit op" where
  "applyPendingReqs c view =
     bindM (gets (\<lambda>s. All (cfg_order c) (rs_pending s))) (forM (\<lambda>req. applyRequest c req view))"

definition processRequest :: "config \<Rightarrow> request \<Rightarrow> bool op" where
  "processRequest c req =
     bindM (gets (\<lambda>s. HoldView (rs_view s))) (\<lambda>(cur, exp).
     bindM (captureReq req) (\<lambda>new.
       if \<not> new then ret False
       else if cur \<noteq> exp then seqM (releaseReq req) (ret True)
       else seqM (applyRequest c req cur) (seqM (releaseReq req) (ret True))))"

definition executeRequest :: "request \<Rightarrow> unit op" where
  "executeRequest req =
     bindM (retireReq req) (\<lambda>new.
       if \<not> new then ret ()
       else seqM (stopReqTimer req)
              (modify (\<lambda>s. s\<lparr>rs_delivered := rs_delivered s @ [req],
                            rs_executing := rs_executing s @ [(req_ClientID req, req_Sequence req)]\<rparr>)))"

section \<open>Commitments\<close>

definition acceptNewView :: "new_view_cert \<Rightarrow> unit op" where
  "acceptNewView cert = bindM (check (extractPreparedRequests cert)) (forM executeRequest)"

definition collectCommitment :: "certified \<Rightarrow> unit op" where
  "collectCommitment m =
     (if is_vc m then throw (Error ''unexpected commitment message type'')
      else
        let prop = proposal_of m;
            collect = (\<lambda>isNewView view.
              bindM (on_commitments
                      (commitment_done (ReplicaID m) isNewView view (Counter (UI prop)) (Counter (UI m))))
                (\<lambda>done. seqM (modify (\<lambda>s. s\<lparr>rs_accepted := rs_accepted s @ [m]\<rparr>)) (ret done)))
        in case prop of
             Prepare r view req u \<Rightarrow>
               bindM (collect False view) (\<lambda>done. if \<not> done then ret () else executeRequest req)
           | NewView r view cert u \<Rightarrow>
               bindM (collect True view) (\<lambda>done. if \<not> done then ret () else acceptNewView cert)
           | _ \<Rightarrow> throw (Error ''unexpected proposal message type''))"

section \<open>View change\<close>

definition startVCTimer :: "u64 \<Rightarrow> unit op" where
  "startVCTimer view = modify (\<lambda>s. s\<lparr>rs_vcTimer := backoff_Start view (rs_vcTimer s)\<rparr>)"

definition stopVCTimer :: "unit op" where
  "stopVCTimer = modify (\<lambda>s. s\<lparr>rs_vcTimer := backoff_Stop (rs_vcTimer s)\<rparr>)"

definition certified_msgs :: "message list \<Rightarrow> message_log" where
  "certified_msgs ms = concat (map (\<lambda>m. case m of MCertified x \<Rightarrow> [x] | _ \<Rightarrow> []) ms)"

definition startViewChange :: "config \<Rightarrow> u64 \<Rightarrow> view_change_cert \<Rightarrow> bool op" where
  "startViewChange c newView vcCert =
     bindM (gets (\<lambda>s. AdvanceExpectedView newView (rs_view s))) (\<lambda>(v', ok).
       if \<not> ok then ret False
       else
         seqM (modify (\<lambda>s. s\<lparr>rs_view := v'\<rparr>))
           (bindM (gets (\<lambda>s. certified_msgs (Messages (rs_log s)))) (\<lambda>ms.
              seqM (modify (\<lambda>s. s\<lparr>rs_log := Reset [] (rs_log s)\<rparr>))
              (seqM (startVCTimer newView)
              (seqM (unprepareReqs c)
              (seqM (handleGeneratedMessage c (MCertified (NewViewChange (cfg_id c) newView ms vcCert)))
                (ret True)))))))"

definition processReqViewChange :: "config \<Rightarrow> req_view_change \<Rightarrow> bool op" where
  "processReqViewChange c rvc =
     bindM (gets (\<lambda>s. collectReqViewChange (viewChangeCertSize c) rvc (rs_rvcs s))) (\<lambda>(k, new, vcCert).
     seqM (modify (\<lambda>s. s\<lparr>rs_rvcs := k\<rparr>))
       (case vcCert of
          None \<Rightarrow> ret new
        | Some cert \<Rightarrow> startViewChange c (rvc_NewView rvc) cert))"

definition processNewViewCert :: "config \<Rightarrow> u64 \<Rightarrow> new_view_cert \<Rightarrow> unit op" where
  "processNewViewCert c newView nvCert =
     bindM (gets (\<lambda>s. HoldView (rs_view s))) (\<lambda>(_, expected).
       if newView \<noteq> expected then ret ()
       else seqM (modify (\<lambda>s. s\<lparr>rs_log := Reset [] (rs_log s)\<rparr>))
              (handleGeneratedMessage c (MCertified (NewNewView (cfg_id c) newView nvCert))))"

definition processViewChange :: "config \<Rightarrow> view_change \<Rightarrow> bool op" where
  "processViewChange c vc =
     bindM (gets (\<lambda>s. collectViewChange (cfg_id c) (cfg_n c) (viewChangeCertSize c) vc (rs_vcs s)))
       (\<lambda>(k, new, nvCert).
          seqM (modify (\<lambda>s. s\<lparr>rs_vcs := k\<rparr>))
          (seqM (case nvCert of None \<Rightarrow> ret () | Some cert \<Rightarrow> processNewViewCert c (vc_NewView vc) cert)
            (ret new)))"

section \<open>Messages of a view\<close>

definition applyPrepare :: "config \<Rightarrow> certified \<Rightarrow> request \<Rightarrow> unit op" where
  "applyPrepare c prepare req =
     bindM (prepareReq req) (\<lambda>new.
       if \<not> new then throw (Error ''Request already prepared'')
       else seqM (collectCommitment prepare)
              (if cfg_id c = ReplicaID prepare then ret ()
               else seqM (stopPrepTimer req)
                      (handleGeneratedMessage c (MCertified (NewCommit (cfg_id c) prepare)))))"

definition applyNewView :: "config \<Rightarrow> certified \<Rightarrow> u64 \<Rightarrow> new_view_cert \<Rightarrow> unit op" where
  "applyNewView c nv newView cert =
     bindM (check (extractPreparedRequests cert)) (\<lambda>reqs.
     seqM (forM (\<lambda>req. bindM (prepareReq req) (\<lambda>_. ret ())) reqs)
     (seqM (collectCommitment nv)
     (seqM stopVCTimer
     (seqM (applyPendingReqs c newView)
       (if cfg_id c = ReplicaID nv then ret ()
        else handleGeneratedMessage c (MCertified (NewCommit (cfg_id c) nv)))))))"

definition applyPeerMessage :: "config \<Rightarrow> certified \<Rightarrow> unit op" where
  "applyPeerMessage c m =
     (case m of
        Prepare r view req u \<Rightarrow> applyPrepare c m req
      | Commit r prop u \<Rightarrow> collectCommitment m
      | NewView r view cert u \<Rightarrow> applyNewView c m view cert
      | CViewChange vc \<Rightarrow> throw (Panic ''Unknown message type''))"

text \<open>
  The switch of \<open>processViewMessage\<close>: the view of the message and the expected view, or
  \<open>None\<close> when the message is dropped.
\<close>

definition hold_view_for :: "u64 \<Rightarrow> (u64 \<times> u64) option op" where
  "hold_view_for messageView =
     bindM (gets (\<lambda>s. HoldView (rs_view s))) (\<lambda>(current, expected).
       if messageView > current then throw (Error ''message refers to unexpected view'')
       else ret (Some (messageView, expected)))"

definition enter_view :: "u64 \<Rightarrow> (u64 \<times> u64) option op" where
  "enter_view messageView =
     bindM (gets (\<lambda>s. AdvanceCurrentView messageView (rs_view s))) (\<lambda>(v', expected).
       case expected of
         None \<Rightarrow> ret None
       | Some e \<Rightarrow> seqM (modify (\<lambda>s. s\<lparr>rs_view := v'\<rparr>)) (ret (Some (messageView, e))))"

definition view_for :: "certified \<Rightarrow> (u64 \<times> u64) option op" where
  "view_for m =
     (case m of
        Prepare r view req u \<Rightarrow> hold_view_for view
      | Commit r prop u \<Rightarrow>
          (case prop of
             Prepare r' view req u' \<Rightarrow> hold_view_for view
           | NewView r' view cert u' \<Rightarrow> hold_view_for view
           | _ \<Rightarrow> throw (Panic ''Unknown proposal message type''))
      | NewView r view cert u \<Rightarrow> enter_view view
      | CViewChange vc \<Rightarrow> throw (Panic ''Unknown message type''))"

definition processViewMessage :: "config \<Rightarrow> certified \<Rightarrow> bool op" where
  "processViewMessage c m =
     bindM (view_for m) (\<lambda>views.
       case views of
         None \<Rightarrow> ret False
       | Some (messageView, expected) \<Rightarrow>
           if messageView \<noteq> expected then ret False
           else seqM (applyPeerMessage c m) (ret True))"

section \<open>Processing\<close>

definition processCertifiedMessage :: "config \<Rightarrow> certified \<Rightarrow> bool op" where
  "processCertifiedMessage c m =
     bindM (gets rs_lastUI) (\<lambda>lastUI.
       let i = unat (ReplicaID m); nextUI = lastUI ! i + 1
       in if i \<ge> length lastUI then throw (Panic ''index out of range'')
          else if Counter (UI m) < nextUI then ret False
          else if Counter (UI m) > nextUI then throw (Error ''unexpected UI counter value'')
          else bindM (case m of CViewChange vc \<Rightarrow> processViewChange c vc | _ \<Rightarrow> processViewMessage c m)
                 (\<lambda>new. seqM (modify (\<lambda>s. s\<lparr>rs_lastUI := (rs_lastUI s)[i := nextUI]\<rparr>)) (ret new)))"

definition processMessage :: "config \<Rightarrow> message \<Rightarrow> bool op" where
  "processMessage c m =
     (let peer = (\<lambda>replicaID k.
            if replicaID \<ge> cfg_n c then throw (Panic ''index out of range'') else k)
      in case m of
           MRequest r \<Rightarrow> processRequest c r
         | MCertified x \<Rightarrow> peer (ReplicaID x) (processCertifiedMessage c x)
         | MReqViewChange r \<Rightarrow> peer (rvc_ReplicaID r) (processReqViewChange c r)
         | MHello r \<Rightarrow> peer r (throw (Panic ''Unknown message type''))
         | MReply r \<Rightarrow> throw (Panic ''Unknown message type''))"

section \<open>Handling\<close>

text \<open>
  The handlers of own and of peer messages differ in the validation \<open>validate\<close> only: validate the
  message, handle the messages embedded in it, process it. \<open>handleEmbedded\<close> recurses through the
  handler, here along the structure of the message.
\<close>

definition ignore :: "('s, 'a) handler \<Rightarrow> ('s, unit) handler" where
  "ignore m = bindM m (\<lambda>_. ret ())"

definition handle_leaf :: "(message \<Rightarrow> unit result) \<Rightarrow> config \<Rightarrow> message \<Rightarrow> bool op" where
  "handle_leaf validate c m = seqM (check (validate m)) (processMessage c m)"

lemma forM_cong [fundef_cong]:
  "xs = ys \<Longrightarrow> (\<And>x. x \<in> set ys \<Longrightarrow> f x = g x) \<Longrightarrow> forM f xs = forM g ys"
  by (induction ys arbitrary: xs) auto

function (sequential) handleCertified ::
    "(message \<Rightarrow> unit result) \<Rightarrow> config \<Rightarrow> certified \<Rightarrow> bool op" where
  "handleCertified validate c (Prepare r view req u) =
     (let m = MCertified (Prepare r view req u)
      in seqM (check (validate m))
         (seqM (ignore (handle_leaf validate c (MRequest req))) (processMessage c m)))"
| "handleCertified validate c (Commit r prop u) =
     (let m = MCertified (Commit r prop u)
      in seqM (check (validate m))
         (seqM (ignore (handleCertified validate c prop)) (processMessage c m)))"
| "handleCertified validate c (CViewChange (ViewChange r newView ml vcCert u)) =
     (let m = MCertified (CViewChange (ViewChange r newView ml vcCert u))
      in seqM (check (validate m))
         (seqM (forM (\<lambda>rvc. ignore (handle_leaf validate c (MReqViewChange rvc))) vcCert)
         (seqM (forM (\<lambda>x. ignore (handleCertified validate c x)) ml)
           (processMessage c m))))"
| "handleCertified validate c (NewView r newView nvCert u) =
     (let m = MCertified (NewView r newView nvCert u)
      in seqM (check (validate m))
         (seqM (forM (\<lambda>vc. ignore (handleCertified validate c (CViewChange vc))) nvCert)
           (processMessage c m)))"
  by pat_completeness auto

termination
  by (relation "measure (\<lambda>(_, _, m). size m)") (auto dest: size_in_list simp: less_Suc_eq_le)

definition handleMessage :: "(message \<Rightarrow> unit result) \<Rightarrow> config \<Rightarrow> message \<Rightarrow> bool op" where
  "handleMessage validate c m =
     (case m of
        MCertified x \<Rightarrow> handleCertified validate c x
      | MRequest r \<Rightarrow> handle_leaf validate c m
      | MReqViewChange r \<Rightarrow> handle_leaf validate c m
      | _ \<Rightarrow> seqM (check (validate m)) (throw (Panic ''Unknown message type'')))"

definition handlePeerMessage :: "config \<Rightarrow> message \<Rightarrow> bool op" where
  "handlePeerMessage c = handleMessage (validateMessage c) c"

definition handleOwnMessage :: "config \<Rightarrow> message \<Rightarrow> bool op" where
  "handleOwnMessage c = handleMessage (\<lambda>_. Inr ()) c"

text \<open>
  \<open>handleClientMessage\<close> up to the first look of the reply goroutine at the client's replies; while
  that is \<open>AwaitReply\<close>, the goroutine looks again whenever a reply is added.
\<close>

definition replyRequest :: "request \<Rightarrow> reply_poll op" where
  "replyRequest req =
     bindM (gets (\<lambda>s. ReplyChannel (req_Sequence req) (cs_reply (client_of (req_ClientID req) (rs_clients s)))))
       check"

definition handleClientMessage :: "config \<Rightarrow> message \<Rightarrow> (bool \<times> reply_poll) op" where
  "handleClientMessage c m =
     (case m of
        MRequest req \<Rightarrow>
          seqM (check (validateRequest c req))
          (bindM (processRequest c req) (\<lambda>new.
           bindM (replyRequest req) (\<lambda>poll. ret (new, poll))))
      | _ \<Rightarrow> throw (Error ''unexpected message type''))"

text \<open>\<open>handleHelloMessage\<close>: the peer to which the broadcast log and its unicast log are streamed.\<close>

definition handleHello :: "config \<Rightarrow> message \<Rightarrow> u32 result" where
  "handleHello c m =
     (case m of
        MHello peerID \<Rightarrow>
          if peerID \<ge> cfg_n c \<or> peerID = cfg_id c then Inl (Error ''unexpected peer ID'') else Inr peerID
      | _ \<Rightarrow> Inl (Error ''unexpected message type''))"

text \<open>The own messages come from a stream of the log; an error in handling them panics.\<close>

definition handleOwnPeerMessage :: "config \<Rightarrow> message \<Rightarrow> bool op" where
  "handleOwnPeerMessage c m = must (handleOwnMessage c m)"

section \<open>Timeouts and results\<close>

definition requestViewChange :: "config \<Rightarrow> u64 \<Rightarrow> bool op" where
  "requestViewChange c newView =
     bindM (gets rs_requested) (\<lambda>requested.
       if requested \<ge> newView then ret False
       else
         seqM (modify (\<lambda>s. s\<lparr>rs_requested := newView\<rparr>))
         (bindM (gets (\<lambda>s. HoldView (rs_view s))) (\<lambda>(_, expected).
            if expected \<ge> newView then ret False
            else seqM (handleGeneratedMessage c (MReqViewChange (NewReqViewChange (cfg_id c) newView)))
                   (ret True))))"

definition handleReqTimeout :: "config \<Rightarrow> u64 \<Rightarrow> unit op" where
  "handleReqTimeout c view = ignore (requestViewChange c (view + 1))"

definition handleViewChangeTimeout :: "config \<Rightarrow> u64 \<Rightarrow> unit op" where
  "handleViewChangeTimeout c view = ignore (requestViewChange c (view + 1))"

text \<open>The expiry of a timer: the callback is disarmed and runs. A timer that is not armed is left alone.\<close>

definition expireRequestTimer :: "config \<Rightarrow> u32 \<Rightarrow> nat \<Rightarrow> unit op" where
  "expireRequestTimer c cid h =
     bindM (gets (\<lambda>s. expire h (ts_provider (cs_requestTimer (client_of cid (rs_clients s)))))) (\<lambda>x.
       case x of
         None \<Rightarrow> ret ()
       | Some (p, _, _, view) \<Rightarrow>
           seqM (upd_client cid (\<lambda>k. k\<lparr>cs_requestTimer := (cs_requestTimer k)\<lparr>ts_provider := p\<rparr>\<rparr>))
             (handleReqTimeout c view))"

definition handlePrepTimeout :: "config \<Rightarrow> request \<Rightarrow> u64 \<Rightarrow> unit op" where
  "handlePrepTimeout c req view =
     bindM (gets rs_unicast) (\<lambda>logs.
       let primary = ucast (view mod ucast (cfg_n c))
       in case logs primary of
            None \<Rightarrow> throw (Panic ''nil pointer dereference'')
          | Some l \<Rightarrow> modify (\<lambda>s. s\<lparr>rs_unicast := (rs_unicast s)(primary \<mapsto> Append (MRequest req) l)\<rparr>))"

definition expirePrepareTimer :: "config \<Rightarrow> u32 \<Rightarrow> nat \<Rightarrow> unit op" where
  "expirePrepareTimer c cid h =
     bindM (gets (\<lambda>s. expire h (ts_provider (cs_prepareTimer (client_of cid (rs_clients s)))))) (\<lambda>x.
       case x of
         None \<Rightarrow> ret ()
       | Some (p, req, view) \<Rightarrow>
           seqM (upd_client cid (\<lambda>k. k\<lparr>cs_prepareTimer := (cs_prepareTimer k)\<lparr>ts_provider := p\<rparr>\<rparr>))
             (handlePrepTimeout c req view))"

definition expireVCTimer :: "config \<Rightarrow> nat \<Rightarrow> unit op" where
  "expireVCTimer c h =
     bindM (gets (\<lambda>s. expire h (bo_provider (rs_vcTimer s)))) (\<lambda>x.
       case x of
         None \<Rightarrow> ret ()
       | Some (p, view) \<Rightarrow>
           seqM (modify (\<lambda>s. s\<lparr>rs_vcTimer := (rs_vcTimer s)\<lparr>bo_provider := p\<rparr>\<rparr>))
             (handleViewChangeTimeout c view))"

text \<open>The goroutine of \<open>executeRequest\<close>: the \<open>i\<close>-th pending execution returns \<open>result\<close>.\<close>

definition finishExecution :: "config \<Rightarrow> nat \<Rightarrow> bytes \<Rightarrow> unit op" where
  "finishExecution c i result =
     bindM (gets rs_executing) (\<lambda>xs.
       if i \<ge> length xs then ret ()
       else
         let (clientID, seq) = xs ! i
         in seqM (modify (\<lambda>s. s\<lparr>rs_executing := take i xs @ drop (Suc i) xs\<rparr>))
              (handleGeneratedMessage c (MReply (NewReply (cfg_id c) clientID seq result))))"

definition stopTimers :: "unit op" where
  "stopTimers =
     seqM (bindM (gets (\<lambda>s. Clients (rs_clients s))) (forM (\<lambda>cid. upd_client cid StopAllTimers)))
       stopVCTimer"

section \<open>The replica as a transition system\<close>

text \<open>
  A node is a replica with the stream of its own messages. Every event runs one handler to
  completion; the interleaving of events is arbitrary. There is no step when the handler panics:
  a panic ends the process.
\<close>

record node =
  nd_replica :: replica
  nd_own :: stream

datatype event =
    EvPeer message
  | EvClient message
  | EvOwn
  | EvStream
  | EvRequestTimer u32 nat
  | EvPrepareTimer u32 nat
  | EvViewChangeTimer nat
  | EvExecuted nat bytes
  | EvStop

definition new_node :: "config \<Rightarrow> node" where
  "new_node c = \<lparr>nd_replica = new_replica c, nd_own = open_stream (rs_log (new_replica c))\<rparr>"

definition run_on :: "'a op \<Rightarrow> node \<Rightarrow> node \<times> unit result" where
  "run_on m x =
     (case m (nd_replica x) of
        (s, Inl e) \<Rightarrow> (x\<lparr>nd_replica := s\<rparr>, Inl e)
      | (s, Inr _) \<Rightarrow> (x\<lparr>nd_replica := s\<rparr>, Inr ()))"

text \<open>\<open>EvStream\<close> is an internal move of the stream, as in its own step relation.\<close>

definition stream_move :: "node \<Rightarrow> node \<times> unit result" where
  "stream_move x =
     (case advance (rs_log (nd_replica x)) (nd_own x) of
        Inl e \<Rightarrow> (x, Inl e)
      | Inr st \<Rightarrow> (x\<lparr>nd_own := st\<rparr>, Inr ()))"

definition own_next :: "config \<Rightarrow> node \<Rightarrow> node \<times> unit result" where
  "own_next c x =
     (case (st_pc (nd_own x), st_buf (nd_own x)) of
        (Sending, m # rest) \<Rightarrow> run_on (handleOwnPeerMessage c m) (x\<lparr>nd_own := (nd_own x)\<lparr>st_buf := rest\<rparr>\<rparr>)
      | _ \<Rightarrow> (x, Inr ()))"

fun handle_event :: "config \<Rightarrow> event \<Rightarrow> node \<Rightarrow> node \<times> unit result" where
  "handle_event c (EvPeer m) = run_on (handlePeerMessage c m)"
| "handle_event c (EvClient m) = run_on (handleClientMessage c m)"
| "handle_event c EvOwn = own_next c"
| "handle_event c EvStream = stream_move"
| "handle_event c (EvRequestTimer cid h) = run_on (expireRequestTimer c cid h)"
| "handle_event c (EvPrepareTimer cid h) = run_on (expirePrepareTimer c cid h)"
| "handle_event c (EvViewChangeTimer h) = run_on (expireVCTimer c h)"
| "handle_event c (EvExecuted i res) = run_on (finishExecution c i res)"
| "handle_event c EvStop = run_on stopTimers"

inductive node_step :: "config \<Rightarrow> node \<Rightarrow> event \<Rightarrow> node \<Rightarrow> bool" for c where
  node_step: "handle_event c e x = (x', r) \<Longrightarrow> \<not> is_panic r \<Longrightarrow> node_step c x e x'"

inductive node_reach :: "config \<Rightarrow> node \<Rightarrow> bool" for c where
  reach_init: "node_reach c (new_node c)"
| reach_step: "node_reach c x \<Longrightarrow> node_step c x e x' \<Longrightarrow> node_reach c x'"

end
