(* ===== verification/ReplicaInvariants.thy ===== *)
theory ReplicaInvariants
  imports Replica
begin

text \<open>
  Invariants of the replica. The locale \<open>replica_invariant\<close> states what the state-changing
  operations owe to an invariant; inside it the invariant is carried through the whole message
  handling, once for all invariants.
\<close>

definition shallow_ok :: "config \<Rightarrow> certified \<Rightarrow> bool" where
  "shallow_ok c m \<longleftrightarrow> ReplicaID m < cfg_n c \<and>
     (case m of
        Commit r prop u \<Rightarrow> is_proposal prop
      | CViewChange vc \<Rightarrow> (\<forall>x \<in> set (tl (vc_MessageLog vc)). \<not> is_view_msg x)
      | _ \<Rightarrow> True)"

text \<open>The kinds of messages that replicas send to each other.\<close>

fun peer_kind :: "message \<Rightarrow> bool" where
  "peer_kind (MHello r) = False"
| "peer_kind (MReply r) = False"
| "peer_kind m = True"

definition lax :: "(go_error \<Rightarrow> bool) \<Rightarrow> bool" where
  "lax E \<longleftrightarrow> (\<forall>e. E e)"

lemma laxD: "lax E \<Longrightarrow> E e"
  by (simp add: lax_def)

lemma keeps_extract:
  assumes "lax E \<or> (\<forall>vc \<in> set cert. vc_ok vc)"
    and "\<And>reqs. set reqs \<subseteq> (\<Union>vc \<in> set cert. vc_reqs vc) \<Longrightarrow> keeps E J (f reqs)"
  shows "keeps E J (bindM (check (extractPreparedRequests cert)) f)"
proof (cases "extractPreparedRequests cert")
  case (Inl e)
  then have "lax E" using assms(1) extract_ok [of cert] by auto
  then show ?thesis using Inl by (cases e) (auto simp: keeps_def wp_rules laxD)
next
  case (Inr reqs)
  then show ?thesis using assms(2) [OF extract_reqs [OF Inr]]
    by (simp add: keeps_def wp_rules)
qed

lemma collect_parts:
  assumes exec: "\<And>req. req \<in> R \<Longrightarrow> keeps E J (executeRequest req)"
    and cmt: "\<And>i nv v cv rcv. keeps E J (on_commitments (commitment_done i nv v cv rcv))"
    and hist: "\<And>s h. J s \<Longrightarrow> J (s\<lparr>rs_accepted := h\<rparr>)"
    and ok: "lax E \<or> certified_ok m" and R: "certified_reqs m \<subseteq> R"
  shows "keeps E J (collectCommitment m)"
proof (cases "proposal_of m")
  case (Prepare r v req u)
  then show ?thesis using R proposal_of_reqs [of m]
    by (auto simp: collectCommitment_def Let_def intro!: keeps_intros keeps_modify exec cmt hist)
next
  case (NewView r v cert u)
  then have "lax E \<or> (\<forall>vc \<in> set cert. vc_ok vc)" "(\<Union>vc \<in> set cert. vc_reqs vc) \<subseteq> R"
    using ok R proposal_of_reqs [of m] proposal_of_ok [of m]
    by (cases m; auto simp: proposal_of_def)+
  then have "keeps E J (acceptNewView cert)"
    unfolding acceptNewView_def by (intro keeps_extract) (auto intro!: keeps_forM exec)
  with NewView show ?thesis
    by (auto simp: collectCommitment_def Let_def intro!: keeps_intros keeps_modify cmt hist)
qed (auto simp: collectCommitment_def Let_def intro!: keeps_intros)

text \<open>
  \<open>gains E I m G P\<close>: \<open>m\<close> keeps the invariant, and when it succeeds then the requests \<open>G\<close> are added
  to those the invariant knows of, and \<open>P\<close> holds.
\<close>

definition gains ::
    "(go_error \<Rightarrow> bool) \<Rightarrow> ('r set \<Rightarrow> 's \<Rightarrow> bool) \<Rightarrow> ('s, 'a) handler \<Rightarrow> 'r set \<Rightarrow> bool \<Rightarrow> bool" where
  "gains E I m G P \<longleftrightarrow> (\<forall>R s. I R s \<longrightarrow>
     wp m (\<lambda>r s'. outcome E r (if \<not> isl r then I (R \<union> G) s' \<and> P else I R s')) s)"

lemma gainsI:
  assumes "\<And>R s s' x. I R s \<Longrightarrow> m s = (s', Inr x) \<Longrightarrow> I (R \<union> G) s' \<and> P"
    and "\<And>R s s' e. I R s \<Longrightarrow> m s = (s', Inl e) \<Longrightarrow> outcome E (Inl e :: 'a result) (I R s')"
  shows "gains E I (m :: ('s, 'a) handler) G P"
  unfolding gains_def
proof (intro allI impI wpI)
  fix R s s' r assume "I R s" "m s = (s', r)"
  then show "outcome E r (if \<not> isl r then I (R \<union> G) s' \<and> P else I R s')"
    using assms by (cases r) auto
qed

lemma gains_run:
  "gains E I m G P \<Longrightarrow> I R s \<Longrightarrow> m s = (s', r) \<Longrightarrow>
     outcome E r (if \<not> isl r then I (R \<union> G) s' \<and> P else I R s')"
  unfolding gains_def wp_def by (metis fst_conv snd_conv)

lemma gains_Inr: "gains E I m G P \<Longrightarrow> I R s \<Longrightarrow> m s = (s', Inr x) \<Longrightarrow> I (R \<union> G) s' \<and> P"
  using gains_run [of E I m G P R s s' "Inr x"] by simp

lemma gains_Inl:
  "gains E I m G P \<Longrightarrow> I R s \<Longrightarrow> m s = (s', Inl e) \<Longrightarrow> outcome E (Inl e :: 'b result) (I R s')"
  using gains_run [of E I m G P R s s' "Inl e"] by (cases e) auto

lemma gains_check:
  assumes "r = Inr () \<Longrightarrow> gains E I k G P" and "\<And>e. r = Inl e \<Longrightarrow> \<forall>x. e \<noteq> Error x \<Longrightarrow> E e"
  shows "gains E I (seqM (check r) k) G P"
proof (cases r)
  case (Inl e)
  then show ?thesis using assms(2) by (cases e) (auto simp: gains_def wp_rules)
next
  case (Inr u)
  then show ?thesis using assms(1) by (simp add: gains_def wp_rules)
qed

lemma gains_ignore: "gains E I m G P \<Longrightarrow> gains E I (ignore m) G P"
  by (rule gainsI) (auto simp: ignore_def bindM_def ret_def dest: gains_Inr gains_Inl split: prod.splits sum.splits)

lemma gains_bind:
  assumes m: "gains E I m G P"
    and k: "\<And>R s. P \<Longrightarrow> G \<subseteq> R \<Longrightarrow> I R s \<Longrightarrow>
      wp k (\<lambda>r s'. outcome E r (if \<not> isl r then I (R \<union> G') s' \<and> P' else I R s')) s"
    and mono: "\<And>R R' s. R \<subseteq> R' \<Longrightarrow> I R' s \<Longrightarrow> I R s"
  shows "gains E I (seqM m k) (G \<union> G') (P \<and> P')"
  unfolding gains_def
proof (intro allI impI wpI)
  fix R s s' r assume I: "I R s" and run: "seqM m k s = (s', r)"
  show "outcome E r (if \<not> isl r then I (R \<union> (G \<union> G')) s' \<and> P \<and> P' else I R s')"
  proof (cases "snd (m s)")
    case (Inl e)
    then have "m s = (s', Inl e)" and "r = Inl e"
      using run by (auto simp: seqM_def bindM_def split: prod.splits)
    with gains_Inl [OF m I] show ?thesis by auto
  next
    case (Inr u)
    then obtain s1 where "m s = (s1, Inr u)" and k1: "k s1 = (s', r)"
      using run by (auto simp: seqM_def bindM_def split: prod.splits)
    with gains_Inr [OF m I] have s1: "I (R \<union> G) s1" and P by auto
    then have "outcome E r (if \<not> isl r then I (R \<union> G \<union> G') s' \<and> P' else I (R \<union> G) s')"
      using wpD [OF k k1] by auto
    then show ?thesis using mono [of R "R \<union> G" s'] \<open>P\<close>
      by (auto simp: Un_assoc elim: outcome_mono)
  qed
qed

lemma gains_seq:
  assumes "gains E I m G P" and "gains E I k G' P'" and "\<And>R R' s. R \<subseteq> R' \<Longrightarrow> I R' s \<Longrightarrow> I R s"
  shows "gains E I (seqM m k) (G \<union> G') (P \<and> P')"
  by (rule gains_bind [OF assms(1) _ assms(3)]) (use assms(2) in \<open>simp_all add: gains_def\<close>)

lemma gains_keeps: "(\<And>R. keeps E (I R) m) \<Longrightarrow> gains E I m {} True"
  by (simp only: gains_def keeps_def Un_empty_right simp_thms if_cancel) simp

lemma gains_keeps_all:
  assumes g: "gains E I m G P" and mono: "\<And>R R' s. R \<subseteq> R' \<Longrightarrow> I R' s \<Longrightarrow> I R s"
  shows "keeps E (I R) m"
proof (rule keepsI, rule wpI)
  fix s s' r assume I: "I R s" and m: "m s = (s', r)"
  show "outcome E r (I R s')"
    using gains_run [where m = m, OF g I m] mono [of R "R \<union> G" s']
    by (auto elim!: outcome_mono split: if_splits)
qed

lemma gains_const: "keeps E J m \<Longrightarrow> gains E (\<lambda>_. J) m G True"
  by (simp only: gains_def keeps_def simp_thms if_cancel)

lemma gains_then:
  assumes "gains E I m G P" and "\<And>R. P \<Longrightarrow> G \<subseteq> R \<Longrightarrow> keeps E (I R) k"
    and "\<And>R R' s. R \<subseteq> R' \<Longrightarrow> I R' s \<Longrightarrow> I R s"
  shows "gains E I (seqM m k) G P"
proof -
  have "gains E I (seqM m k) (G \<union> {}) (P \<and> True)"
  proof (rule gains_bind [OF assms(1) _ assms(3)])
    fix R s assume P and "G \<subseteq> R" and "I R s"
    then show "wp k (\<lambda>r s'. outcome E r (if \<not> isl r then I (R \<union> {}) s' \<and> True else I R s')) s"
      using keepsD [OF assms(2)] by (simp only: Un_empty_right simp_thms if_cancel)
  qed
  then show ?thesis by simp
qed

lemma gains_forM:
  assumes "\<And>x. x \<in> set xs \<Longrightarrow> gains E I (f x) (g x) (P x)"
    and "\<And>R R' s. R \<subseteq> R' \<Longrightarrow> I R' s \<Longrightarrow> I R s"
  shows "gains E I (forM f xs) (\<Union>x \<in> set xs. g x) (\<forall>x \<in> set xs. P x)"
  using assms
proof (induction xs)
  case Nil
  then show ?case by (simp add: gains_def wp_rules)
next
  case (Cons x xs)
  then have "gains E I (seqM (f x) (forM f xs)) (g x \<union> (\<Union>x \<in> set xs. g x)) (P x \<and> (\<forall>x \<in> set xs. P x))"
    using Cons.IH Cons.prems by (intro gains_seq) auto
  then show ?case by simp
qed

text \<open>What the operations owe to an invariant while the message of a view is processed.\<close>

locale view_invariant =
  fixes c :: config and E :: "go_error \<Rightarrow> bool" and I :: "request set \<Rightarrow> replica \<Rightarrow> bool"
  assumes I_mono: "R \<subseteq> R' \<Longrightarrow> I R' s \<Longrightarrow> I R s"
    and op_prepare: "req \<in> R \<Longrightarrow> keeps E (I R) (prepareReq req)"
    and op_collect: "lax E \<or> certified_ok y \<Longrightarrow> certified_reqs y \<subseteq> R \<Longrightarrow> keeps E (I R) (collectCommitment y)"
    and op_pending: "keeps E (I R) (applyPendingReqs c v)"
    and op_stop_prep: "keeps E (I R) (stopPrepTimer req)"
    and op_stop_vc: "keeps E (I R) stopVCTimer"
    and op_enter: "keeps E (I R) (enter_view v)"
    and op_gen_commit: "certified_reqs y \<subseteq> R \<Longrightarrow>
      keeps E (I R) (handleGeneratedMessage c (MCertified (NewCommit (cfg_id c) y)))"
    and op_vc: "vc_reqs vc \<subseteq> R \<Longrightarrow> keeps E (I R) (processViewChange c vc)"
begin

lemmas ops = op_prepare op_pending op_stop_prep op_stop_vc op_enter op_gen_commit op_vc

lemma applyPeerMessage_keeps:
  assumes "lax E \<or> certified_ok m" and "certified_reqs m \<subseteq> R" and "\<not> is_vc m"
  shows "keeps E (I R) (applyPeerMessage c m)"
proof (cases m)
  case (Prepare r v req u)
  then show ?thesis using assms op_collect [of m R]
    by (auto simp: applyPeerMessage_def applyPrepare_def intro!: keeps_intros ops)
next
  case (Commit r p u)
  then show ?thesis using assms op_collect [of m R]
    by (simp add: applyPeerMessage_def)
next
  case (NewView r v cert u)
  then have "lax E \<or> (\<forall>vc \<in> set cert. vc_ok vc)" "(\<Union>vc \<in> set cert. vc_reqs vc) \<subseteq> R"
    using assms by auto
  then show ?thesis using NewView assms op_collect [of m R]
    by (auto simp: applyPeerMessage_def applyNewView_def
        intro!: keeps_intros ops keeps_extract)
qed (use assms in simp)

lemma view_for_keeps:
  assumes "lax E \<or> certified_ok m" and "\<not> is_vc m"
  shows "keeps E (I R) (view_for m)"
proof -
  have hold: "keeps E (I R) (hold_view_for v)" for v
    by (auto simp: hold_view_for_def split_def intro!: keeps_intros)
  show ?thesis
  proof (cases m)
    case (Commit r p u)
    then show ?thesis using assms hold
      by (cases p) (auto simp: view_for_def laxD intro!: keeps_throw)
  qed (use assms hold op_enter in \<open>auto simp: view_for_def\<close>)
qed

lemma processViewMessage_keeps:
  assumes "lax E \<or> certified_ok m" and "certified_reqs m \<subseteq> R" and "\<not> is_vc m"
  shows "keeps E (I R) (processViewMessage c m)"
  unfolding processViewMessage_def
  using view_for_keeps [OF assms(1,3)] applyPeerMessage_keeps [OF assms]
  by (auto intro!: keeps_intros split: option.split)

lemma processBody_keeps:
  assumes "lax E \<or> certified_ok m" and "certified_reqs m \<subseteq> R"
  shows "keeps E (I R) (case m of CViewChange vc \<Rightarrow> processViewChange c vc | _ \<Rightarrow> processViewMessage c m)"
  using processViewMessage_keeps [of m R] assms op_vc by (cases m) auto

end

text \<open>What they owe to it while any message is handled.\<close>

locale replica_invariant = view_invariant c E I
  for c :: config and E :: "go_error \<Rightarrow> bool" and I :: "request set \<Rightarrow> replica \<Rightarrow> bool" +
  fixes val :: "message \<Rightarrow> unit result"
  assumes val_panic: "peer_kind m \<Longrightarrow> val m = Inl e \<Longrightarrow> \<forall>x. e \<noteq> Error x \<Longrightarrow> E e"
    and val_certified: "lax E \<or> (val (MCertified y) = Inr () \<longrightarrow> shallow_ok c y)"
    and val_rvc: "lax E \<or> (val (MReqViewChange rvc) = Inr () \<longrightarrow> rvc_ReplicaID rvc < cfg_n c)"
    and lastUI_length: "I R s \<Longrightarrow> lax E \<or> length (rs_lastUI s) = unat (cfg_n c)"
    and op_request: "val (MRequest req) = Inr () \<Longrightarrow> gains E I (processRequest c req) {req} True"
    and op_rvc: "keeps E (I R) (processReqViewChange c rvc)"
    and op_lastUI: "I R s \<Longrightarrow> I R (s\<lparr>rs_lastUI := (rs_lastUI s)[k := x]\<rparr>)"
begin

lemma processCertified_keeps:
  assumes "lax E \<or> certified_ok m \<and> ReplicaID m < cfg_n c" and "certified_reqs m \<subseteq> R"
  shows "keeps E (I R) (processCertifiedMessage c m)"
proof -
  note body = processBody_keeps [of m R]
  have upd: "keeps E (I R) (modify (\<lambda>s. s\<lparr>rs_lastUI := (rs_lastUI s)[k := x]\<rparr>))" for k x
    by (rule keeps_modify) (rule op_lastUI)
  have go: "keeps E (I R) (bindM (case m of CViewChange vc \<Rightarrow> processViewChange c vc | _ \<Rightarrow> processViewMessage c m)
      (\<lambda>new. seqM (modify (\<lambda>s. s\<lparr>rs_lastUI := (rs_lastUI s)[k := x]\<rparr>)) (ret new)))" for k x
    using assms by (intro keeps_bindM keeps_seqM keeps_ret body upd) auto
  have bound: "lax E \<or> unat (ReplicaID m) < length (rs_lastUI s)" if "I R s" for s
    using assms(1) lastUI_length [OF that] by (auto simp: word_less_nat_alt)
  show ?thesis
    unfolding processCertifiedMessage_def
  proof (rule keeps_gets_bindM)
    fix s assume I: "I R s"
    show "wp (let i = unat (ReplicaID m); nextUI = rs_lastUI s ! i + 1
       in if i \<ge> length (rs_lastUI s) then throw (Panic ''index out of range'')
          else if Counter (UI m) < nextUI then ret False
          else if Counter (UI m) > nextUI then throw (Error ''unexpected UI counter value'')
          else bindM (case m of CViewChange vc \<Rightarrow> processViewChange c vc | _ \<Rightarrow> processViewMessage c m)
                 (\<lambda>new. seqM (modify (\<lambda>s. s\<lparr>rs_lastUI := (rs_lastUI s)[i := nextUI]\<rparr>)) (ret new)))
      (\<lambda>r s'. outcome E r (I R s')) s"
      using bound [OF I] I keepsD [OF go I]
      by (cases "unat (ReplicaID m) < length (rs_lastUI s)")
        (auto simp: Let_def wp_ret wp_throw laxD)
  qed
qed

lemma processMessage_keeps:
  assumes "lax E \<or> certified_ok m \<and> ReplicaID m < cfg_n c" and "certified_reqs m \<subseteq> R"
  shows "keeps E (I R) (processMessage c (MCertified m))"
  using assms processCertified_keeps [of m R]
  by (auto simp: processMessage_def not_le [symmetric] laxD intro!: keeps_if keeps_throw)

lemma handle_request_gains: "gains E I (handle_leaf val c (MRequest req)) {req} True"
  unfolding handle_leaf_def
proof (rule gains_check)
  assume "val (MRequest req) = Inr ()"
  then show "gains E I (processMessage c (MRequest req)) {req} True"
    using op_request by (simp add: processMessage_def)
qed (rule val_panic [rotated], auto)

lemma handle_rvc_gains: "gains E I (handle_leaf val c (MReqViewChange rvc)) {} True"
  unfolding handle_leaf_def
proof (rule gains_check)
  assume "val (MReqViewChange rvc) = Inr ()"
  then have "keeps E (I R) (processMessage c (MReqViewChange rvc))" for R
    using val_rvc [of rvc] op_rvc by (auto simp: processMessage_def not_le [symmetric] laxD intro!: keeps_if keeps_throw)
  then show "gains E I (processMessage c (MReqViewChange rvc)) {} True" by (rule gains_keeps)
qed (rule val_panic [rotated], auto)

lemma handleCertified_gains:
  assumes "v = val" and "d = c"
  shows "gains E I (handleCertified v d m) (certified_reqs m) (lax E \<or> certified_ok m)"
  using assms
proof (induction v d m rule: handleCertified.induct)
  case (1 v d r view req u)
  let ?m = "Prepare r view req u"
  have "gains E I (ignore (handle_leaf val c (MRequest req))) {req} True"
    by (rule gains_ignore) (rule handle_request_gains)
  then have "gains E I (seqM (ignore (handle_leaf val c (MRequest req))) (processMessage c (MCertified ?m))) {req} True"
    if "val (MCertified ?m) = Inr ()"
    by (rule gains_then) (use val_certified [of ?m] that I_mono in
      \<open>auto intro!: processMessage_keeps simp: shallow_ok_def\<close>)
  then show ?case using 1 by (auto simp: Let_def intro!: gains_check val_panic)
next
  case (2 v d r p u)
  let ?m = "Commit r p u"
  have "gains E I (ignore (handleCertified val c p)) (certified_reqs p) (lax E \<or> certified_ok p)"
    by (rule gains_ignore) (use 2 in simp)
  then have "gains E I (seqM (ignore (handleCertified val c p)) (processMessage c (MCertified ?m)))
      (certified_reqs p) (lax E \<or> certified_ok p)" if "val (MCertified ?m) = Inr ()"
    by (rule gains_then) (use val_certified [of ?m] that I_mono in
      \<open>auto intro!: processMessage_keeps simp: shallow_ok_def\<close>)
  then show ?case using 2 val_certified [of ?m]
    by (auto simp: Let_def shallow_ok_def intro!: gains_check val_panic)
next
  case (3 v d r newView l vcCert u)
  let ?m = "CViewChange (ViewChange r newView l vcCert u)"
  have rvcs: "gains E I (forM (\<lambda>rvc. ignore (handle_leaf val c (MReqViewChange rvc))) vcCert) {} True"
    using gains_forM [of vcCert E I "\<lambda>rvc. ignore (handle_leaf val c (MReqViewChange rvc))" "\<lambda>_. {}" "\<lambda>_. True"]
      gains_ignore [OF handle_rvc_gains] I_mono by simp
  have msgs: "gains E I (forM (\<lambda>x. ignore (handleCertified val c x)) l)
      (\<Union>x \<in> set l. certified_reqs x) (\<forall>x \<in> set l. lax E \<or> certified_ok x)"
    by (rule gains_forM) (use 3 I_mono in \<open>auto intro: gains_ignore\<close>)
  have "gains E I (seqM (forM (\<lambda>x. ignore (handleCertified val c x)) l) (processMessage c (MCertified ?m)))
      (\<Union>x \<in> set l. certified_reqs x) (\<forall>x \<in> set l. lax E \<or> certified_ok x)"
    if "val (MCertified ?m) = Inr ()"
    by (rule gains_then [OF msgs]) (use val_certified [of ?m] that I_mono in
      \<open>auto intro!: processMessage_keeps simp: shallow_ok_def\<close>)
  from gains_seq [OF rvcs this I_mono] show ?case using "3.prems" val_certified [of ?m]
    by (auto simp: Let_def shallow_ok_def intro!: gains_check val_panic)
next
  case (4 v d r newView nvCert u)
  let ?m = "NewView r newView nvCert u"
  have vcs: "gains E I (forM (\<lambda>vc. ignore (handleCertified val c (CViewChange vc))) nvCert)
      (\<Union>vc \<in> set nvCert. vc_reqs vc) (\<forall>vc \<in> set nvCert. lax E \<or> vc_ok vc)"
    by (rule gains_forM) (use 4 I_mono in \<open>auto intro: gains_ignore\<close>)
  have "gains E I (seqM (forM (\<lambda>vc. ignore (handleCertified val c (CViewChange vc))) nvCert)
      (processMessage c (MCertified ?m)))
      (\<Union>vc \<in> set nvCert. vc_reqs vc) (\<forall>vc \<in> set nvCert. lax E \<or> vc_ok vc)"
    if "val (MCertified ?m) = Inr ()"
    by (rule gains_then [OF vcs]) (use val_certified [of ?m] that I_mono in
      \<open>auto intro!: processMessage_keeps simp: shallow_ok_def\<close>)
  then show ?case using 4 val_certified [of ?m]
    by (auto simp: Let_def shallow_ok_def intro!: gains_check val_panic)
qed

lemma handleMessage_keeps:
  assumes "lax E \<or> peer_kind m"
  shows "keeps E (I R) (handleMessage val c m)"
proof -
  have junk: "keeps E (I R) (seqM (check (val m)) (throw (Panic ''Unknown message type'')))" if "lax E"
    by (intro keeps_seqM keeps_check keeps_throw) (simp_all add: laxD that)
  show ?thesis
    using assms junk gains_keeps_all [OF handleCertified_gains [OF refl refl] I_mono]
      gains_keeps_all [OF handle_request_gains I_mono] gains_keeps_all [OF handle_rvc_gains I_mono]
    by (cases m) (auto simp: handleMessage_def)
qed

end

section \<open>Invariants of the transition system\<close>

abbreviation any_panic :: "go_error \<Rightarrow> bool" where
  "any_panic \<equiv> (\<lambda>_. True)"

lemma lax_any [simp]: "lax any_panic"
  by (simp add: lax_def)

lemma run_on_keeps:
  assumes "keeps any_panic J m" and "J (nd_replica x)" and "run_on m x = (x', r)" and "\<not> is_panic r"
  shows "J (nd_replica x')"
proof -
  obtain s1 r1 where m: "m (nd_replica x) = (s1, r1)" by fastforce
  have "outcome any_panic r1 (J s1)" using keeps_run [OF assms(1,2) m] .
  moreover have "\<not> is_panic r1" and "x' = x\<lparr>nd_replica := s1\<rparr>"
    using assms(3,4) m by (auto simp: run_on_def is_panic_def split: sum.splits)
  ultimately show ?thesis by (auto dest: outcome_no_panic)
qed

text \<open>
  What the operations owe to an invariant of the whole replica. The conclusion is that every
  event keeps it.
\<close>

locale node_invariant =
  fixes c :: config and J :: "replica \<Rightarrow> bool"
  assumes op_request: "keeps any_panic J (processRequest c req)"
    and op_prepare: "keeps any_panic J (prepareReq req)"
    and op_collect: "keeps any_panic J (collectCommitment y)"
    and op_pending: "keeps any_panic J (applyPendingReqs c v)"
    and op_stop_prep: "keeps any_panic J (stopPrepTimer req)"
    and op_stop_vc: "keeps any_panic J stopVCTimer"
    and op_enter: "keeps any_panic J (enter_view v)"
    and op_gen_commit: "keeps any_panic J (handleGeneratedMessage c (MCertified (NewCommit (cfg_id c) y)))"
    and op_rvc: "keeps any_panic J (processReqViewChange c rvc)"
    and op_vc: "keeps any_panic J (processViewChange c vc)"
    and op_lastUI: "J s \<Longrightarrow> J (s\<lparr>rs_lastUI := (rs_lastUI s)[k := x]\<rparr>)"
    and op_request_timer: "keeps any_panic J (expireRequestTimer c cid h)"
    and op_prepare_timer: "keeps any_panic J (expirePrepareTimer c cid h)"
    and op_vc_timer: "keeps any_panic J (expireVCTimer c h)"
    and op_finish: "keeps any_panic J (finishExecution c k res)"
    and op_stop: "keeps any_panic J stopTimers"

sublocale node_invariant \<subseteq> hm: replica_invariant c any_panic "\<lambda>_. J" val for val
  by unfold_locales
    (use op_prepare op_collect op_pending op_stop_prep op_stop_vc op_enter op_gen_commit
      op_rvc op_vc op_lastUI gains_const [OF op_request] in simp_all)

context node_invariant
begin

lemma client_keeps: "keeps any_panic J (handleClientMessage c m)"
  unfolding handleClientMessage_def replyRequest_def
  by (cases m) (auto intro!: keeps_intros keeps_check op_request)

lemma own_keeps: "keeps any_panic J (handleOwnPeerMessage c m)"
proof (rule keepsI, rule wpI)
  fix s s' r assume J: "J s" and run: "handleOwnPeerMessage c m s = (s', r)"
  obtain s1 r1 where 1: "handleOwnMessage c m s = (s1, r1)" by fastforce
  have "outcome any_panic r1 (J s1)"
    using keeps_run [OF hm.handleMessage_keeps [OF disjI1 [OF lax_any]] J] 1 by (simp add: handleOwnMessage_def)
  then show "outcome any_panic r (J s')"
    using run 1 by (auto simp: handleOwnPeerMessage_def must_def outcome_def split: sum.splits go_error.splits)
qed

theorem step_keeps:
  assumes "node_step c x e x'" and "J (nd_replica x)"
  shows "J (nd_replica x')"
  using assms
proof (cases rule: node_step.cases)
  case (node_step r)
  note run = run_on_keeps [OF _ _ _ node_step(2)]
  show ?thesis
  proof (cases e)
    case EvOwn
    then show ?thesis using node_step(1) assms(2)
      by (auto simp: own_next_def split: stream_pc.splits list.splits dest: run [OF own_keeps, rotated])
  next
    case EvStream
    then show ?thesis using node_step(1) assms(2)
      by (auto simp: stream_move_def split: sum.splits)
  next
    case (EvPeer m)
    then show ?thesis using node_step(1) assms(2) run [OF hm.handleMessage_keeps [OF disjI1 [OF lax_any]]]
      by (simp add: handlePeerMessage_def)
  qed (use node_step(1) assms(2) in \<open>auto dest: run [OF client_keeps, rotated]
        run [OF op_request_timer, rotated] run [OF op_prepare_timer, rotated]
        run [OF op_vc_timer, rotated] run [OF op_finish, rotated] run [OF op_stop, rotated]\<close>)
qed

theorem reach_keeps: "node_reach c x \<Longrightarrow> J (new_replica c) \<Longrightarrow> J (nd_replica x)"
  by (induction rule: node_reach.induct) (auto simp: new_node_def intro: step_keeps)

end

section \<open>Invariants on a part of the state\<close>

lemma keeps_upd_client:
  "(\<And>s. J s \<Longrightarrow> J (s\<lparr>rs_clients := with_client cid f (rs_clients s)\<rparr>)) \<Longrightarrow> keeps E J (upd_client cid f)"
  by (simp add: upd_client_def keeps_modify)

lemma keeps_on_seq:
  "(\<And>s q. J s \<Longrightarrow> J (s\<lparr>rs_clients := with_client cid (\<lambda>k. k\<lparr>cs_seq := q\<rparr>) (rs_clients s)\<rparr>)) \<Longrightarrow>
   keeps any_panic J (on_seq cid m)"
  by (auto simp: keeps_def wp_def on_seq_def outcome_def split: prod.splits sum.splits go_error.splits)

lemma keeps_must: "keeps any_panic J m \<Longrightarrow> keeps any_panic J (must m)"
  by (auto simp: keeps_def wp_def must_def outcome_def split: prod.splits sum.splits go_error.splits)

lemma outcome_conj: "outcome E r P \<Longrightarrow> outcome any_panic r Q \<Longrightarrow> outcome E r (P \<and> Q)"
  by (auto simp: outcome_def split: sum.splits go_error.splits)

lemma keeps_conj: "keeps E I m \<Longrightarrow> keeps any_panic J m \<Longrightarrow> keeps E (\<lambda>s. I s \<and> J s) m"
  unfolding keeps_def wp_def by (blast intro: outcome_conj)

lemma gains_conj:
  assumes "gains E I m G P" and "keeps any_panic J m"
  shows "gains E (\<lambda>R s. I R s \<and> J s) m G P"
  unfolding gains_def
proof (intro allI impI wpI)
  fix R s s' r assume s: "I R s \<and> J s" and m: "m s = (s', r)"
  have "outcome E r ((if \<not> isl r then I (R \<union> G) s' \<and> P else I R s') \<and> J s')"
    using gains_run [OF assms(1) _ m] keeps_run [OF assms(2) _ m] s by (intro outcome_conj) auto
  then show "outcome E r (if \<not> isl r then (I (R \<union> G) s' \<and> J s') \<and> P else I R s' \<and> J s')"
    by (rule outcome_mono) auto
qed

lemma keeps_ignore: "keeps E J m \<Longrightarrow> keeps E J (ignore m)"
  unfolding ignore_def by (intro keeps_intros)

text \<open>
  Invariants that speak of the views, the log, the USIG, the collectors and the replies only.
  \<open>frame_result\<close> is the effect of a result that a pending execution returns.
\<close>

locale framed =
  fixes J :: "replica \<Rightarrow> bool"
  assumes frame: "J s \<Longrightarrow> J (s\<lparr>rs_pending := l\<rparr>)" "J s \<Longrightarrow> J (s\<lparr>rs_prepared := l\<rparr>)"
      "J s \<Longrightarrow> J (s\<lparr>rs_vcTimer := t\<rparr>)" "J s \<Longrightarrow> J (s\<lparr>rs_requested := v\<rparr>)"
    and frame_unicast: "J s \<Longrightarrow> rs_unicast s p = Some k \<Longrightarrow> J (s\<lparr>rs_unicast := (rs_unicast s)(p \<mapsto> Append m k)\<rparr>)"
    and frame_clients: "(\<And>k. cs_reply (f k) = cs_reply k) \<Longrightarrow> J s \<Longrightarrow>
      J (s\<lparr>rs_clients := with_client cid f (rs_clients s)\<rparr>)"
    and frame_result: "J s \<Longrightarrow> i < length (rs_executing s) \<Longrightarrow>
      rs_executing s ! i = (rep_ClientID rep, rep_Sequence rep) \<Longrightarrow>
      J (s\<lparr>rs_executing := take i (rs_executing s) @ drop (Suc i) (rs_executing s),
           rs_clients := with_client (rep_ClientID rep) (\<lambda>k. k\<lparr>cs_reply := AddReply rep (cs_reply k)\<rparr>) (rs_clients s)\<rparr>)"
begin

lemma frame_client: "(\<And>k. cs_reply (f k) = cs_reply k) \<Longrightarrow> keeps any_panic J (upd_client cid f)"
  by (intro keeps_upd_client frame_clients)

lemma frame_seq: "keeps any_panic J (on_seq cid m)"
  by (intro keeps_on_seq frame_clients) simp_all

lemma finish: "keeps any_panic J (finishExecution c i res)"
proof (rule keepsI)
  fix s assume s: "J s"
  show "wp (finishExecution c i res) (\<lambda>r s'. outcome any_panic r (J s')) s"
  proof (cases "i < length (rs_executing s)")
    case True
    obtain cid q where x: "rs_executing s ! i = (cid, q)" by fastforce
    show ?thesis
    proof (cases "sign_reply c (NewReply (cfg_id c) cid q res)")
      case (Inl e)
      then have "\<exists>x. e = Panic x" by (auto simp: sign_reply_def sign_bytes_def split: sum.splits)
      with Inl True x show ?thesis by (auto simp: finishExecution_def Let_def handleGeneratedMessage_def wp_rules)
    next
      case (Inr rep)
      then have "rep_ClientID rep = cid" "rep_Sequence rep = q"
        by (auto simp: sign_reply_def NewReply_def split: sum.splits)
      then show ?thesis using True x Inr frame_result [OF s True, of rep]
        by (simp add: finishExecution_def Let_def handleGeneratedMessage_def consumeGeneratedMessage_def
            upd_client_def wp_rules)
    qed
  qed (use s in \<open>simp add: finishExecution_def wp_rules\<close>)
qed

lemma frame_unprepare:
  assumes "J s"
  shows "wp (unprepareReqs c) (\<lambda>r s'. case r of Inl e \<Rightarrow> False | Inr _ \<Rightarrow> J s') s"
  unfolding unprepareReqs_def wp_bindM wp_gets sum.case
  by (rule wp_forM [where I = J and E = "\<lambda>_ _. False"])
    (auto simp: unprepareReq_def on_seq_def wp_rules wp_def [of "on_seq i m" for i m] intro!: frame frame_clients assms)

lemma frame_vc_timer: "keeps any_panic J stopVCTimer"
  unfolding stopVCTimer_def by (intro keeps_modify frame)

lemma stop: "keeps any_panic J stopTimers"
  unfolding stopTimers_def by (intro keeps_intros frame_client frame_vc_timer) (simp add: StopAllTimers_def)

text \<open>The common part of starting a view change, up to the message that is generated last.\<close>

lemma frame_start:
  assumes "J s" and "\<And>s'. J s' \<Longrightarrow> wp k Q s'"
  shows "wp (seqM (startVCTimer nv) (seqM (unprepareReqs c) k)) Q s"
proof -
  have "J (s\<lparr>rs_vcTimer := backoff_Start nv (rs_vcTimer s)\<rparr>)" using assms(1) by (rule frame)
  from frame_unprepare [OF this] show ?thesis
    unfolding wp_seqM startVCTimer_def wp_modify sum.case
    by (rule wp_mono) (use assms(2) in \<open>auto split: sum.splits\<close>)
qed

end

locale framed_commitments = framed +
  assumes frame_commitments: "J s \<Longrightarrow> J (s\<lparr>rs_commitments := cm\<rparr>)" "J s \<Longrightarrow> J (s\<lparr>rs_accepted := h\<rparr>)"
    and frame_deliver: "J s \<Longrightarrow> J (s\<lparr>rs_delivered := rs_delivered s @ [req],
      rs_executing := rs_executing s @ [(req_ClientID req, req_Sequence req)]\<rparr>)"
begin

lemma frame_collect: "keeps any_panic J (collectCommitment m)"
proof (rule collect_parts [OF _ _ _ _ order_refl])
  show "keeps any_panic J (executeRequest req)" for req
    unfolding executeRequest_def retireReq_def stopReqTimer_def
    by (intro keeps_intros keeps_must frame_seq frame_client keeps_modify)
      (auto intro: frame frame_deliver)
  show "keeps any_panic J (on_commitments (commitment_done i nv v cv rcv))" for i nv v cv rcv
    by (auto simp: keeps_def wp_def on_commitments_def outcome_def intro!: frame_commitments
        split: prod.splits sum.splits go_error.splits)
qed (simp_all add: frame_commitments)

end

locale core_frame = framed +
  fixes c :: config
  assumes gen_prepare: "keeps any_panic J (handleGeneratedMessage c (MCertified (NewPrepare (cfg_id c) v req)))"
    and gen_commit: "keeps any_panic J (handleGeneratedMessage c (MCertified (NewCommit (cfg_id c) y)))"
    and gen_rvc: "keeps any_panic J (handleGeneratedMessage c (MReqViewChange rvc))"
    and enter: "keeps any_panic J (enter_view v)"
    and rvc: "keeps any_panic J (processReqViewChange c rvc)"
    and vc: "keeps any_panic J (processViewChange c vc)"
begin

lemma stop_prep: "keeps any_panic J (stopPrepTimer req)"
  unfolding stopPrepTimer_def by (rule frame_client) simp

lemma apply_request: "keeps any_panic J (applyRequest c req v)"
  unfolding applyRequest_def startReqTimer_def startPrepTimer_def
  by (intro keeps_intros frame_client gen_prepare) simp_all

lemma apply_pending: "keeps any_panic J (applyPendingReqs c v)"
  unfolding applyPendingReqs_def by (intro keeps_intros apply_request)

lemma process_request: "keeps any_panic J (processRequest c req)"
  unfolding processRequest_def captureReq_def releaseReq_def split_def
  by (intro keeps_intros frame_seq apply_request)
    (auto split: capture.splits intro!: keeps_intros keeps_throw keeps_modify frame)

lemma prepare_request: "keeps any_panic J (prepareReq req)"
  unfolding prepareReq_def
  by (intro keeps_intros keeps_must frame_seq keeps_modify) (rule frame(1) [OF frame(2)])

lemma request_view_change: "keeps any_panic J (requestViewChange c v)"
  unfolding requestViewChange_def split_def
  by (intro keeps_intros gen_rvc keeps_modify frame)

lemma expire_request: "keeps any_panic J (expireRequestTimer c cid h)"
  unfolding expireRequestTimer_def handleReqTimeout_def
  by (auto split: option.splits intro!: keeps_intros frame_client keeps_ignore request_view_change)

lemma prep_timeout: "keeps any_panic J (handlePrepTimeout c req v)"
  unfolding handlePrepTimeout_def Let_def
  by (rule keeps_gets_bindM) (auto simp: wp_rules frame_unicast split: option.splits)

lemma expire_prepare: "keeps any_panic J (expirePrepareTimer c cid h)"
  unfolding expirePrepareTimer_def
  by (auto split: option.splits intro!: keeps_intros frame_client prep_timeout)

lemma expire_vc: "keeps any_panic J (expireVCTimer c h)"
  unfolding expireVCTimer_def handleViewChangeTimeout_def
  by (auto split: option.splits intro!: keeps_intros keeps_modify frame keeps_ignore request_view_change)

end

locale core_view = core_frame +
  assumes collect: "keeps any_panic J (collectCommitment y)"

sublocale core_view \<subseteq> body: view_invariant c any_panic "\<lambda>_. J"
  by unfold_locales (simp_all add: prepare_request collect apply_pending enter gen_commit vc
      frame_vc_timer stop_prep)

locale core_invariant = core_view +
  assumes frame_lastUI: "J s \<Longrightarrow> J (s\<lparr>rs_lastUI := (rs_lastUI s)[k := u]\<rparr>)"

sublocale core_invariant \<subseteq> node_invariant c J
  by unfold_locales (fact process_request prepare_request collect apply_pending enter gen_commit
    rvc vc frame_lastUI expire_request expire_prepare expire_vc finish stop frame_vc_timer stop_prep)+

lemma wp_startViewChange:
  "wp (startViewChange c nv cert) Q s =
     (if expectedView (rs_view s) < nv
      then wp (seqM (startVCTimer nv) (seqM (unprepareReqs c)
             (seqM (handleGeneratedMessage c (MCertified
                (NewViewChange (cfg_id c) nv (certified_msgs (Messages (rs_log s))) cert))) (ret True)))) Q
             (s\<lparr>rs_view := (rs_view s)\<lparr>expectedView := nv\<rparr>, rs_log := Reset [] (rs_log s)\<rparr>)
      else Q (Inr False) s)"
  by (simp add: startViewChange_def AdvanceExpectedView_def wp_gets wp_modify wp_ret
      wp_bindM [of "gets f" for f] wp_seqM [of "modify f" for f])

lemma wp_processReqViewChange:
  "wp (processReqViewChange c rvc) Q s =
     (case collectReqViewChange (viewChangeCertSize c) rvc (rs_rvcs s) of
        (k, new, None) \<Rightarrow> Q (Inr new) (s\<lparr>rs_rvcs := k\<rparr>)
      | (k, new, Some cert) \<Rightarrow> wp (startViewChange c (rvc_NewView rvc) cert) Q (s\<lparr>rs_rvcs := k\<rparr>))"
  by (simp add: processReqViewChange_def wp_gets wp_modify wp_ret wp_bindM [of "gets f" for f]
      wp_seqM [of "modify f" for f] split: prod.splits option.splits)

text \<open>Invariants that do not depend on views, log, USIG and collectors either.\<close>

locale inert_frame = framed +
  assumes inert: "J s \<Longrightarrow> J (s\<lparr>rs_view := vw\<rparr>)" "J s \<Longrightarrow> J (s\<lparr>rs_log := l\<rparr>)" "J s \<Longrightarrow> J (s\<lparr>rs_usig := n\<rparr>)"
      "J s \<Longrightarrow> J (s\<lparr>rs_rvcs := k\<rparr>)" "J s \<Longrightarrow> J (s\<lparr>rs_vcs := k'\<rparr>)"
begin

lemma inert_gen: "(\<And>r. m \<noteq> MReply r) \<Longrightarrow> keeps any_panic J (handleGeneratedMessage c m)"
  unfolding handleGeneratedMessage_def consumeGeneratedMessage_def
  by (auto split: message.splits intro!: keeps_intros keeps_check keeps_throw keeps_modify frame_client inert)

lemma inert_start: "keeps any_panic J (startViewChange c nv cert)"
proof (rule keepsI)
  fix s assume s: "J s"
  have "wp (seqM (handleGeneratedMessage c m) (ret True)) (\<lambda>r s'. outcome any_panic r (J s')) s'"
    if "J s'" "\<And>r. m \<noteq> MReply r" for m s'
    by (intro keepsD [OF keeps_seqM] inert_gen keeps_ret that)
  then show "wp (startViewChange c nv cert) (\<lambda>r s'. outcome any_panic r (J s')) s"
    unfolding wp_startViewChange using s by (auto intro!: frame_start inert)
qed

end

sublocale inert_frame \<subseteq> core_frame J c for c
proof unfold_locales
  show "keeps any_panic J (processReqViewChange c rvc)" for rvc
    by (rule keepsI) (auto simp: wp_processReqViewChange split: prod.splits option.splits
        intro!: keepsD [OF inert_start] inert)
  show "keeps any_panic J (processViewChange c vc)" for vc
    unfolding processViewChange_def processNewViewCert_def split_def
    by (auto intro!: keeps_intros keeps_modify inert_gen inert split: option.splits)
  show "keeps any_panic J (enter_view nv)" for nv
    unfolding enter_view_def split_def
    by (auto intro!: keeps_intros keeps_modify inert split: option.splits)
qed (rule inert_gen, simp)+

locale inert_view = inert_frame +
  assumes inert_collect: "keeps any_panic J (collectCommitment y)"

sublocale inert_view \<subseteq> core_view J c for c
  by unfold_locales (fact inert_collect)

locale inert_invariant = inert_view +
  assumes inert_lastUI: "J s \<Longrightarrow> J (s\<lparr>rs_lastUI := (rs_lastUI s)[k := u]\<rparr>)"

sublocale inert_invariant \<subseteq> core_invariant J c for c
  by unfold_locales (fact inert_lastUI)

section \<open>The table of the last identifiers\<close>

definition ui_len :: "config \<Rightarrow> replica \<Rightarrow> bool" where
  "ui_len c s \<longleftrightarrow> length (rs_lastUI s) = unat (cfg_n c)"

interpretation uf: framed_commitments "ui_len e" for e
  by unfold_locales (simp_all add: ui_len_def)

interpretation ul: inert_invariant "ui_len e" for e
  by unfold_locales (simp_all add: ui_len_def uf.frame_collect)

lemma ui_len_new: "ui_len c (new_replica c)"
  by (simp add: ui_len_def new_replica_def)

lemma reach_ui_len: "node_reach c x \<Longrightarrow> ui_len c (nd_replica x)"
  using ui_len_new by (rule ul.reach_keeps [rotated])

text \<open>Only the last step of \<open>processCertifiedMessage\<close> writes to the table.\<close>

definition ui_table :: "u64 list \<Rightarrow> replica \<Rightarrow> bool" where
  "ui_table us s \<longleftrightarrow> rs_lastUI s = us"

interpretation tf: framed_commitments "ui_table us" for us
  by unfold_locales (simp_all add: ui_table_def)

interpretation tb: inert_view "ui_table us" for us
  by unfold_locales (simp_all add: ui_table_def tf.frame_collect)

lemma body_keeps_table:
  assumes "(case m of CViewChange vc \<Rightarrow> processViewChange c vc | _ \<Rightarrow> processViewMessage c m) s = (s', Inr new)"
  shows "rs_lastUI s' = rs_lastUI s"
  using keeps_run [OF tb.body.processBody_keeps [of m UNIV "rs_lastUI s" c] _ assms]
  by (simp add: ui_table_def)

end
