(* ===== verification/OwnLog.thy ===== *)
theory OwnLog
  imports ReplicaInvariants
begin

text \<open>
  Two invariants of the reachable states: views never decrease, and the log that a replica keeps
  of its own messages always passes the validation that other replicas apply to it, so that the
  ViewChange messages it generates are valid.
\<close>

section \<open>Views never decrease\<close>

definition views_from :: "u64 \<Rightarrow> u64 \<Rightarrow> replica \<Rightarrow> bool" where
  "views_from v w s \<longleftrightarrow> v \<le> currentView (rs_view s) \<and> w \<le> expectedView (rs_view s)"

interpretation vf: framed_commitments "views_from v w" for v w
  by unfold_locales (simp_all add: views_from_def)

lemma views_from_simps [simp]:
  "views_from v w (s\<lparr>rs_clients := cl\<rparr>) = views_from v w s"
  "views_from v w (s\<lparr>rs_rvcs := k\<rparr>) = views_from v w s" "views_from v w (s\<lparr>rs_vcs := k'\<rparr>) = views_from v w s"
  "views_from v w (s\<lparr>rs_lastUI := us\<rparr>) = views_from v w s"
  "views_from v w (s\<lparr>rs_log := l\<rparr>) = views_from v w s" "views_from v w (s\<lparr>rs_usig := n\<rparr>) = views_from v w s"
  by (simp_all add: views_from_def)

lemma views_from_gen: "keeps any_panic (views_from v w) (handleGeneratedMessage c m)"
  unfolding handleGeneratedMessage_def consumeGeneratedMessage_def
  by (auto split: message.splits intro!: keeps_intros keeps_check keeps_throw keeps_modify keeps_upd_client
      simp: comp_def)

lemma views_from_start: "views_from v w s \<Longrightarrow>
    wp (startViewChange c nv cert) (\<lambda>r s'. outcome any_panic r (views_from v w s')) s"
  unfolding wp_startViewChange
  by (auto intro!: vf.frame_start [where v = v and w = w] keepsD [OF keeps_seqM] keeps_ret views_from_gen)
    (auto simp: views_from_def)

interpretation vc: core_invariant "views_from v w" c for v w c
proof unfold_locales
  show "keeps any_panic (views_from v w) (processReqViewChange c rvc)" for rvc
    by (rule keepsI)
      (auto simp: wp_processReqViewChange split: prod.splits option.splits intro!: views_from_start)
  show "keeps any_panic (views_from v w) (processViewChange c vc)" for vc
    unfolding processViewChange_def processNewViewCert_def split_def
    by (auto intro!: keeps_intros keeps_modify views_from_gen split: option.splits)
  show "keeps any_panic (views_from v w) (enter_view nv)" for nv
    unfolding enter_view_def
    by (rule keeps_gets_bindM)
      (auto simp: AdvanceCurrentView_def views_from_def wp_rules)
qed (auto intro: views_from_gen vf.frame_collect)

section \<open>Logs grow until they are reset\<close>

text \<open>What other replicas may read of a log: an earlier log is a prefix, unless the log was reset since.\<close>

definition log_grows :: "log_state \<Rightarrow> log_state \<Rightarrow> bool" where
  "log_grows l l' \<longleftrightarrow> resets l < resets l' \<or> resets l' = resets l \<and> (\<exists>ms. msgs l' = msgs l @ ms)"

definition logs_from :: "log_state \<Rightarrow> (u32 \<rightharpoonup> log_state) \<Rightarrow> replica \<Rightarrow> bool" where
  "logs_from l u s \<longleftrightarrow> log_grows l (rs_log s) \<and>
     (\<forall>p k. u p = Some k \<longrightarrow> (\<exists>k'. rs_unicast s p = Some k' \<and> log_grows k k'))"

lemma log_grows_refl [simp]: "log_grows l l"
  and log_grows_Append: "log_grows l l' \<Longrightarrow> log_grows l (Append m l')"
  and log_grows_Reset: "log_grows l l' \<Longrightarrow> log_grows l (Reset ms l')"
  by (auto simp: log_grows_def Append_def Reset_def)

lemma logs_from_refl: "logs_from (rs_log s) (rs_unicast s) s"
  by (simp add: logs_from_def)

lemma logs_from_log [simp]:
  "logs_from l u s \<Longrightarrow> logs_from l u (s\<lparr>rs_log := Append m (rs_log s)\<rparr>)"
  "logs_from l u s \<Longrightarrow> logs_from l u (s\<lparr>rs_log := Reset ms (rs_log s)\<rparr>)"
  by (simp_all add: logs_from_def log_grows_Append log_grows_Reset)

lemma logs_from_unicast: "logs_from l u s \<Longrightarrow> rs_unicast s p = Some k \<Longrightarrow>
    logs_from l u (s\<lparr>rs_unicast := (rs_unicast s)(p \<mapsto> Append m k)\<rparr>)"
  by (force simp: logs_from_def log_grows_Append)

interpretation lf: framed_commitments "logs_from l u" for l u
  by unfold_locales (simp_all add: logs_from_unicast, simp_all add: logs_from_def)

lemma logs_from_simps [simp]:
  "logs_from l u (s\<lparr>rs_clients := cl\<rparr>) = logs_from l u s"
  "logs_from l u (s\<lparr>rs_rvcs := k\<rparr>) = logs_from l u s" "logs_from l u (s\<lparr>rs_vcs := k'\<rparr>) = logs_from l u s"
  "logs_from l u (s\<lparr>rs_lastUI := us\<rparr>) = logs_from l u s" "logs_from l u (s\<lparr>rs_usig := n\<rparr>) = logs_from l u s"
  "logs_from l u (s\<lparr>rs_view := vw\<rparr>) = logs_from l u s"
  by (simp_all add: logs_from_def)

lemma logs_from_gen: "keeps any_panic (logs_from l u) (handleGeneratedMessage c m)"
  unfolding handleGeneratedMessage_def consumeGeneratedMessage_def
  by (auto split: message.splits intro!: keeps_intros keeps_check keeps_throw keeps_modify keeps_upd_client)

lemma logs_from_start: "logs_from l u s \<Longrightarrow>
    wp (startViewChange c nv cert) (\<lambda>r s'. outcome any_panic r (logs_from l u s')) s"
  unfolding wp_startViewChange
  by (auto intro!: lf.frame_start [where l = l and u = u] keepsD [OF keeps_seqM] keeps_ret logs_from_gen)
    (simp add: logs_from_def log_grows_Reset)

interpretation lg: core_invariant "logs_from l u" c for l u c
proof unfold_locales
  show "keeps any_panic (logs_from l u) (processReqViewChange c rvc)" for rvc
    by (rule keepsI)
      (auto simp: wp_processReqViewChange split: prod.splits option.splits intro!: logs_from_start)
  show "keeps any_panic (logs_from l u) (processViewChange c vc)" for vc
    unfolding processViewChange_def processNewViewCert_def split_def
    by (auto intro!: keeps_intros keeps_modify logs_from_gen split: option.splits)
  show "keeps any_panic (logs_from l u) (enter_view nv)" for nv
    unfolding enter_view_def split_def
    by (auto intro!: keeps_intros keeps_modify split: option.splits)
qed (auto intro: logs_from_gen lf.frame_collect)

lemma step_logs: "node_step c x e x' \<Longrightarrow>
    logs_from (rs_log (nd_replica x)) (rs_unicast (nd_replica x)) (nd_replica x')"
  by (erule lg.step_keeps) (rule logs_from_refl)

section \<open>The own log\<close>

text \<open>
  The contract of the USIG that the replica relies on: the tag of the next message is a unique
  identifier whose counter is one more than the number of identifiers created before.
\<close>

definition usig_ok :: "config \<Rightarrow> bool" where
  "usig_ok c \<longleftrightarrow> (\<forall>k bs tag. cfg_usig c k bs = Inr tag \<longrightarrow>
     (\<exists>u. tag = MarshalBinary u \<and> Counter u = k + 1))"

definition own_log :: "replica \<Rightarrow> message_log" where
  "own_log s = certified_msgs (Messages (rs_log s))"

text \<open>What a replica certifies about a view change is acceptable to the others.\<close>

definition own_ok :: "config \<Rightarrow> certified \<Rightarrow> bool" where
  "own_ok c x = (case x of
     CViewChange vc \<Rightarrow> validateViewChange c vc = Inr ()
   | NewView r v cert u \<Rightarrow> r = cfg_id c \<and> isPrimary v r (cfg_n c) \<and>
       length cert = unat (viewChangeCertSize c) \<and> (\<forall>vc \<in> set cert. vc_NewView vc = v) \<and>
       (\<exists>vc \<in> set cert. vc_ReplicaID vc = r)
   | _ \<Rightarrow> True)"

definition own_inv :: "config \<Rightarrow> replica \<Rightarrow> bool" where
  "own_inv c s \<longleftrightarrow> (usig_ok c \<and> viewChangeCertSize c \<noteq> 0 \<longrightarrow>
     rvcc_inv (viewChangeCertSize c) (rs_rvcs s) \<and>
     vcc_inv (cfg_id c) (viewChangeCertSize c) (rs_vcs s) \<and>
     rvcc_view (rs_rvcs s) \<le> expectedView (rs_view s) \<and>
     valid_log (cfg_id c) (expectedView (rs_view s)) (own_log s) (rs_usig s + 1) \<and>
     (\<forall>x \<in> set (own_log s). own_ok c x))"

lemma own_log_append [simp]: "certified_msgs (Messages (Append m l)) = certified_msgs (Messages l) @ certified_msgs [m]"
  and own_log_reset [simp]: "certified_msgs (Messages (Reset [] l)) = []"
  and certified_msgs_one [simp]: "certified_msgs [MCertified x] = [x]"
  and certified_msgs_rvc [simp]: "certified_msgs [MReqViewChange r] = []"
  by (simp_all add: Append_def Reset_def Messages_def certified_msgs_def)

lemma wp_gen_certified:
  assumes "usig_ok c"
    and "\<And>u. Counter u = rs_usig s + 1 \<Longrightarrow>
      Q (Inr ()) (s\<lparr>rs_usig := rs_usig s + 1, rs_log := Append (MCertified (SetUI u x)) (rs_log s)\<rparr>)"
    and "\<And>e. Q (Inl (Panic e)) s"
  shows "wp (handleGeneratedMessage c (MCertified x)) Q s"
proof (cases "cfg_usig c (rs_usig s) (authen_certified (cfg_hash c) x)")
  case (Inl e)
  then show ?thesis using assms(3) by (simp add: handleGeneratedMessage_def wp_rules assignUI_def)
next
  case (Inr tag)
  then obtain u where "tag = MarshalBinary u" "Counter u = rs_usig s + 1"
    using assms(1) Inr unfolding usig_ok_def by blast
  then show ?thesis using assms(2) Inr
    by (simp add: handleGeneratedMessage_def consumeGeneratedMessage_def wp_rules assignUI_def)
qed

lemma valid_log_append:
  assumes "valid_log i v ms (k + 1)" and "Counter (UI m) = k + 1" and "ReplicaID m = i" and "\<not> is_view_msg m"
  shows "valid_log i v (ms @ [m]) (k + 1 + 1)"
  using assms by (auto simp: valid_log_def counters_to_snoc starts_view_snoc add.commute [of 1 k]
      split: if_splits)

lemma is_view_msg_SetUI [simp]: "is_view_msg (SetUI u m) = is_view_msg m"
  and view_of_msg_SetUI [simp]: "view_of_msg (SetUI u m) = view_of_msg m"
  by (induction u m rule: SetUI.induct) simp_all

lemma own_gen:
  assumes "ReplicaID x = cfg_id c" and "\<not> is_view_msg x"
  shows "keeps any_panic (own_inv c) (handleGeneratedMessage c (MCertified x))"
proof (cases "usig_ok c \<and> viewChangeCertSize c \<noteq> 0")
  case True
  show ?thesis
  proof (rule keepsI, rule wp_gen_certified)
    fix s and u :: ui assume "own_inv c s" and u: "Counter u = rs_usig s + 1"
    moreover have "own_ok c (SetUI u x)"
      using assms(2) by (cases x) (auto simp: own_ok_def)
    ultimately show "outcome any_panic (Inr ()) (own_inv c
        (s\<lparr>rs_usig := rs_usig s + 1, rs_log := Append (MCertified (SetUI u x)) (rs_log s)\<rparr>))"
      using True assms valid_log_append [of "cfg_id c" _ "own_log s" "rs_usig s" "SetUI u x"]
      by (auto simp: own_inv_def own_log_def)
  qed (use True in simp_all)
next
  case False
  then show ?thesis by (auto simp: own_inv_def keeps_def wp_def outcome_def split: sum.splits go_error.splits)
qed

lemma own_trivial: "\<not> (usig_ok c \<and> viewChangeCertSize c \<noteq> 0) \<Longrightarrow> keeps any_panic (own_inv c) m"
  by (auto simp: own_inv_def keeps_def wp_def outcome_def split: sum.splits go_error.splits)

text \<open>The state between the reset of the log and the message that starts the new log.\<close>

definition own_reset :: "config \<Rightarrow> certified \<Rightarrow> replica \<Rightarrow> bool" where
  "own_reset c x s \<longleftrightarrow> own_log s = [] \<and>
     rvcc_inv (viewChangeCertSize c) (rs_rvcs s) \<and>
     vcc_inv (cfg_id c) (viewChangeCertSize c) (rs_vcs s) \<and>
     rvcc_view (rs_rvcs s) \<le> expectedView (rs_view s) \<and>
     view_of_msg x = expectedView (rs_view s) \<and>
     (\<forall>u. Counter u = rs_usig s + 1 \<longrightarrow> own_ok c (SetUI u x))"

interpretation orf: framed "own_reset c x" for c x
  by unfold_locales (simp_all add: own_reset_def own_log_def)

interpretation oif: framed_commitments "own_inv c" for c
  by unfold_locales (simp_all add: own_inv_def own_log_def)

lemma own_gen_first:
  assumes "usig_ok c" and "ReplicaID x = cfg_id c" and "is_view_msg x" and "own_reset c x s"
  shows "wp (handleGeneratedMessage c (MCertified x)) (\<lambda>r s'. outcome any_panic r (own_inv c s')) s"
  using assms
  by (intro wp_gen_certified)
    (auto simp: own_reset_def own_inv_def own_log_def valid_log_def starts_view_def)

lemma own_start:
  assumes ok: "usig_ok c" and x: "x = NewViewChange (cfg_id c) nv ms cert" and r: "own_reset c x s"
  shows "wp (seqM (startVCTimer nv) (seqM (unprepareReqs c)
           (seqM (handleGeneratedMessage c (MCertified x)) (ret True))))
         (\<lambda>r s'. outcome any_panic r (own_inv c s')) s"
proof -
  have gen: "wp (seqM (handleGeneratedMessage c (MCertified x)) (ret True))
      (\<lambda>r s'. outcome any_panic r (own_inv c s')) s'" if "own_reset c x s'" for s'
    unfolding seqM_def
    by (rule wp_outcome_bindM [OF own_gen_first [OF ok _ _ that]])
      (simp_all add: x NewViewChange_def wp_rules)
  show ?thesis by (rule orf.frame_start [OF r gen])
qed

lemma new_vc_ok:
  assumes "own_inv c s" and "usig_ok c" and "viewChangeCertSize c \<noteq> 0"
    and "collectReqViewChange (viewChangeCertSize c) rvc (rs_rvcs s) = (k, new, Some cert)"
    and "expectedView (rs_view s) < rvc_NewView rvc" and "Counter u = rs_usig s + 1"
  shows "own_ok c (SetUI u (NewViewChange (cfg_id c) (rvc_NewView rvc) (own_log s) cert))"
proof -
  let ?nv = "rvc_NewView rvc"
  have inv: "rvcc_inv (viewChangeCertSize c) (rs_rvcs s)" "rvcc_view (rs_rvcs s) \<le> expectedView (rs_view s)"
      "valid_log (cfg_id c) (expectedView (rs_view s)) (own_log s) (rs_usig s + 1)"
    using assms(1-3) by (simp_all add: own_inv_def)
  note cert = collectReqViewChange_cert [OF inv(1) assms(4,3)]
  have "?nv \<noteq> 0" using assms(5) by auto
  moreover have "?nv - 1 = expectedView (rs_view s)"
    using assms(5) inv(2) cert(3) word_less_Suc_le [of "expectedView (rs_view s)" "rvcc_view (rs_rvcs s)"]
    by simp
  ultimately show ?thesis
    using cert(1) inv(3) assms(6)
    by (auto simp: own_ok_def NewViewChange_def validateViewChange_def validateMessageLog_ok word_less_1)
qed

lemma own_rvc: "keeps any_panic (own_inv c) (processReqViewChange c rvc)"
proof (cases "usig_ok c \<and> viewChangeCertSize c \<noteq> 0")
  case True
  let ?k = "viewChangeCertSize c" and ?nv = "rvc_NewView rvc"
  show ?thesis
  proof (rule keepsI)
    fix s assume s: "own_inv c s"
    obtain q new cert where q: "collectReqViewChange ?k rvc (rs_rvcs s) = (q, new, cert)"
      by (cases "collectReqViewChange ?k rvc (rs_rvcs s)") auto
    have inv: "rvcc_inv ?k (rs_rvcs s)" using s True by (simp add: own_inv_def)
    have q_inv: "rvcc_inv ?k q" using collectReqViewChange_inv [OF inv q] True by simp
    show "wp (processReqViewChange c rvc) (\<lambda>r s'. outcome any_panic r (own_inv c s')) s"
    proof (cases cert)
      case None
      then show ?thesis using q q_inv s collectReqViewChange_view [of ?k rvc "rs_rvcs s" q new]
        by (auto simp: wp_processReqViewChange own_inv_def own_log_def)
    next
      case (Some vcCert)
      have nv: "?nv = rvcc_view (rs_rvcs s) + 1" "rvcc_view q = ?nv"
        using collectReqViewChange_cert(3,4) [OF inv] q Some True by auto
      let ?x = "NewViewChange (cfg_id c) ?nv (own_log s) vcCert"
      show ?thesis
      proof (cases "expectedView (rs_view s) < ?nv")
        case lt: True
        have "own_reset c ?x (s\<lparr>rs_rvcs := q, rs_view := (rs_view s)\<lparr>expectedView := ?nv\<rparr>,
            rs_log := Reset [] (rs_log s)\<rparr>)"
          using new_vc_ok [OF s _ _ _ lt] True q Some q_inv nv s
          by (simp add: own_reset_def own_log_def NewViewChange_def own_inv_def)
        then show ?thesis using q Some lt own_start [OF _ refl] True
          by (simp add: wp_processReqViewChange wp_startViewChange own_log_def)
      next
        case False
        then have "own_inv c (s\<lparr>rs_rvcs := q\<rparr>)"
          using s q_inv nv by (simp add: own_inv_def own_log_def not_less)
        with False q Some show ?thesis by (simp add: wp_processReqViewChange wp_startViewChange)
      qed
    qed
  qed
qed (rule own_trivial)

lemma own_vc: "keeps any_panic (own_inv c) (processViewChange c vc)"
proof (cases "usig_ok c \<and> viewChangeCertSize c \<noteq> 0")
  case True
  let ?k = "viewChangeCertSize c" and ?nv = "vc_NewView vc"
  show ?thesis
  proof (rule keepsI)
    fix s assume s: "own_inv c s"
    obtain q new cert where q: "collectViewChange (cfg_id c) (cfg_n c) ?k vc (rs_vcs s) = (q, new, cert)"
      by (cases "collectViewChange (cfg_id c) (cfg_n c) ?k vc (rs_vcs s)") auto
    have inv: "vcc_inv (cfg_id c) ?k (rs_vcs s)" using s True by (simp add: own_inv_def)
    have q_inv: "vcc_inv (cfg_id c) ?k q" using collectViewChange_inv [OF inv q] .
    let ?s = "s\<lparr>rs_vcs := q\<rparr>"
    have s1: "own_inv c ?s" using s q_inv by (simp add: own_inv_def own_log_def)
    have nv: "wp (processNewViewCert c ?nv nvCert) (\<lambda>r s'. outcome any_panic r (own_inv c s')) ?s"
      if "cert = Some nvCert" for nvCert
    proof (cases "?nv = expectedView (rs_view s)")
      case eq: True
      have "own_reset c (NewNewView (cfg_id c) ?nv nvCert) (?s\<lparr>rs_log := Reset [] (rs_log s)\<rparr>)"
        using collectViewChange_cert [OF inv] q that True eq s1
        by (fastforce simp: own_reset_def own_log_def own_inv_def NewNewView_def own_ok_def)
      then show ?thesis using eq True own_gen_first [of c "NewNewView (cfg_id c) ?nv nvCert"]
        by (simp add: processNewViewCert_def HoldView_def wp_rules NewNewView_def)
    next
      case False
      then show ?thesis using s1 by (simp add: processNewViewCert_def HoldView_def wp_rules)
    qed
    show "wp (processViewChange c vc) (\<lambda>r s'. outcome any_panic r (own_inv c s')) s"
      using q nv s1 by (cases cert) (auto simp: processViewChange_def wp_rules elim!: wp_mono
          split: sum.splits go_error.splits simp: outcome_def)
  qed
qed (rule own_trivial)

interpretation oi: core_invariant "own_inv c" c for c
proof unfold_locales
  show "keeps any_panic (own_inv c) (handleGeneratedMessage c (MCertified (NewPrepare (cfg_id c) v req)))" for v req
    by (rule own_gen) (simp_all add: NewPrepare_def)
  show "keeps any_panic (own_inv c) (handleGeneratedMessage c (MCertified (NewCommit (cfg_id c) y)))" for y
    by (rule own_gen) (simp_all add: NewCommit_def)
  show "keeps any_panic (own_inv c) (handleGeneratedMessage c (MReqViewChange rvc))" for rvc
    unfolding handleGeneratedMessage_def consumeGeneratedMessage_def
    by (auto intro!: keeps_intros keeps_check keeps_modify simp: own_inv_def own_log_def)
  show "keeps any_panic (own_inv c) (enter_view v)" for v
    unfolding enter_view_def
    by (rule keeps_gets_bindM) (auto simp: AdvanceCurrentView_def own_inv_def own_log_def wp_rules)
  show "own_inv c s \<Longrightarrow> own_inv c (s\<lparr>rs_lastUI := (rs_lastUI s)[k := u]\<rparr>)" for s k u
    by (simp add: own_inv_def own_log_def)
qed (fact own_rvc own_vc oif.frame_collect)+

lemma own_inv_new: "own_inv c (new_replica c)"
  using new_rvc_collector_inv new_vc_collector_inv
  by (simp add: own_inv_def new_replica_def own_log_def new_log_def Messages_def certified_msgs_def
      valid_log_def new_view_state_def) (simp add: new_rvc_collector_def)

lemma reach_own_inv: "node_reach c x \<Longrightarrow> own_inv c (nd_replica x)"
  using own_inv_new by (rule oi.reach_keeps [rotated])

end
