(* ===== verification/RequestInvariants.thy ===== *)
theory RequestInvariants
  imports OwnLog
begin

text \<open>
  The bookkeeping of requests: per client, identifiers are captured, prepared and retired in
  order, the lists of pending and prepared requests agree with them, and every request is
  delivered for execution at most once and in increasing order. The last part characterises the
  panics that a message from a peer can cause.
\<close>

section \<open>The invariant\<close>

abbreviation seqs_of :: "replica \<Rightarrow> u32 \<Rightarrow> seq_state" where
  "seqs_of s cid \<equiv> cs_seq (client_of cid (rs_clients s))"

definition ids_of :: "u32 \<Rightarrow> request list \<Rightarrow> u64 list" where
  "ids_of cid rs = map req_Sequence (filter (\<lambda>r. req_ClientID r = cid) rs)"

text \<open>
  What holds of one client, of its request in the prepared and in the pending list, and of the
  identifiers of its delivered requests: the prepared list holds the request that was prepared
  last exactly when it is not retired yet, a pending request was captured, and the delivered
  identifiers increase strictly and the last of them is the one that was retired last.
\<close>

definition client_reqs :: "client_state \<Rightarrow> request option \<Rightarrow> request option \<Rightarrow> u64 list \<Rightarrow> bool" where
  "client_reqs k prep pend ids \<longleftrightarrow>
     client_inv k \<and>
     (case prep of
        None \<Rightarrow> lastPreparedSeq (cs_seq k) = lastRetiredSeq (cs_seq k)
      | Some r \<Rightarrow> lastRetiredSeq (cs_seq k) < lastPreparedSeq (cs_seq k) \<and>
          req_Sequence r = lastPreparedSeq (cs_seq k)) \<and>
     (\<forall>r \<in> set_option pend. req_Sequence r \<le> lastCapturedSeq (cs_seq k)) \<and>
     sorted_wrt (<) ids \<and> (\<forall>q \<in> set ids. 0 < q \<and> q \<le> lastRetiredSeq (cs_seq k)) \<and>
     lastRetiredSeq (cs_seq k) = (if ids = [] then 0 else last ids)"

text \<open>\<open>H\<close> are the clients with a captured request that is not released, \<open>R\<close> are captured requests.\<close>

definition reqs_inv :: "u32 set \<Rightarrow> request set \<Rightarrow> replica \<Rightarrow> bool" where
  "reqs_inv H R s \<longleftrightarrow>
     (\<forall>cid. client_reqs (client_of cid (rs_clients s)) (map_of (rs_prepared s) cid)
        (map_of (rs_pending s) cid) (ids_of cid (rs_delivered s))) \<and>
     (\<forall>cid. cid \<notin> H \<longrightarrow> lastReleasedSeq (seqs_of s cid) = lastCapturedSeq (seqs_of s cid)) \<and>
     list_inv (rs_pending s) \<and> list_inv (rs_prepared s) \<and>
     (\<forall>r \<in> R. req_Sequence r \<le> lastCapturedSeq (seqs_of s (req_ClientID r)))"

lemma wp_on_seq:
  "wp (on_seq cid m) Q s =
     (case m (seqs_of s cid) of
        (q, r) \<Rightarrow> Q r (s\<lparr>rs_clients := with_client cid (\<lambda>k. k\<lparr>cs_seq := q\<rparr>) (rs_clients s)\<rparr>))"
  by (simp add: wp_def on_seq_def split: prod.splits)

lemma reqs_mono: "R \<subseteq> R' \<Longrightarrow> reqs_inv H R' s \<Longrightarrow> reqs_inv H R s"
  by (auto simp: reqs_inv_def)

text \<open>The invariant after an operation on one client.\<close>

lemma reqs_parts:
  assumes "reqs_inv H R s"
  shows "client_reqs (client_of cid (rs_clients s)) (map_of (rs_prepared s) cid)
      (map_of (rs_pending s) cid) (ids_of cid (rs_delivered s))"
    and "cid \<notin> H \<Longrightarrow> lastReleasedSeq (seqs_of s cid) = lastCapturedSeq (seqs_of s cid)"
    and "list_inv (rs_pending s)" and "list_inv (rs_prepared s)"
    and "r \<in> R \<Longrightarrow> req_Sequence r \<le> lastCapturedSeq (seqs_of s (req_ClientID r))"
  using assms by (simp_all add: reqs_inv_def)

lemma reqs_local:
  assumes inv: "reqs_inv H R s"
    and other: "\<And>d. d \<noteq> cid \<Longrightarrow> client_of d (rs_clients s') = client_of d (rs_clients s) \<and>
      map_of (rs_prepared s') d = map_of (rs_prepared s) d \<and>
      map_of (rs_pending s') d = map_of (rs_pending s) d \<and>
      ids_of d (rs_delivered s') = ids_of d (rs_delivered s)"
    and here: "client_reqs (client_of cid (rs_clients s)) (map_of (rs_prepared s) cid)
        (map_of (rs_pending s) cid) (ids_of cid (rs_delivered s)) \<Longrightarrow>
      client_reqs (client_of cid (rs_clients s')) (map_of (rs_prepared s') cid)
        (map_of (rs_pending s') cid) (ids_of cid (rs_delivered s'))"
    and idle: "cid \<notin> H' \<Longrightarrow> lastReleasedSeq (seqs_of s' cid) = lastCapturedSeq (seqs_of s' cid)"
    and held: "H \<subseteq> insert cid H'"
    and cap: "lastCapturedSeq (seqs_of s cid) \<le> lastCapturedSeq (seqs_of s' cid)"
    and lists: "list_inv (rs_pending s')" "list_inv (rs_prepared s')"
  shows "reqs_inv H' R s'"
  unfolding reqs_inv_def
proof (intro conjI allI ballI impI)
  fix d
  show "client_reqs (client_of d (rs_clients s')) (map_of (rs_prepared s') d)
      (map_of (rs_pending s') d) (ids_of d (rs_delivered s'))"
    using reqs_parts(1) [OF inv, of d] other here by (cases "d = cid") simp_all
  assume "d \<notin> H'"
  then show "lastReleasedSeq (seqs_of s' d) = lastCapturedSeq (seqs_of s' d)"
    using reqs_parts(2) [OF inv, of d] other idle held by (cases "d = cid") auto
next
  fix r assume "r \<in> R"
  then show "req_Sequence r \<le> lastCapturedSeq (seqs_of s' (req_ClientID r))"
    using reqs_parts(5) [OF inv] other [of "req_ClientID r"] cap
    by (cases "req_ClientID r = cid") (force intro: order_trans)+
qed (fact lists)+

lemma reqs_client:
  assumes "\<And>k. client_inv k \<Longrightarrow> client_inv (f k)" and "\<And>k. cs_seq (f k) = cs_seq k"
    and inv: "reqs_inv H R s"
  shows "reqs_inv H R (s\<lparr>rs_clients := with_client cid f (rs_clients s)\<rparr>)"
  by (rule reqs_local [OF inv, where cid = cid])
    (use assms(1,2) reqs_parts(2-4) [OF inv] in \<open>auto simp: client_reqs_def split: option.splits\<close>)

lemma keeps_client:
  assumes "\<And>k. client_inv k \<Longrightarrow> client_inv (f k)" and "\<And>k. cs_seq (f k) = cs_seq k"
  shows "keeps E (reqs_inv H R) (upd_client cid f)"
  unfolding upd_client_def by (rule keeps_modify) (rule reqs_client [OF assms])

lemma timers_keep:
  "keeps E (reqs_inv H R) (startReqTimer c req v)" "keeps E (reqs_inv H R) (stopReqTimer req)"
  "keeps E (reqs_inv H R) (startPrepTimer c req v)" "keeps E (reqs_inv H R) (stopPrepTimer req)"
  unfolding startReqTimer_def stopReqTimer_def startPrepTimer_def stopPrepTimer_def
  by (rule keeps_client; simp add: client_inv_def timer_inv_Start timer_inv_Stop)+

section \<open>Identifier operations\<close>

lemma reqs_frame:
  assumes "rs_clients s' = rs_clients s" "rs_pending s' = rs_pending s" "rs_prepared s' = rs_prepared s"
    "rs_delivered s' = rs_delivered s"
  shows "reqs_inv H R s' = reqs_inv H R s"
  unfolding reqs_inv_def assms ..

lemma wp_must:
  "wp (must m) Q s = wp m (\<lambda>r. Q (case r of Inl (Error e) \<Rightarrow> Inl (Panic e) | _ \<Rightarrow> r)) s"
  by (auto simp: wp_def must_def split: prod.splits sum.splits go_error.splits)

lemma reqs_touch:
  "reqs_inv H R s \<Longrightarrow>
   reqs_inv H R (s\<lparr>rs_clients := with_client cid (\<lambda>k. k\<lparr>cs_seq := seqs_of s cid\<rparr>) (rs_clients s)\<rparr>)"
  by (rule reqs_local [where cid = cid, of H R s]) (auto dest: reqs_parts)

lemmas rl_laws = rl.invar_add rl.invar_remove rl.find_add rl.find_remove

lemma prepared_keeps:
  assumes inv: "reqs_inv H R s"
    and q: "lastPreparedSeq (seqs_of s (req_ClientID req)) < req_Sequence req"
      "req_Sequence req \<le> lastCapturedSeq (seqs_of s (req_ClientID req))"
  shows "reqs_inv H R (s\<lparr>rs_clients := with_client (req_ClientID req)
      (\<lambda>k. k\<lparr>cs_seq := (seqs_of s (req_ClientID req))\<lparr>lastPreparedSeq := req_Sequence req\<rparr>\<rparr>) (rs_clients s),
      rs_prepared := Add req (rs_prepared s), rs_pending := Remove req (rs_pending s)\<rparr>)"
  by (rule reqs_local [OF inv, where cid = "req_ClientID req"])
    (use q reqs_parts(2-4) [OF inv] in
      \<open>auto simp: client_reqs_def client_inv_def seq_inv_def rl_laws split: option.splits\<close>)

lemma prepare_keeps:
  assumes "lax E \<or> req \<in> R"
  shows "keeps E (reqs_inv H R) (prepareReq req)"
proof (rule keepsI)
  fix s assume inv: "reqs_inv H R s"
  have "lax E \<or> req_Sequence req \<le> lastCapturedSeq (seqs_of s (req_ClientID req))"
    using assms reqs_parts(5) [OF inv] by blast
  then show "wp (prepareReq req) (\<lambda>r s'. outcome E r (reqs_inv H R s')) s"
    using prepared_keeps [OF inv, of req] reqs_touch [OF inv]
    by (auto simp: prepareReq_def wp_rules wp_must wp_on_seq PrepareRequestSeq_def not_le laxD)
qed

lemma retired_keeps:
  assumes inv: "reqs_inv H R s"
    and q: "lastRetiredSeq (seqs_of s (req_ClientID req)) < req_Sequence req"
      "req_Sequence req \<le> lastPreparedSeq (seqs_of s (req_ClientID req))"
  shows "reqs_inv H R (s\<lparr>rs_clients := with_client (req_ClientID req)
      (\<lambda>k. k\<lparr>cs_seq := (seqs_of s (req_ClientID req))\<lparr>lastRetiredSeq := req_Sequence req\<rparr>\<rparr>) (rs_clients s),
      rs_prepared := Remove req (rs_prepared s), rs_delivered := rs_delivered s @ [req]\<rparr>)"
  by (rule reqs_local [OF inv, where cid = "req_ClientID req"])
    (use q order_le_less_trans [OF word_zero_le q(1)] reqs_parts(2-4) [OF inv] in
      \<open>auto simp: client_reqs_def client_inv_def seq_inv_def rl_laws ids_of_def sorted_wrt_append
        split: option.splits\<close>)

lemma execute_keeps:
  assumes "E (Panic ''Request ID not prepared'')"
  shows "keeps E (reqs_inv H R) (executeRequest req)"
proof (rule keepsI)
  fix s assume inv: "reqs_inv H R s"
  let ?c = "req_ClientID req" and ?q = "req_Sequence req"
  show "wp (executeRequest req) (\<lambda>r s'. outcome E r (reqs_inv H R s')) s"
  proof (cases "lastRetiredSeq (seqs_of s ?c) < ?q \<and> ?q \<le> lastPreparedSeq (seqs_of s ?c)")
    case True
    let ?s = "s\<lparr>rs_clients := with_client ?c
      (\<lambda>k. k\<lparr>cs_seq := (seqs_of s ?c)\<lparr>lastRetiredSeq := ?q\<rparr>\<rparr>) (rs_clients s),
      rs_prepared := Remove req (rs_prepared s), rs_delivered := rs_delivered s @ [req]\<rparr>"
    have "reqs_inv H R ?s" using retired_keeps [OF inv, of req] True by simp
    from keepsD [OF timers_keep(2) this, of req E]
    have "reqs_inv H R (?s\<lparr>rs_clients := with_client ?c
        (\<lambda>k. k\<lparr>cs_requestTimer := timer_Stop ?q (cs_requestTimer k)\<rparr>) (rs_clients ?s)\<rparr>)"
      by (simp add: stopReqTimer_def upd_client_def wp_rules)
    moreover have "\<not> ?q \<le> lastRetiredSeq (seqs_of s ?c)" "\<not> lastPreparedSeq (seqs_of s ?c) < ?q"
      using True by auto
    ultimately show ?thesis
      by (simp add: executeRequest_def retireReq_def wp_rules wp_must wp_on_seq
          RetireRequestSeq_def stopReqTimer_def upd_client_def)
        (erule reqs_frame [THEN iffD2, rotated 4], simp_all)
  next
    case False
    then show ?thesis
      using reqs_touch [OF inv] assms
      by (auto simp: executeRequest_def retireReq_def wp_rules wp_must wp_on_seq RetireRequestSeq_def not_le)
  qed
qed

section \<open>Generated messages\<close>

text \<open>The documented ability of the Authenticator to generate tags.\<close>

definition authen_total :: "config \<Rightarrow> bool" where
  "authen_total c \<longleftrightarrow> (\<forall>k bs. \<exists>u. cfg_usig c k bs = Inr (MarshalBinary u)) \<and>
     (\<forall>bs. \<exists>sig. cfg_sign c bs = Inr sig)"

lemma assignUI_total: "authen_total c \<Longrightarrow> \<exists>y. assignUI c k x = Inr y"
  unfolding authen_total_def assignUI_def by (metis must_unmarshal_marshal sum.case(2))

lemma sign_total:
  assumes "authen_total c"
  shows "\<exists>y. sign_rvc c r = Inr y" and "\<exists>z. sign_reply c q = Inr z"
proof -
  have "\<exists>sig. sign_bytes c bs = Inr sig" for bs
    using assms unfolding authen_total_def sign_bytes_def by (metis sum.case(2))
  then show "\<exists>y. sign_rvc c r = Inr y" and "\<exists>z. sign_reply c q = Inr z"
    unfolding sign_rvc_def sign_reply_def by (metis sum.case(2))+
qed

lemma keeps_check_total: "lax E \<or> (\<exists>y. r = Inr y) \<Longrightarrow> keeps E J (check r)"
  by (rule keeps_check) (auto simp: lax_def)

lemma reqs_log [simp]:
  "reqs_inv H R (s\<lparr>rs_log := l\<rparr>) = reqs_inv H R s" "reqs_inv H R (s\<lparr>rs_usig := n\<rparr>) = reqs_inv H R s"
  "reqs_inv H R (s\<lparr>rs_view := v\<rparr>) = reqs_inv H R s" "reqs_inv H R (s\<lparr>rs_vcs := k\<rparr>) = reqs_inv H R s"
  "reqs_inv H R (s\<lparr>rs_rvcs := k'\<rparr>) = reqs_inv H R s" "reqs_inv H R (s\<lparr>rs_vcTimer := t\<rparr>) = reqs_inv H R s"
  "reqs_inv H R (s\<lparr>rs_commitments := cm\<rparr>) = reqs_inv H R s" "reqs_inv H R (s\<lparr>rs_lastUI := us\<rparr>) = reqs_inv H R s"
  "reqs_inv H R (s\<lparr>rs_requested := v'\<rparr>) = reqs_inv H R s" "reqs_inv H R (s\<lparr>rs_executing := ex\<rparr>) = reqs_inv H R s"
  "reqs_inv H R (s\<lparr>rs_unicast := uc\<rparr>) = reqs_inv H R s" "reqs_inv H R (s\<lparr>rs_accepted := h\<rparr>) = reqs_inv H R s"
  by (rule reqs_frame; simp)+

lemma generated_keeps:
  assumes "lax E \<or> authen_total c" and "\<And>r. m \<noteq> MRequest r"
  shows "keeps E (reqs_inv H R) (handleGeneratedMessage c m)"
proof -
  have reply: "keeps E (reqs_inv H R) (upd_client cid (\<lambda>k. k\<lparr>cs_reply := AddReply r (cs_reply k)\<rparr>))" for cid r
    by (rule keeps_client) (simp_all add: client_inv_def reply_inv_add)
  show ?thesis
    using assms assignUI_total [of c] sign_total [of c] unfolding handleGeneratedMessage_def consumeGeneratedMessage_def
    by (cases m) (auto intro!: keeps_intros keeps_check_total keeps_modify reply)
qed

lemma apply_keeps: "lax E \<or> authen_total c \<Longrightarrow> keeps E (reqs_inv H R) (applyRequest c req v)"
  unfolding applyRequest_def by (intro keeps_intros timers_keep generated_keeps) simp_all

lemma pending_keeps: "lax E \<or> authen_total c \<Longrightarrow> keeps E (reqs_inv H R) (applyPendingReqs c v)"
  unfolding applyPendingReqs_def by (intro keeps_intros apply_keeps)

section \<open>Capturing and un-preparing\<close>

lemma capture_idle:
  "lastReleasedSeq q = lastCapturedSeq q \<Longrightarrow>
   CaptureRequestSeq n q = (if n \<le> lastCapturedSeq q then (q, NotNew) else (q\<lparr>lastCapturedSeq := n\<rparr>, Captured))"
  by (auto simp: CaptureRequestSeq_def)

lemma captured_keeps:
  assumes inv: "reqs_inv {} R s" and q: "lastCapturedSeq (seqs_of s (req_ClientID req)) < req_Sequence req"
  shows "reqs_inv {req_ClientID req} (insert req R) (s\<lparr>rs_clients := with_client (req_ClientID req)
      (\<lambda>k. k\<lparr>cs_seq := (seqs_of s (req_ClientID req))\<lparr>lastCapturedSeq := req_Sequence req\<rparr>\<rparr>) (rs_clients s),
      rs_pending := Add req (rs_pending s)\<rparr>)" (is "reqs_inv _ _ ?s")
proof -
  have "reqs_inv {req_ClientID req} R ?s"
    by (rule reqs_local [OF inv, where cid = "req_ClientID req"])
      (use q reqs_parts(2-4) [OF inv] in
        \<open>auto simp: client_reqs_def client_inv_def seq_inv_def rl_laws split: option.splits\<close>)
  then show ?thesis by (simp add: reqs_inv_def)
qed

lemma released_keeps:
  assumes inv: "reqs_inv {cid} R s"
  shows "reqs_inv {} R (s\<lparr>rs_clients := with_client cid
      (\<lambda>k. k\<lparr>cs_seq := release_seq (seqs_of s cid)\<rparr>) (rs_clients s)\<rparr>)"
  by (rule reqs_local [OF inv, where cid = cid])
    (use reqs_parts(2-4) [OF inv] in
      \<open>auto simp: client_reqs_def client_inv_def seq_inv_def release_seq_def split: option.splits\<close>)

lemma apply_no_error: "snd (applyRequest c req v s) \<noteq> Inl (Error e)"
proof -
  have "assignUI c k x \<noteq> Inl (Error e)" for k x
    by (auto simp: assignUI_def MustUnmarshalUI_def split: sum.splits)
  then show ?thesis
    by (auto simp: applyRequest_def handleGeneratedMessage_def consumeGeneratedMessage_def startReqTimer_def
        startPrepTimer_def upd_client_def seqM_def bindM_def modify_def gets_def check_def
        split: prod.splits sum.splits)
qed

lemma process_gains:
  assumes "lax E \<or> authen_total c"
  shows "gains E (reqs_inv {}) (processRequest c req) {req} True"
  unfolding gains_def
proof (intro allI impI)
  fix R s assume inv: "reqs_inv {} R s"
  let ?c = "req_ClientID req" and ?q = "req_Sequence req"
  let ?Q = "\<lambda>r s'. outcome E r (if \<not> isl r then reqs_inv {} (R \<union> {req}) s' \<and> True else reqs_inv {} R s')"
  show "wp (processRequest c req) ?Q s"
  proof (cases "?q \<le> lastCapturedSeq (seqs_of s ?c)")
    case True
    then have "reqs_inv {} (insert req R) (s\<lparr>rs_clients := with_client ?c (\<lambda>k. k\<lparr>cs_seq := seqs_of s ?c\<rparr>) (rs_clients s)\<rparr>)"
      using reqs_touch [OF inv, of ?c] by (simp add: reqs_inv_def)
    then show ?thesis using True capture_idle [OF reqs_parts(2) [OF inv]]
      by (simp add: processRequest_def captureReq_def HoldView_def wp_rules wp_on_seq)
  next
    case False
    let ?s = "s\<lparr>rs_clients := with_client ?c
      (\<lambda>k. k\<lparr>cs_seq := (seqs_of s ?c)\<lparr>lastCapturedSeq := ?q\<rparr>\<rparr>) (rs_clients s),
      rs_pending := Add req (rs_pending s)\<rparr>"
    have s: "reqs_inv {?c} (insert req R) ?s" using captured_keeps [OF inv] False by simp
    have rel: "wp (seqM (releaseReq req) (ret True)) ?Q s'" if "reqs_inv {?c} (insert req R) s'" for s'
      using released_keeps [OF that] by (simp add: releaseReq_def wp_rules wp_on_seq)
    have app: "wp (seqM (applyRequest c req v) (seqM (releaseReq req) (ret True))) ?Q ?s" for v
    proof -
      obtain s' r where a: "applyRequest c req v ?s = (s', r)" by fastforce
      from keeps_run [OF apply_keeps [OF assms] s a] have "outcome E r (reqs_inv {?c} (insert req R) s')" .
      then have "case r of Inl e \<Rightarrow> ?Q (Inl e) s' | Inr _ \<Rightarrow> wp (seqM (releaseReq req) (ret True)) ?Q s'"
        using apply_no_error [of c req v ?s] a rel
        by (cases r; cases "projl r") (auto simp: outcome_def split: sum.splits go_error.splits)
      then show ?thesis by (simp add: wp_seqM [of "applyRequest c req v"] wp_def [of "applyRequest c req v"] a)
    qed
    show ?thesis using False capture_idle [OF reqs_parts(2) [OF inv]] app rel [OF s]
      by (simp add: processRequest_def captureReq_def HoldView_def wp_gets wp_ret wp_modify wp_on_seq
          wp_bindM wp_seqM [of "modify f" for f])
  qed
qed

lemma unprepared_keeps:
  assumes inv: "reqs_inv H R s" and p: "map_of (rs_prepared s) (req_ClientID req) = Some req"
  shows "reqs_inv H R (s\<lparr>rs_clients := with_client (req_ClientID req)
      (\<lambda>k. k\<lparr>cs_seq := UnprepareRequestSeq (seqs_of s (req_ClientID req))\<rparr>) (rs_clients s),
      rs_pending := Add req (rs_pending s), rs_prepared := Remove req (rs_prepared s)\<rparr>)"
  by (rule reqs_local [OF inv, where cid = "req_ClientID req"])
    (use p reqs_parts(2-4) [OF inv] in
      \<open>auto simp: client_reqs_def client_inv_def seq_inv_def UnprepareRequestSeq_def rl_laws\<close>)

lemma unprepare_loop:
  assumes "reqs_inv H R s" and "distinct (map req_ClientID xs)"
    and "\<And>x. x \<in> set xs \<Longrightarrow> map_of (rs_prepared s) (req_ClientID x) = Some x"
  shows "\<exists>s'. forM unprepareReq xs s = (s', Inr ()) \<and> reqs_inv H R s' \<and>
    map_of (rs_prepared s') = map_of (rs_prepared s) |` (- req_ClientID ` set xs)"
  using assms
proof (induction xs arbitrary: s)
  case Nil
  then show ?case by (auto simp: ret_def restrict_map_def)
next
  case (Cons x xs)
  let ?s = "s\<lparr>rs_clients := with_client (req_ClientID x)
      (\<lambda>k. k\<lparr>cs_seq := UnprepareRequestSeq (seqs_of s (req_ClientID x))\<rparr>) (rs_clients s),
      rs_pending := Add x (rs_pending s), rs_prepared := Remove x (rs_prepared s)\<rparr>"
  have x: "map_of (rs_prepared s) (req_ClientID x) = Some x" using Cons.prems(3) by simp
  have inv: "reqs_inv H R ?s" using unprepared_keeps [OF Cons.prems(1) x] .
  have prep: "map_of (Remove x (rs_prepared s)) = (map_of (rs_prepared s))(req_ClientID x := None)"
    using x reqs_parts(4) [OF Cons.prems(1)] by (simp add: rl.find_remove)
  have "\<exists>s'. forM unprepareReq xs ?s = (s', Inr ()) \<and> reqs_inv H R s' \<and>
      map_of (rs_prepared s') = map_of (rs_prepared ?s) |` (- req_ClientID ` set xs)"
    using Cons.prems by (intro Cons.IH [OF inv]) (auto simp: prep image_iff)
  moreover have "unprepareReq x s = (?s, Inr ())"
    by (simp add: unprepareReq_def on_seq_def seqM_def bindM_def modify_def)
  ultimately show ?case
    by (auto simp: seqM_def bindM_def prep restrict_map_def fun_eq_iff)
qed

lemma unprepare_all:
  assumes inv: "reqs_inv H R s" and ord: "iter_order (cfg_order c)"
  shows "\<exists>s'. unprepareReqs c s = (s', Inr ()) \<and> reqs_inv H R s' \<and> map_of (rs_prepared s') = Map.empty"
proof -
  let ?xs = "All (cfg_order c) (rs_prepared s)"
  note l = reqs_parts(4) [OF inv]
  have xs: "set ?xs = ran (map_of (rs_prepared s))" "distinct (map req_ClientID ?xs)"
    using rl.set_all [OF l ord] rl.distinct_all [OF l ord] .
  have mem: "map_of (rs_prepared s) (req_ClientID x) = Some x" if "x \<in> set ?xs" for x
    using that xs(1) rl.find_client [OF l] by (auto simp: ran_def)
  have "map_of (rs_prepared s) |` (- req_ClientID ` set ?xs) = Map.empty"
  proof
    fix d
    have "d \<in> req_ClientID ` set ?xs" if "map_of (rs_prepared s) d = Some r" for r
      using xs(1) ranI [of "map_of (rs_prepared s)", OF that] rl.find_client [OF l that] by auto
    then show "(map_of (rs_prepared s) |` (- req_ClientID ` set ?xs)) d = None"
      by (cases "map_of (rs_prepared s) d") (auto simp: restrict_map_def)
  qed
  then show ?thesis using unprepare_loop [OF inv xs(2) mem]
    by (simp add: unprepareReqs_def bindM_def gets_def)
qed

section \<open>View change\<close>

lemma start_keeps:
  assumes "lax E \<or> authen_total c" and "iter_order (cfg_order c)" and inv: "reqs_inv H R s"
  shows "wp (startViewChange c nv cert) (\<lambda>r s'. outcome E r (reqs_inv H R s')) s"
proof -
  let ?s = "s\<lparr>rs_view := (rs_view s)\<lparr>expectedView := nv\<rparr>, rs_log := Reset [] (rs_log s),
    rs_vcTimer := backoff_Start nv (rs_vcTimer s)\<rparr>"
  have "reqs_inv H R ?s" using inv by simp
  then obtain s' where u: "unprepareReqs c ?s = (s', Inr ())" and s': "reqs_inv H R s'"
    using unprepare_all assms(2) by blast
  have "wp (seqM (handleGeneratedMessage c (MCertified x)) (ret True))
      (\<lambda>r s'. outcome E r (reqs_inv H R s')) s'" for x
    by (intro keepsD [OF keeps_seqM] generated_keeps keeps_ret s' assms(1)) simp
  then show ?thesis using inv u
    by (simp add: wp_startViewChange startVCTimer_def wp_seqM [of "modify f" for f]
        wp_seqM [of "unprepareReqs c"] wp_modify wp_def [of "unprepareReqs c"])
qed

lemma rvc_keeps:
  assumes "lax E \<or> authen_total c" and "iter_order (cfg_order c)"
  shows "keeps E (reqs_inv H R) (processReqViewChange c rvc)"
  by (rule keepsI)
    (auto simp: wp_processReqViewChange split: prod.splits option.splits intro!: start_keeps [OF assms])

lemma vc_keeps:
  assumes "lax E \<or> authen_total c"
  shows "keeps E (reqs_inv H R) (processViewChange c vc)"
  unfolding processViewChange_def processNewViewCert_def split_def
  by (auto intro!: keeps_intros keeps_modify generated_keeps [OF assms] split: option.splits)

lemma enter_keeps: "keeps E (reqs_inv H R) (enter_view v)"
  unfolding enter_view_def split_def by (auto intro!: keeps_intros keeps_modify split: option.splits)

lemma commitment_keeps: "keeps E (reqs_inv H R) (on_commitments (commitment_done i nv v cv rcv))"
  by (rule keepsI) (auto simp: wp_def on_commitments_def commitment_done_def acceptCommitment_def Let_def
      split: prod.splits sum.splits)

lemma collect_keeps:
  assumes "lax E \<or> certified_ok y" and "certified_reqs y \<subseteq> R" and "E (Panic ''Request ID not prepared'')"
  shows "keeps E (reqs_inv H R) (collectCommitment y)"
  by (rule collect_parts [OF execute_keeps commitment_keeps _ assms(1,2)]) (simp_all add: assms(3))

lemma collect_keeps_any: "keeps any_panic (reqs_inv H R) (collectCommitment y)"
  by (rule collect_parts [OF execute_keeps commitment_keeps _ _ order_refl]) simp_all

lemma stop_vc_keeps: "keeps E (reqs_inv H R) stopVCTimer"
  unfolding stopVCTimer_def by (rule keeps_modify) simp

section \<open>Timer expiry and results\<close>

lemma expired_timer:
  assumes "timer_inv t" and "expire h (ts_provider t) = Some (p, cb)"
  shows "timer_inv (t\<lparr>ts_provider := p\<rparr>)"
  using assms provider_inv_StopTimer [of "ts_provider t" h]
  by (auto simp: expire_def timer_inv_def StopTimer_def split: option.splits)

lemma request_vc_keeps:
  "lax E \<or> authen_total c \<Longrightarrow> keeps E (reqs_inv H R) (requestViewChange c v)"
  unfolding requestViewChange_def split_def
  by (intro keeps_intros generated_keeps keeps_modify) simp_all

lemma client_reqs_timer:
  "client_reqs k prep pend ids \<Longrightarrow> timer_inv t \<Longrightarrow> client_reqs (k\<lparr>cs_requestTimer := t\<rparr>) prep pend ids"
  "client_reqs k prep pend ids \<Longrightarrow> timer_inv t' \<Longrightarrow> client_reqs (k\<lparr>cs_prepareTimer := t'\<rparr>) prep pend ids"
  by (auto simp: client_reqs_def client_inv_def split: option.splits)

lemma expire_request_keeps:
  assumes "lax E \<or> authen_total c"
  shows "keeps E (reqs_inv H R) (expireRequestTimer c cid h)"
  unfolding expireRequestTimer_def
proof (rule keeps_gets_bindM)
  fix s assume inv: "reqs_inv H R s"
  let ?t = "cs_requestTimer (client_of cid (rs_clients s))"
  have t: "timer_inv ?t" using reqs_parts(1) [OF inv, of cid] by (simp add: client_reqs_def client_inv_def)
  have after: "reqs_inv H R (s\<lparr>rs_clients := with_client cid
      (\<lambda>k. k\<lparr>cs_requestTimer := (cs_requestTimer k)\<lparr>ts_provider := p\<rparr>\<rparr>) (rs_clients s)\<rparr>)"
    if "expire h (ts_provider ?t) = Some (p, cb)" for p cb
    by (rule reqs_local [OF inv, where cid = cid])
      (use expired_timer [OF t that] reqs_parts(2-4) [OF inv] in \<open>auto intro: client_reqs_timer\<close>)
  show "wp (case expire h (ts_provider ?t) of
        None \<Rightarrow> ret ()
      | Some (p, _, _, view) \<Rightarrow>
          seqM (upd_client cid (\<lambda>k. k\<lparr>cs_requestTimer := (cs_requestTimer k)\<lparr>ts_provider := p\<rparr>\<rparr>))
            (handleReqTimeout c view)) (\<lambda>r s'. outcome E r (reqs_inv H R s')) s"
    using inv after keepsD [OF keeps_ignore [OF request_vc_keeps [OF assms]]]
    by (auto simp: wp_ret upd_client_def wp_seqM [of "modify f" for f] wp_modify handleReqTimeout_def
        split: option.splits)
qed

lemma expire_prepare_keeps: "keeps any_panic (reqs_inv H R) (expirePrepareTimer c cid h)"
  unfolding expirePrepareTimer_def
proof (rule keeps_gets_bindM)
  fix s assume inv: "reqs_inv H R s"
  let ?t = "cs_prepareTimer (client_of cid (rs_clients s))"
  have t: "timer_inv ?t" using reqs_parts(1) [OF inv, of cid] by (simp add: client_reqs_def client_inv_def)
  have after: "reqs_inv H R (s\<lparr>rs_clients := with_client cid
      (\<lambda>k. k\<lparr>cs_prepareTimer := (cs_prepareTimer k)\<lparr>ts_provider := p\<rparr>\<rparr>) (rs_clients s)\<rparr>)"
    if "expire h (ts_provider ?t) = Some (p, cb)" for p cb
    by (rule reqs_local [OF inv, where cid = cid])
      (use expired_timer [OF t that] reqs_parts(2-4) [OF inv] in \<open>auto intro: client_reqs_timer\<close>)
  have unicast: "keeps any_panic (reqs_inv H R) (handlePrepTimeout c req view)" for req view
    unfolding handlePrepTimeout_def Let_def
    by (auto intro!: keeps_intros keeps_throw keeps_modify split: option.splits)
  show "wp (case expire h (ts_provider ?t) of
        None \<Rightarrow> ret ()
      | Some (p, req, view) \<Rightarrow>
          seqM (upd_client cid (\<lambda>k. k\<lparr>cs_prepareTimer := (cs_prepareTimer k)\<lparr>ts_provider := p\<rparr>\<rparr>))
            (handlePrepTimeout c req view)) (\<lambda>r s'. outcome any_panic r (reqs_inv H R s')) s"
    using inv after keepsD [OF unicast]
    by (auto simp: wp_ret upd_client_def wp_seqM [of "modify f" for f] wp_modify split: option.splits)
qed

lemma expire_vc_keeps:
  "lax E \<or> authen_total c \<Longrightarrow> keeps E (reqs_inv H R) (expireVCTimer c h)"
  unfolding expireVCTimer_def handleViewChangeTimeout_def
  by (auto split: option.splits intro!: keeps_intros keeps_modify keeps_ignore request_vc_keeps)

lemma finish_keeps:
  "lax E \<or> authen_total c \<Longrightarrow> keeps E (reqs_inv H R) (finishExecution c i res)"
  unfolding finishExecution_def Let_def split_def
  by (intro keeps_intros keeps_modify generated_keeps) simp_all

lemma stop_keeps: "keeps E (reqs_inv H R) stopTimers"
  unfolding stopTimers_def
  by (intro keeps_intros keeps_client stop_vc_keeps)
    (simp_all add: StopAllTimers_def client_inv_def timer_StopAny_def timer_inv_stopAny)

section \<open>The invariant of the reachable states\<close>

text \<open>The premise is that Go's iteration over a map visits every entry once.\<close>

definition reqs_ok :: "config \<Rightarrow> request set \<Rightarrow> replica \<Rightarrow> bool" where
  "reqs_ok c R s \<longleftrightarrow> (iter_order (cfg_order c) \<longrightarrow> reqs_inv {} R s)"

lemma reqs_okI:
  assumes "iter_order (cfg_order c) \<Longrightarrow> keeps E (reqs_inv {} R) m" and "iter_order (cfg_order c) \<or> lax E"
  shows "keeps E (reqs_ok c R) m"
proof (cases "iter_order (cfg_order c)")
  case True
  then show ?thesis using assms(1) by (simp add: reqs_ok_def [abs_def])
next
  case False
  then show ?thesis using assms(2)
    by (auto simp: reqs_ok_def [abs_def] keeps_def wp_def outcome_def laxD split: sum.splits go_error.splits)
qed

lemma reqs_inv_new: "reqs_inv {} {} (new_replica c)"
  by (simp add: reqs_inv_def new_replica_def client_reqs_def new_list_def newClientState_def newSeqState_def
      ids_of_def) (simp add: client_inv_def seq_inv_def newSeqState_def list_inv_def)

interpretation rq: node_invariant c "reqs_ok c {}" for c
proof unfold_locales
  show "keeps any_panic (reqs_ok c {}) (processRequest c req)" for req
    by (rule reqs_okI) (simp_all add: gains_keeps_all [OF process_gains reqs_mono])
  show "reqs_ok c {} s \<Longrightarrow> reqs_ok c {} (s\<lparr>rs_lastUI := (rs_lastUI s)[k := x]\<rparr>)" for s k x
    by (simp add: reqs_ok_def)
qed (auto intro!: reqs_okI prepare_keeps collect_keeps_any pending_keeps timers_keep
    stop_vc_keeps enter_keeps generated_keeps rvc_keeps vc_keeps expire_request_keeps
    expire_prepare_keeps expire_vc_keeps finish_keeps stop_keeps)

lemma reach_reqs: "node_reach c x \<Longrightarrow> iter_order (cfg_order c) \<Longrightarrow> reqs_inv {} {} (nd_replica x)"
  using rq.reach_keeps [of c x] reqs_inv_new by (simp add: reqs_ok_def)

section \<open>Which panics a peer can cause\<close>

definition peer_panic :: "config \<Rightarrow> go_error \<Rightarrow> bool" where
  "peer_panic c e \<longleftrightarrow> e \<in> Panic ` {''Request ID not prepared'', ''Unexpected proposal message type''} \<or> \<not> (authen_total c \<and> iter_order (cfg_order c))"

lemma peer_panic_cases: "\<not> (authen_total c \<and> iter_order (cfg_order c)) \<Longrightarrow> lax (peer_panic c)"
  by (simp add: lax_def peer_panic_def)

lemma peer_lax: "lax (peer_panic c) \<or> authen_total c" "iter_order (cfg_order c) \<or> lax (peer_panic c)"
  using peer_panic_cases by blast+

lemma validate_shallow: "validateMessage c (MCertified y) = Inr () \<Longrightarrow> shallow_ok c y"
  by (auto simp: validateMessage_certified shallow_ok_def valid_log_def starts_view_def
      split: certified.splits list.splits if_splits)

lemma reqs_ok_gains:
  assumes "lax E \<or> authen_total c" and "iter_order (cfg_order c) \<or> lax E"
  shows "gains E (reqs_ok c) (processRequest c req) {req} True"
proof (cases "iter_order (cfg_order c)")
  case True
  then show ?thesis using process_gains [OF assms(1)] by (simp add: reqs_ok_def [abs_def])
next
  case False
  then show ?thesis using assms(2)
    by (auto simp: reqs_ok_def [abs_def] gains_def wp_def outcome_def laxD split: sum.splits go_error.splits)
qed

lemma ok_conj: "keeps E (reqs_ok c R) m \<Longrightarrow> keeps any_panic (ui_len c) m \<Longrightarrow>
    keeps E (\<lambda>s. reqs_ok c R s \<and> ui_len c s) m"
  by (rule keeps_conj)

interpretation pp: replica_invariant c "peer_panic c"
  "\<lambda>R s. reqs_ok c R s \<and> ui_len c s" "validateMessage c" for c
proof unfold_locales
  show "R \<subseteq> R' \<Longrightarrow> reqs_ok c R' s \<and> ui_len c s \<Longrightarrow> reqs_ok c R s \<and> ui_len c s" for R R' s
    by (auto simp: reqs_ok_def intro: reqs_mono)
  show "peer_kind m \<Longrightarrow> validateMessage c m = Inl e \<Longrightarrow> \<forall>x. e \<noteq> Error x \<Longrightarrow> peer_panic c e" for m e
    using validateMessage_panic [of c m e] by (cases m) (auto simp: peer_panic_def)
  show "lax (peer_panic c) \<or> (validateMessage c (MCertified y) = Inr () \<longrightarrow> shallow_ok c y)" for y
    using validate_shallow by blast
  show "lax (peer_panic c) \<or> (validateMessage c (MReqViewChange rvc) = Inr () \<longrightarrow> rvc_ReplicaID rvc < cfg_n c)" for rvc
    by (auto simp: validateMessage_def not_le split: if_splits)
  show "reqs_ok c R s \<and> ui_len c s \<Longrightarrow> lax (peer_panic c) \<or> length (rs_lastUI s) = unat (cfg_n c)" for R s
    by (simp add: ui_len_def)
  show "gains (peer_panic c) (\<lambda>R s. reqs_ok c R s \<and> ui_len c s) (processRequest c req) {req} True" for req
    by (intro gains_conj reqs_ok_gains peer_lax ul.op_request)
  show "lax (peer_panic c) \<or> certified_ok y \<Longrightarrow> certified_reqs y \<subseteq> R \<Longrightarrow>
      keeps (peer_panic c) (\<lambda>s. reqs_ok c R s \<and> ui_len c s) (collectCommitment y)" for R y
    by (intro ok_conj reqs_okI collect_keeps peer_lax ul.op_collect) (simp_all add: peer_panic_def)
  show "reqs_ok c R s \<and> ui_len c s \<Longrightarrow> reqs_ok c R (s\<lparr>rs_lastUI := (rs_lastUI s)[k := x]\<rparr>) \<and>
      ui_len c (s\<lparr>rs_lastUI := (rs_lastUI s)[k := x]\<rparr>)" for R s k x
    by (simp add: reqs_ok_def ui_len_def)
qed (auto intro!: ok_conj reqs_okI prepare_keeps pending_keeps timers_keep
    stop_vc_keeps enter_keeps generated_keeps rvc_keeps vc_keeps peer_lax
    ul.op_prepare ul.op_pending ul.op_stop_prep ul.op_stop_vc ul.op_enter ul.op_gen_commit
    ul.op_rvc ul.op_vc)

lemma peer_outcome:
  assumes "reqs_ok c {} s" and "ui_len c s" and "peer_kind m" and "handlePeerMessage c m s = (s', r)"
  shows "outcome (peer_panic c) r (reqs_ok c {} s' \<and> ui_len c s')"
  using keeps_run [OF pp.handleMessage_keeps [OF disjI2 [OF assms(3)]], of c "{}" s s' r] assms
  by (simp add: handlePeerMessage_def)

end
