(* ===== verification/CommitHistory.thy ===== *)
theory CommitHistory
  imports RequestInvariants
begin

text \<open>
  Requests are executed only with a commit certificate: the commitments that a replica has
  accepted, and what it has delivered because of them.
\<close>

section \<open>Histories of accepted messages\<close>

definition commitment_of :: "certified \<Rightarrow> commitment option" where
  "commitment_of m =
     (case proposal_of m of
        Prepare r v req u \<Rightarrow> Some (ReplicaID m, False, v, Counter u, Counter (UI m))
      | NewView r v cert u \<Rightarrow> Some (ReplicaID m, True, v, Counter u, Counter (UI m))
      | _ \<Rightarrow> None)"

definition commitments_of :: "message_log \<Rightarrow> commitment list" where
  "commitments_of h = concat (map (\<lambda>m. case commitment_of m of None \<Rightarrow> [] | Some k \<Rightarrow> [k]) h)"

text \<open>
  \<open>genuine\<close>: the proposals carry identifiers that a USIG can have issued. Counters are not zero, and
  the proposals to start the same view are one and the same NewView.
\<close>

definition genuine :: "message_log \<Rightarrow> bool" where
  "genuine h \<longleftrightarrow> (\<forall>m \<in> set h. Counter (UI (proposal_of m)) \<noteq> 0) \<and> (\<forall>v. one_new_view (commitments_of h) v)"

text \<open>The replicas that have committed to the proposal that \<open>m\<close> commits to.\<close>

definition committers :: "message_log \<Rightarrow> certified \<Rightarrow> u32 set" where
  "committers h m =
     (case commitment_of m of None \<Rightarrow> {} | Some (_, _, v, cv, _) \<Rightarrow> committed_to (commitments_of h) v cv)"

definition executes :: "certified \<Rightarrow> request \<Rightarrow> bool" where
  "executes m req =
     (case proposal_of m of
        Prepare r v q u \<Rightarrow> req = q
      | NewView r v cert u \<Rightarrow> (case extractPreparedRequests cert of Inl e \<Rightarrow> False | Inr reqs \<Rightarrow> req \<in> set reqs)
      | _ \<Rightarrow> False)"

definition hist_inv :: "config \<Rightarrow> replica \<Rightarrow> bool" where
  "hist_inv c s \<longleftrightarrow> (commitCertSize c \<noteq> 0 \<and> genuine (rs_accepted s) \<longrightarrow>
     commit_trace (commitCertSize c) (commitments_of (rs_accepted s)) (rs_commitments s) \<and>
     (\<forall>req \<in> set (rs_delivered s). \<exists>m \<in> set (rs_accepted s).
        executes m req \<and> unat (commitCertSize c) \<le> card (committers (rs_accepted s) m)))"

lemma commitments_of_snoc [simp]:
  "commitments_of (h @ [m]) = commitments_of h @ (case commitment_of m of None \<Rightarrow> [] | Some k \<Rightarrow> [k])"
  by (simp add: commitments_of_def)

lemma genuine_snoc: "genuine (h @ [m]) \<Longrightarrow> genuine h"
  by (auto simp: genuine_def one_new_view_def split: option.splits)

lemma committers_mono: "committers h m \<subseteq> committers (h @ [x]) m"
  by (auto simp: committers_def committed_to_def split: option.splits)

lemma card_committers_mono: "card (committers h m) \<le> card (committers (h @ [x]) m)"
  by (rule card_mono [OF finite committers_mono])

definition certified_by :: "config \<Rightarrow> certified \<Rightarrow> replica \<Rightarrow> bool" where
  "certified_by c m s \<longleftrightarrow> (commitCertSize c \<noteq> 0 \<and> genuine (rs_accepted s) \<longrightarrow>
     m \<in> set (rs_accepted s) \<and> unat (commitCertSize c) \<le> card (committers (rs_accepted s) m))"

section \<open>Delivery needs a certificate\<close>

lemma hist_inv_simps [simp]:
  "hist_inv c (s\<lparr>rs_clients := cl\<rparr>) = hist_inv c s" "hist_inv c (s\<lparr>rs_pending := l\<rparr>) = hist_inv c s"
  "hist_inv c (s\<lparr>rs_prepared := l\<rparr>) = hist_inv c s" "hist_inv c (s\<lparr>rs_unicast := uc\<rparr>) = hist_inv c s"
  "hist_inv c (s\<lparr>rs_lastUI := us\<rparr>) = hist_inv c s" "hist_inv c (s\<lparr>rs_vcTimer := t\<rparr>) = hist_inv c s"
  "hist_inv c (s\<lparr>rs_requested := v\<rparr>) = hist_inv c s" "hist_inv c (s\<lparr>rs_executing := ex\<rparr>) = hist_inv c s"
  "hist_inv c (s\<lparr>rs_view := vw\<rparr>) = hist_inv c s" "hist_inv c (s\<lparr>rs_log := lg\<rparr>) = hist_inv c s"
  "hist_inv c (s\<lparr>rs_usig := n\<rparr>) = hist_inv c s" "hist_inv c (s\<lparr>rs_rvcs := k\<rparr>) = hist_inv c s"
  "hist_inv c (s\<lparr>rs_vcs := k'\<rparr>) = hist_inv c s"
  by (simp_all add: hist_inv_def)

lemma certified_by_simps [simp]:
  "certified_by c m (s\<lparr>rs_clients := cl\<rparr>) = certified_by c m s"
  "certified_by c m (s\<lparr>rs_prepared := l\<rparr>) = certified_by c m s"
  by (simp_all add: certified_by_def)

lemma hist_execute:
  assumes "executes m req"
  shows "keeps any_panic (\<lambda>s. hist_inv c s \<and> certified_by c m s) (executeRequest req)"
proof -
  have "hist_inv c s \<and> certified_by c m s \<Longrightarrow>
      hist_inv c (s\<lparr>rs_delivered := rs_delivered s @ [req], rs_executing := x\<rparr>) \<and>
      certified_by c m (s\<lparr>rs_delivered := rs_delivered s @ [req], rs_executing := x\<rparr>)" for s x
    using assms by (auto simp: hist_inv_def certified_by_def)
  then show ?thesis
    unfolding executeRequest_def retireReq_def stopReqTimer_def
    by (intro keeps_intros keeps_must keeps_on_seq keeps_upd_client keeps_modify) simp_all
qed

lemma hist_accepted:
  assumes inv: "hist_inv c s" and k: "commitment_of m = Some (r, nv, v, cv, rcv)"
    and ok: "commitment_done r nv v cv rcv (rs_commitments s) = (cm, Inr d)"
  defines "s' \<equiv> s\<lparr>rs_commitments := cm, rs_accepted := rs_accepted s @ [m]\<rparr>"
  shows "hist_inv c s'" and "d \<Longrightarrow> certified_by c m s'"
proof -
  let ?h = "rs_accepted s" and ?k = "commitCertSize c"
  have step: "commit_trace ?k (commitments_of (?h @ [m])) cm \<and>
      (d \<longrightarrow> unat ?k \<le> card (committers (?h @ [m]) m))"
    if k0: "?k \<noteq> 0" and gen: "genuine (?h @ [m])"
  proof -
    have tr: "commit_trace ?k (commitments_of ?h) (rs_commitments s)"
      using inv k0 genuine_snoc [OF gen] by (simp add: hist_inv_def)
    have cv: "cv \<noteq> 0" and one: "one_new_view (commitments_of ?h @ [(r, nv, v, cv, rcv)]) v"
      using gen k by (auto simp: genuine_def commitment_of_def split: certified.splits)
    show ?thesis
      using trace_accept [OF tr cv ok] done_has_certificate [OF tr cv k0 _ one] ok k
      by (auto simp: committers_def)
  qed
  show "hist_inv c s'"
    using inv step genuine_snoc [of ?h m] card_committers_mono [of ?h _ m]
    unfolding hist_inv_def s'_def
    by (auto 0 4 intro: order_trans)
  show "certified_by c m s'" if d
    using step that by (simp add: certified_by_def s'_def)
qed

lemma hist_collect_step:
  assumes k: "commitment_of m = Some (r, nv, v, cv, rcv)"
    and go: "keeps any_panic (\<lambda>s. hist_inv c s \<and> certified_by c m s) f"
  shows "keeps any_panic (hist_inv c) (bindM (bindM (on_commitments (commitment_done r nv v cv rcv))
      (\<lambda>done. seqM (modify (\<lambda>s. s\<lparr>rs_accepted := rs_accepted s @ [m]\<rparr>)) (ret done)))
      (\<lambda>done. if \<not> done then ret () else f))"
proof (rule keepsI)
  fix s assume inv: "hist_inv c s"
  obtain cm res where d: "commitment_done r nv v cv rcv (rs_commitments s) = (cm, res)" by fastforce
  let ?s = "s\<lparr>rs_commitments := cm, rs_accepted := rs_accepted s @ [m]\<rparr>"
  have same: "cm = rs_commitments s" if "res = Inl e" for e
    using d that commitment_done_rejects by blast
  have f: "wp f (\<lambda>r s'. outcome any_panic r (hist_inv c s')) ?s" if "res = Inr True"
    using keepsD [OF go, of ?s] hist_accepted [OF inv k] d that
    by (auto elim!: wp_mono outcome_mono)
  show "wp (bindM (bindM (on_commitments (commitment_done r nv v cv rcv))
      (\<lambda>done. seqM (modify (\<lambda>s. s\<lparr>rs_accepted := rs_accepted s @ [m]\<rparr>)) (ret done)))
      (\<lambda>done. if \<not> done then ret () else f)) (\<lambda>r s'. outcome any_panic r (hist_inv c s')) s"
    using d same f hist_accepted(1) [OF inv k] inv
    by (cases res) (auto simp: wp_bindM wp_seqM wp_modify wp_ret on_commitments_def
        wp_def [of "on_commitments x" for x] outcome_def split: go_error.splits)
qed

lemma hist_accept_new_view:
  assumes "proposal_of m = NewView r v cert u"
  shows "keeps any_panic (\<lambda>s. hist_inv c s \<and> certified_by c m s) (acceptNewView cert)"
proof (cases "extractPreparedRequests cert")
  case (Inl e)
  then show ?thesis by (cases e) (simp_all add: acceptNewView_def keeps_def wp_rules)
next
  case (Inr reqs)
  then have "executes m req" if "req \<in> set reqs" for req using assms that by (simp add: executes_def)
  then have "keeps any_panic (\<lambda>s. hist_inv c s \<and> certified_by c m s) (forM executeRequest reqs)"
    by (intro keeps_forM hist_execute)
  with Inr show ?thesis by (simp add: acceptNewView_def keeps_def wp_rules)
qed

lemma hist_collect: "keeps any_panic (hist_inv c) (collectCommitment m)"
proof (cases "proposal_of m")
  case (Prepare r v req u)
  then show ?thesis
    using hist_collect_step [of m _ _ _ _ _ c, OF _ hist_execute [of m req c]]
    by (auto simp: collectCommitment_def Let_def commitment_of_def executes_def intro!: keeps_intros)
next
  case (NewView r v cert u)
  then show ?thesis
    using hist_collect_step [of m _ _ _ _ _ c, OF _ hist_accept_new_view [OF NewView]]
    by (auto simp: collectCommitment_def Let_def commitment_of_def intro!: keeps_intros)
qed (auto simp: collectCommitment_def Let_def intro!: keeps_intros)

interpretation hi: inert_invariant "hist_inv e" for e
  by unfold_locales (simp_all add: hist_collect)

lemma hist_inv_new: "hist_inv c (new_replica c)"
  by (auto simp: hist_inv_def new_replica_def commitments_of_def intro: trace_start)

lemma reach_hist: "node_reach c x \<Longrightarrow> hist_inv c (nd_replica x)"
  using hist_inv_new by (rule hi.reach_keeps [rotated])

end
