(* ===== verification/Agreement.thy ===== *)
theory Agreement
  imports CommitHistory "HOL-Library.Sublist"
begin

text \<open>
  What a replica delivers is determined by the commitments it has accepted: the requests of the
  completed proposals, in the order of completion, each executed once. Proposals of a view are
  completed in the order of their counters and none is skipped, so two replicas that execute the
  proposals of a view from the same state stay consistent.
\<close>

section \<open>Replaying a history\<close>

text \<open>The requests that the proposal of a commitment asks to execute, in order.\<close>

definition requests_of :: "certified \<Rightarrow> request list" where
  "requests_of m =
     (case proposal_of m of
        Prepare r v req u \<Rightarrow> [req]
      | NewView r v cert u \<Rightarrow> (case extractPreparedRequests cert of Inl e \<Rightarrow> [] | Inr reqs \<Rightarrow> reqs)
      | _ \<Rightarrow> [])"

text \<open>A request is delivered if its identifier is above those delivered for the client before.\<close>

definition execute_once :: "request \<Rightarrow> request list \<Rightarrow> request list" where
  "execute_once req d =
     (if req_Sequence req = 0 \<or> (\<exists>q \<in> set d. req_ClientID q = req_ClientID req \<and> req_Sequence req \<le> req_Sequence q)
      then d else d @ [req])"

text \<open>
  The accepted messages determine everything: the state of the collector, and the messages at
  which a proposal was complete. \<open>None\<close> stands for a history that the collector does not accept.
\<close>

definition history_step :: "certified \<Rightarrow> commitments \<times> message_log \<Rightarrow> (commitments \<times> message_log) option" where
  "history_step m = (\<lambda>(cm, ms).
     case commitment_of m of
       None \<Rightarrow> None
     | Some (r, nv, v, cv, rcv) \<Rightarrow>
         (case commitment_done r nv v cv rcv cm of
            (cm', Inl e) \<Rightarrow> None
          | (cm', Inr d) \<Rightarrow> Some (cm', if d then ms @ [m] else ms)))"

definition run_history :: "u32 \<Rightarrow> message_log \<Rightarrow> (commitments \<times> message_log) option" where
  "run_history sz h = foldl (\<lambda>x m. Option.bind x (history_step m)) (Some (new_commitments sz, [])) h"

definition deliveries :: "message_log \<Rightarrow> request list" where
  "deliveries ms = fold execute_once (concat (map requests_of ms)) []"

definition replay_inv :: "config \<Rightarrow> replica \<Rightarrow> bool" where
  "replay_inv c s \<longleftrightarrow>
     (\<exists>ms. run_history (commitCertSize c) (rs_accepted s) = Some (rs_commitments s, ms) \<and> rs_delivered s = deliveries ms)"

interpretation rpf: inert_frame "replay_inv c" for c
  by unfold_locales (simp_all add: replay_inv_def)

lemma retired_iff:
  assumes "reqs_inv H R s"
  shows "req_Sequence req \<le> lastRetiredSeq (seqs_of s (req_ClientID req)) \<longleftrightarrow>
    execute_once req (rs_delivered s) = rs_delivered s"
proof -
  let ?ids = "ids_of (req_ClientID req) (rs_delivered s)"
  have ids: "sorted_wrt (<) ?ids" "\<forall>q \<in> set ?ids. q \<le> lastRetiredSeq (seqs_of s (req_ClientID req))"
    and r: "lastRetiredSeq (seqs_of s (req_ClientID req)) = (if ?ids = [] then 0 else last ?ids)"
    using reqs_parts(1) [OF assms, of "req_ClientID req"] by (auto simp: client_reqs_def)
  have "req_Sequence req \<le> lastRetiredSeq (seqs_of s (req_ClientID req)) \<longleftrightarrow>
      req_Sequence req = 0 \<or> (\<exists>q \<in> set ?ids. req_Sequence req \<le> q)"
    using ids(2) r last_in_set [of ?ids] by (auto intro: order_trans)
  also have "(\<exists>q \<in> set ?ids. req_Sequence req \<le> q) \<longleftrightarrow>
      (\<exists>q \<in> set (rs_delivered s). req_ClientID q = req_ClientID req \<and> req_Sequence req \<le> req_Sequence q)"
    by (auto simp: ids_of_def)
  finally show ?thesis by (auto simp: execute_once_def)
qed

text \<open>What executing a request does to the part of the state that a replay sees.\<close>

definition after_exec :: "u32 set \<Rightarrow> request set \<Rightarrow> replica \<Rightarrow> request list \<Rightarrow> replica \<Rightarrow> bool" where
  "after_exec H R s d s' \<longleftrightarrow> reqs_inv H R s' \<and> rs_delivered s' = d \<and> rs_commitments s' = rs_commitments s \<and>
     rs_accepted s' = rs_accepted s"

lemma execute_replay:
  assumes inv: "reqs_inv H R s"
  shows "wp (executeRequest req) (\<lambda>r s'. outcome any_panic r (after_exec H R s (execute_once req (rs_delivered s)) s')) s"
proof -
  let ?c = "req_ClientID req" and ?q = "req_Sequence req"
  have k: "wp (executeRequest req) (\<lambda>r s'. outcome any_panic r (reqs_inv H R s')) s"
    by (rule keepsD [OF execute_keeps inv]) simp
  have "wp (executeRequest req) (\<lambda>r s'. outcome any_panic r
      (rs_delivered s' = execute_once req (rs_delivered s) \<and> rs_commitments s' = rs_commitments s \<and>
       rs_accepted s' = rs_accepted s)) s"
    using retired_iff [OF inv, of req]
    by (auto simp: executeRequest_def retireReq_def stopReqTimer_def upd_client_def wp_rules wp_must wp_on_seq
        RetireRequestSeq_def execute_once_def split: if_splits)
  with k show ?thesis
    unfolding wp_def after_exec_def by (auto intro: outcome_conj)
qed

lemma execute_all_replay:
  assumes "reqs_inv H R s"
  shows "wp (forM executeRequest reqs) (\<lambda>r s'. outcome any_panic r (after_exec H R s (fold execute_once reqs (rs_delivered s)) s')) s"
  using assms
proof (induction reqs arbitrary: s)
  case Nil
  then show ?case by (simp add: wp_rules after_exec_def)
next
  case (Cons req reqs)
  have "wp (forM executeRequest reqs) (\<lambda>r s''. outcome any_panic r (after_exec H R s
      (fold execute_once (req # reqs) (rs_delivered s)) s'')) s'"
    if "after_exec H R s (execute_once req (rs_delivered s)) s'" for s'
    using Cons.IH [of s'] that by (auto simp: after_exec_def elim!: wp_mono outcome_mono)
  moreover have "snd (executeRequest req s) \<noteq> Inl (Error e)" for e
    by (auto simp: executeRequest_def retireReq_def must_def on_seq_def stopReqTimer_def upd_client_def
        bindM_def seqM_def modify_def ret_def split: prod.splits sum.splits go_error.splits)
  moreover obtain s1 r1 where e: "executeRequest req s = (s1, r1)" by fastforce
  moreover have "outcome any_panic r1 (after_exec H R s (execute_once req (rs_delivered s)) s1)"
    using execute_replay [OF Cons.prems, of req] e by (simp add: wp_def)
  ultimately show ?case
    by (cases r1; cases "projl r1") (auto simp: wp_seqM wp_def [of "executeRequest req"] outcome_def)
qed


lemma accept_replay:
  assumes "reqs_inv H R s" and "proposal_of m = NewView r v cert u"
  shows "wp (acceptNewView cert) (\<lambda>r s'. outcome any_panic r (after_exec H R s (fold execute_once (requests_of m) (rs_delivered s)) s')) s"
proof (cases "extractPreparedRequests cert")
  case (Inl e)
  then show ?thesis using assms
    by (cases e) (simp_all add: acceptNewView_def wp_rules requests_of_def after_exec_def)
next
  case (Inr reqs)
  with execute_all_replay [OF assms(1), of reqs] assms(2) show ?thesis
    by (simp add: acceptNewView_def requests_of_def wp_rules)
qed

lemma run_history_snoc: "run_history sz (h @ [m]) = Option.bind (run_history sz h) (history_step m)"
  by (simp add: run_history_def)

lemma run_history_snocE:
  assumes "run_history sz (h @ [m]) = Some (cm, ms)"
  obtains cm0 ms0 r nv v cv rcv d where "run_history sz h = Some (cm0, ms0)" "commitment_of m = Some (r, nv, v, cv, rcv)"
    "commitment_done r nv v cv rcv cm0 = (cm, Inr d)" "ms = (if d then ms0 @ [m] else ms0)"
proof -
  obtain cm0 ms0 where r: "run_history sz h = Some (cm0, ms0)" and m: "history_step m (cm0, ms0) = Some (cm, ms)"
    using assms by (auto simp: run_history_snoc bind_eq_Some_conv)
  then obtain k where "commitment_of m = Some k" by (auto simp: history_step_def split: option.splits)
  moreover obtain i nv v cv rcv where "k = (i, nv, v, cv, rcv)" by (cases k)
  moreover obtain cm' res where "commitment_done i nv v cv rcv cm0 = (cm', res)" by fastforce
  ultimately show thesis using r m that by (cases res) (auto simp: history_step_def)
qed

lemma deliveries_snoc: "deliveries (ms @ [m]) = fold execute_once (requests_of m) (deliveries ms)"
  by (simp add: deliveries_def)

lemma collect_step_replay:
  assumes k: "commitment_of m = Some (r, nv, v, cv, rcv)"
    and go: "\<And>s. reqs_inv H R s \<Longrightarrow> wp f (\<lambda>r s'. outcome any_panic r
      (after_exec H R s (fold execute_once (requests_of m) (rs_delivered s)) s')) s"
  shows "keeps any_panic (\<lambda>s. reqs_inv H R s \<and> replay_inv c s) (bindM (bindM (on_commitments (commitment_done r nv v cv rcv))
      (\<lambda>done. seqM (modify (\<lambda>s. s\<lparr>rs_accepted := rs_accepted s @ [m]\<rparr>)) (ret done)))
      (\<lambda>done. if \<not> done then ret () else f))"
proof (rule keepsI)
  fix s assume inv: "reqs_inv H R s \<and> replay_inv c s"
  obtain cm res where d: "commitment_done r nv v cv rcv (rs_commitments s) = (cm, res)" by fastforce
  let ?s = "s\<lparr>rs_commitments := cm, rs_accepted := rs_accepted s @ [m]\<rparr>"
  have same: "cm = rs_commitments s" if "res = Inl e" for e
    using d that commitment_done_rejects by blast
  obtain ms where ms: "run_history (commitCertSize c) (rs_accepted s) = Some (rs_commitments s, ms)"
    "rs_delivered s = deliveries ms" using inv by (auto simp: replay_inv_def)
  have one: "run_history (commitCertSize c) (rs_accepted s @ [m]) = Some (cm, if b then ms @ [m] else ms)"
    if "res = Inr b" for b using ms d k that by (simp add: run_history_snoc history_step_def)
  have f: "wp f (\<lambda>r s'. outcome any_panic r (reqs_inv H R s' \<and> replay_inv c s')) ?s" if "res = Inr True"
    using go [of ?s] inv one [OF that] ms(2)
    by (auto simp: after_exec_def replay_inv_def deliveries_snoc elim!: wp_mono outcome_mono)
  have n: "replay_inv c ?s" if "res = Inr False" using one [OF that] ms(2) by (simp add: replay_inv_def)
  show "wp (bindM (bindM (on_commitments (commitment_done r nv v cv rcv))
      (\<lambda>done. seqM (modify (\<lambda>s. s\<lparr>rs_accepted := rs_accepted s @ [m]\<rparr>)) (ret done)))
      (\<lambda>done. if \<not> done then ret () else f)) (\<lambda>r s'. outcome any_panic r (reqs_inv H R s' \<and> replay_inv c s')) s"
    using d same f n inv
    by (cases res) (auto simp: wp_bindM wp_seqM wp_modify wp_ret on_commitments_def
        wp_def [of "on_commitments x" for x] outcome_def replay_inv_def split: go_error.splits)
qed

lemma collect_replay: "keeps any_panic (\<lambda>s. reqs_inv H R s \<and> replay_inv c s) (collectCommitment m)"
proof (cases "proposal_of m")
  case (Prepare r v req u)
  have "requests_of m = [req]" using Prepare by (simp add: requests_of_def)
  then show ?thesis using Prepare collect_step_replay [of m _ _ _ _ _ H R "executeRequest req" c] execute_replay [of H R _ req]
    by (auto simp: collectCommitment_def Let_def commitment_of_def intro!: keeps_intros)
next
  case (NewView r v cert u)
  then show ?thesis using collect_step_replay [of m _ _ _ _ _ H R "acceptNewView cert" c] accept_replay [OF _ NewView]
    by (auto simp: collectCommitment_def Let_def commitment_of_def intro!: keeps_intros)
qed (auto simp: collectCommitment_def Let_def intro!: keeps_intros)

definition replay_ok :: "config \<Rightarrow> replica \<Rightarrow> bool" where
  "replay_ok c s \<longleftrightarrow> (iter_order (cfg_order c) \<longrightarrow> reqs_inv {} {} s \<and> replay_inv c s)"

lemma replay_okI:
  assumes "keeps any_panic (reqs_ok c {}) m" and "keeps any_panic (replay_inv c) m"
  shows "keeps any_panic (replay_ok c) m"
proof -
  have "replay_ok c = (\<lambda>s. reqs_ok c {} s \<and> (iter_order (cfg_order c) \<longrightarrow> replay_inv c s))"
    by (auto simp: replay_ok_def reqs_ok_def)
  moreover have "keeps any_panic (\<lambda>s. iter_order (cfg_order c) \<longrightarrow> replay_inv c s) m"
    using assms(2) by (cases "iter_order (cfg_order c)") (auto simp: keeps_def wp_def outcome_def split: sum.splits go_error.splits)
  ultimately show ?thesis using keeps_conj [OF assms(1)] by simp
qed

interpretation rp: node_invariant c "replay_ok c" for c
proof unfold_locales
  show "keeps any_panic (replay_ok c) (collectCommitment y)" for y
    using collect_replay [of "{}" "{}" c y]
    by (cases "iter_order (cfg_order c)") (auto simp: replay_ok_def [abs_def] keeps_def wp_def outcome_def split: sum.splits go_error.splits)
  show "replay_ok c s \<Longrightarrow> replay_ok c (s\<lparr>rs_lastUI := (rs_lastUI s)[k := x]\<rparr>)" for s k x
    by (simp add: replay_ok_def replay_inv_def)
qed (intro replay_okI; fact rq.op_request rq.op_prepare rq.op_pending rq.op_stop_prep rq.op_stop_vc rq.op_enter
    rq.op_gen_commit rq.op_rvc rq.op_vc rq.op_request_timer rq.op_prepare_timer rq.op_vc_timer rq.op_finish rq.op_stop
    rpf.process_request rpf.prepare_request rpf.apply_pending rpf.stop_prep rpf.frame_vc_timer rpf.enter
    rpf.gen_commit rpf.rvc rpf.vc rpf.expire_request rpf.expire_prepare rpf.expire_vc rpf.finish rpf.stop)+

lemma reach_replay: "node_reach c x \<Longrightarrow> iter_order (cfg_order c) \<Longrightarrow> replay_inv c (nd_replica x)"
proof -
  have "replay_ok c (new_replica c)" using reqs_inv_new [of c]
    by (simp add: replay_ok_def replay_inv_def run_history_def deliveries_def new_replica_def)
  then show "node_reach c x \<Longrightarrow> iter_order (cfg_order c) \<Longrightarrow> replay_inv c (nd_replica x)"
    using rp.reach_keeps [of c x] by (simp add: replay_ok_def)
qed


section \<open>No proposal is skipped\<close>

text \<open>View and counter of the proposal that a message commits to.\<close>

definition slot_of :: "certified \<Rightarrow> u64 \<times> u64" where
  "slot_of m = (case commitment_of m of None \<Rightarrow> (0, 0) | Some (r, nv, v, cv, rcv) \<Rightarrow> (v, cv))"

text \<open>A replica commits in turn: to a NewView, to the first proposal of view zero, or to the next proposal.\<close>

lemma committed_previous:
  "commit_trace sz h s \<Longrightarrow> r \<in> committed_to h v cv \<Longrightarrow> \<not> (v = 0 \<and> cv = 1) \<Longrightarrow>
   \<forall>q rcv. (q, True, v, cv, rcv) \<notin> set h \<Longrightarrow> r \<in> committed_to h v (cv - 1)"
proof (induction rule: commit_trace.induct)
  case (trace_accept h s x i nv w rcv s' d)
  note snoc = committed_to_snoc
  show ?case
  proof (cases "r \<in> committed_to h v cv")
    case True
    with trace_accept show ?thesis by (auto simp: snoc)
  next
    case False
    then have k: "i = r" "w = v" "x = cv" using trace_accept.prems(1) by (auto simp: snoc split: if_splits)
    then have "\<not> nv" using trace_accept.prems(3) by (cases nv) auto
    have "backed h (cm_acceptor s)" using trace_backed [OF trace_accept.hyps(1)] by blast
    moreover from commitment_done_accepts [OF trace_accept.hyps(3)] trace_accept.hyps(2)
    have a: "replicaViews (cm_acceptor s) r = v" "lastPrimaryCVs (cm_acceptor s) r = cv - 1"
      using \<open>\<not> nv\<close> k by (auto elim: accept_cases)
    ultimately have b: "backed_at h r v (cv - 1)" unfolding backed_def by metis
    have "v = 0 \<Longrightarrow> 0 < cv - 1" using trace_accept.prems(2) by (auto simp: word_neq_0_conv [symmetric])
    with b have "r \<in> committed_to h v (cv - 1)" by (auto simp: backed_at_def split: if_splits)
    then show ?thesis by (auto simp: snoc)
  qed
qed (simp_all add: committed_to_def)

text \<open>A proposal that is not a NewView has another counter than the NewView of its view.\<close>

lemma prepare_not_new_view:
  assumes tr: "commit_trace sz h s" and "cv \<noteq> 0" and d: "commitment_done r False v cv rcv s = (s', Inr d)"
    and one: "one_new_view h v"
  shows "(q, True, v, cv, rcv') \<notin> set h"
proof
  assume q: "(q, True, v, cv, rcv') \<in> set h"
  from commitment_done_accepts [OF d] \<open>cv \<noteq> 0\<close>
  have a: "replicaViews (cm_acceptor s) r = v" "lastPrimaryCVs (cm_acceptor s) r < cv" by (auto elim: accept_cases)
  have b: "backed_at h r v (lastPrimaryCVs (cm_acceptor s) r)" using trace_backed [OF tr] a(1) by (auto simp: backed_def)
  have "v \<noteq> 0" using tr q
  proof (induction rule: commit_trace.induct)
    case (trace_accept h s x i nv w rcv s' d)
    then show ?case using commitment_done_accepts [OF trace_accept.hyps(3)] by (auto elim!: accept_cases)
  qed simp_all
  with b obtain y rcv'' where "(r, True, v, y, rcv'') \<in> set h" "y \<le> lastPrimaryCVs (cm_acceptor s) r"
    by (auto simp: backed_at_def)
  with q one a(2) show False unfolding one_new_view_def by (metis not_le)
qed


text \<open>What a history that the collector accepts tells of the completed proposals.\<close>

definition follows :: "message_log \<Rightarrow> certified \<Rightarrow> bool" where
  "follows earlier m =
     (case commitment_of m of
        None \<Rightarrow> False
      | Some (r, nv, v, cv, rcv) \<Rightarrow> nv \<or> (v, cv) = (0, 1) \<or> (v, cv - 1) \<in> slot_of ` set earlier)"

definition ordered :: "message_log \<Rightarrow> bool" where
  "ordered ms \<longleftrightarrow> (\<forall>i < length ms. follows (take i ms) (ms ! i))"

lemma ordered_snoc: "ordered (ms @ [m]) \<longleftrightarrow> ordered ms \<and> follows ms m"
  by (auto simp: ordered_def less_Suc_eq nth_append)

lemma lastView_done: "commitment_done r nv v cv rcv s = (s', Inr d) \<Longrightarrow> lastView (cm_counter s) \<le> lastView (cm_counter s')"
  by (auto simp: commitment_done_def split: prod.splits sum.splits elim!: count_cases)

lemma committed_nonzero: "genuine h \<Longrightarrow> committed_to (commitments_of h) v 0 = {}"
  by (auto simp: committed_to_def commitments_of_def genuine_def commitment_of_def
      split: option.splits certified.splits)

lemma run_history_inv:
  assumes "run_history sz h = Some (cm, ms)" and "sz \<noteq> 0" and "genuine h"
  shows "commit_trace sz (commitments_of h) cm \<and> set ms \<subseteq> set h \<and> ordered ms \<and>
    (\<forall>m \<in> set ms. unat sz \<le> card (committers h m)) \<and>
    (\<forall>v cv. cv \<noteq> 0 \<and> lastView (cm_counter cm) \<le> v \<and> unat sz \<le> card (committed_to (commitments_of h) v cv) \<longrightarrow>
       (v, cv) \<in> slot_of ` set ms)"
  using assms(1,3)
proof (induction h arbitrary: cm ms rule: rev_induct)
  case Nil
  then show ?case using assms(2)
    by (auto simp: run_history_def commitments_of_def ordered_def committed_to_def unat_eq_0 intro: trace_start)
next
  case (snoc m h)
  obtain cm0 ms0 r nv v cv rcv d where r0: "run_history sz h = Some (cm0, ms0)"
    and k: "commitment_of m = Some (r, nv, v, cv, rcv)"
    and d: "commitment_done r nv v cv rcv cm0 = (cm, Inr d)" and ms: "ms = (if d then ms0 @ [m] else ms0)"
    using snoc.prems(1) by (rule run_history_snocE)
  note IH = snoc.IH [OF r0 genuine_snoc [OF snoc.prems(2)]]
  have cv: "cv \<noteq> 0" and one: "one_new_view (commitments_of h @ [(r, nv, v, cv, rcv)]) w" for w
    using snoc.prems(2) k by (auto simp: genuine_def commitment_of_def split: certified.splits)
  have tr: "commit_trace sz (commitments_of h) cm0" using IH by blast
  have tr': "commit_trace sz (commitments_of (h @ [m])) cm" using trace_accept [OF tr cv d] k by simp
  have iff: "d \<longleftrightarrow> lastView (cm_counter cm0) \<le> v \<and> unat sz \<le> card (committed_to (commitments_of h @ [(r, nv, v, cv, rcv)]) v cv)"
    by (rule done_iff_certificate_core [OF tr cv assms(2) d one])
  have slot: "slot_of m = (v, cv)" using k by (simp add: slot_of_def)
  have complete: "(w, x) \<in> slot_of ` set ms"
    if "x \<noteq> 0" "lastView (cm_counter cm) \<le> w" "unat sz \<le> card (committed_to (commitments_of (h @ [m])) w x)" for w x
  proof (cases "(w, x) = (v, cv)")
    case True
    then show ?thesis using that iff lastView_done [OF d] ms slot k by (auto intro: order_trans)
  next
    case False
    then have "unat sz \<le> card (committed_to (commitments_of h) w x)" using that(3) k by (simp add: committed_to_snoc split: if_splits)
    then show ?thesis using IH that(1,2) lastView_done [OF d] ms by (auto intro: order_trans)
  qed
  have "nv \<or> (v, cv) = (0, 1) \<or> (v, cv - 1) \<in> slot_of ` set ms0" if d
  proof (rule ccontr)
    assume "\<not> ?thesis"
    then have n: "\<not> nv" "\<not> (v = 0 \<and> cv = 1)" "(v, cv - 1) \<notin> slot_of ` set ms0" by auto
    have tr1: "commit_trace sz (commitments_of h @ [(r, nv, v, cv, rcv)]) cm" by (rule trace_accept [OF tr cv d])
    have "\<forall>q rcv'. (q, True, v, cv, rcv') \<notin> set (commitments_of h @ [(r, nv, v, cv, rcv)])"
      using prepare_not_new_view [OF tr cv _ one_new_view_snoc [OF one]] d n(1) by auto
    then have "committed_to (commitments_of h @ [(r, nv, v, cv, rcv)]) v cv \<subseteq> committed_to (commitments_of h) v (cv - 1)"
      using committed_previous [OF tr1 _ n(2)] by (auto simp: committed_to_snoc)
    then have c: "unat sz \<le> card (committed_to (commitments_of h) v (cv - 1))"
      using iff that card_mono [OF finite] by (blast intro: order_trans)
    moreover have "cv - 1 \<noteq> 0"
      using c committed_nonzero [OF genuine_snoc [OF snoc.prems(2)], of v] assms(2) by (auto simp: unat_eq_0)
    ultimately show False using IH n(3) iff that by blast
  qed
  then have "ordered ms" using IH k ms by (simp add: ordered_snoc follows_def)
  moreover have "unat sz \<le> card (committers (h @ [m]) m')" if "m' \<in> set ms" for m'
    using that ms IH card_committers_mono [of h m' m] iff k
    by (auto simp: committers_def intro: order_trans split: if_splits)
  ultimately show ?case using tr' IH ms complete by auto
qed


section \<open>Agreement within a view\<close>

text \<open>Requests by what a Prepare authenticates of them, and their execution.\<close>

type_synonym request_key = "u32 \<times> u64 \<times> bytes"

definition key_of :: "(bytes \<Rightarrow> bytes) \<Rightarrow> request \<Rightarrow> request_key" where
  "key_of H r = (req_ClientID r, req_Sequence r, H (req_Operation r))"

definition stale :: "request_key \<Rightarrow> request_key list \<Rightarrow> bool" where
  "stale k ks \<longleftrightarrow> fst (snd k) = 0 \<or> (\<exists>x \<in> set ks. fst x = fst k \<and> fst (snd k) \<le> fst (snd x))"

definition execute_key :: "request_key \<Rightarrow> request_key list \<Rightarrow> request_key list" where
  "execute_key k ks = (if stale k ks then ks else ks @ [k])"

lemma map_execute_once: "map (key_of H) (execute_once req d) = execute_key (key_of H req) (map (key_of H) d)"
  by (auto simp: execute_once_def execute_key_def stale_def key_of_def)

lemma map_execute_all:
  "map (key_of H) (fold execute_once reqs d) = fold execute_key (map (key_of H) reqs) (map (key_of H) d)"
  by (induction reqs arbitrary: d) (simp_all add: map_execute_once)

lemma execute_prefix: "prefix ks (fold execute_key xs ks)"
proof (induction xs arbitrary: ks)
  case (Cons x xs)
  have "prefix ks (execute_key x ks)" by (simp add: execute_key_def)
  with Cons show ?case by (auto intro: prefix_order.trans)
qed simp

lemma stale_prefix: "stale k ks \<Longrightarrow> prefix ks ks' \<Longrightarrow> stale k ks'"
  by (auto simp: stale_def dest: set_mono_prefix)

lemma executed_stale: "x \<in> set xs \<Longrightarrow> stale x (fold execute_key xs ks)"
proof (induction xs arbitrary: ks)
  case (Cons y xs)
  have "stale y (execute_key y ks)" by (auto simp: execute_key_def stale_def)
  from stale_prefix [OF this execute_prefix] Cons show ?case by auto
qed simp

lemma execute_again: "\<forall>x \<in> set xs. stale x ks \<Longrightarrow> fold execute_key xs ks = ks"
  by (induction xs) (simp_all add: execute_key_def)

text \<open>
  Executing proposals in an order that skips none, possibly several times, is executing them once
  in the order of their counters.
\<close>

definition gapless :: "u64 \<Rightarrow> u64 list \<Rightarrow> bool" where
  "gapless base cs \<longleftrightarrow> (\<forall>i < length cs. cs ! i = base \<or> cs ! i - 1 \<in> set (take i cs))"

lemma gapless_snoc: "gapless base (cs @ [c]) \<longleftrightarrow> gapless base cs \<and> (c = base \<or> c - 1 \<in> set cs)"
  by (auto simp: gapless_def less_Suc_eq nth_append)

lemma execute_gapless:
  assumes "gapless base cs"
  shows "\<exists>k. set cs = (\<lambda>i. base + of_nat i) ` {..< k} \<and>
    fold execute_key (concat (map K cs)) d = fold execute_key (concat (map (\<lambda>i. K (base + of_nat i)) [0..<k])) d"
  using assms
proof (induction cs rule: rev_induct)
  case Nil
  then show ?case by (intro exI [of _ 0]) simp
next
  case (snoc c cs)
  from snoc obtain k where k: "set cs = (\<lambda>i. base + of_nat i) ` {..< k}"
    "fold execute_key (concat (map K cs)) d = fold execute_key (concat (map (\<lambda>i. K (base + of_nat i)) [0..<k])) d"
    unfolding gapless_snoc by blast
  let ?run = "\<lambda>k. fold execute_key (concat (map (\<lambda>i. K (base + of_nat i)) [0..<k])) d"
  have "c = base \<or> c - 1 \<in> set cs" using snoc.prems unfolding gapless_snoc by blast
  then obtain j where j: "c = base + of_nat j" "j \<le> k"
  proof
    assume "c - 1 \<in> set cs"
    then obtain i where "i < k" "c = base + of_nat (Suc i)" using k(1) by (auto simp: algebra_simps)
    then show ?thesis using that [of "Suc i"] by simp
  qed (use that [of 0] in simp)
  have cs: "fold execute_key (concat (map K (cs @ [c]))) d = fold execute_key (K c) (?run k)" using k(2) by simp
  show ?case
  proof (cases "j = k")
    case True
    then show ?thesis using k(1) j cs by (intro exI [of _ "Suc k"]) (auto simp: lessThan_Suc)
  next
    case False
    then have "fold execute_key (K c) (?run k) = ?run k"
      using j by (intro execute_again ballI executed_stale) auto
    then show ?thesis using k(1) j cs False by (intro exI [of _ k]) auto
  qed
qed


text \<open>
  The proposals completed in view \<open>v\<close>. \<open>same_requests\<close>: a slot stands for one list of requests,
  as the proposals that a USIG identifies do.
\<close>

definition completed_in :: "u64 \<Rightarrow> message_log \<Rightarrow> message_log" where
  "completed_in v ms = filter (\<lambda>m. fst (slot_of m) = v) ms"

definition same_requests :: "(bytes \<Rightarrow> bytes) \<Rightarrow> certified set \<Rightarrow> bool" where
  "same_requests H M \<longleftrightarrow> (\<forall>m \<in> M. \<forall>m' \<in> M. slot_of m = slot_of m' \<longrightarrow>
     map (key_of H) (requests_of m) = map (key_of H) (requests_of m'))"

definition run_in :: "u64 \<Rightarrow> message_log \<Rightarrow> request list \<Rightarrow> request list" where
  "run_in v ms d = fold execute_once (concat (map requests_of (completed_in v ms))) d"

definition opens_at :: "u64 \<Rightarrow> u64 \<Rightarrow> certified \<Rightarrow> bool" where
  "opens_at v base m \<longleftrightarrow>
     (\<forall>r nv cv rcv. commitment_of m = Some (r, nv, v, cv, rcv) \<and> (nv \<or> v = 0 \<and> cv = 1) \<longrightarrow> cv = base)"

lemma gapless_slots:
  assumes "ordered ms" and "\<forall>m \<in> set ms. opens_at v base m"
  shows "gapless base (map (\<lambda>m. snd (slot_of m)) (completed_in v ms))"
  using assms
proof (induction ms rule: rev_induct)
  case (snoc m ms)
  let ?cs = "\<lambda>ms. map (\<lambda>m. snd (slot_of m)) (completed_in v ms)"
  have IH: "gapless base (?cs ms)" using snoc by (simp add: ordered_snoc)
  show ?case
  proof (cases "fst (slot_of m) = v")
    case True
    have "snd (slot_of m) = base \<or> snd (slot_of m) - 1 \<in> set (?cs ms)"
    proof -
      obtain r nv cv rcv where k: "commitment_of m = Some (r, nv, v, cv, rcv)"
        using snoc.prems(1) True by (auto simp: ordered_snoc follows_def slot_of_def split: option.splits)
      then have "nv \<or> v = 0 \<and> cv = 1 \<or> (v, cv - 1) \<in> slot_of ` set ms"
        using snoc.prems(1) by (auto simp: ordered_snoc follows_def)
      then consider "nv \<or> v = 0 \<and> cv = 1" | x where "x \<in> set ms" "slot_of x = (v, cv - 1)" by auto
      then show ?thesis
      proof cases
        case 1
        moreover have "opens_at v base m" using snoc.prems(2) by simp
        ultimately show ?thesis using k by (auto simp: opens_at_def slot_of_def)
      next
        case 2
        then show ?thesis using k by (force simp: completed_in_def slot_of_def [of m])
      qed
    qed
    with IH True show ?thesis by (simp add: completed_in_def gapless_snoc)
  next
    case False
    then show ?thesis using IH by (simp add: completed_in_def)
  qed
qed (simp add: completed_in_def gapless_def)


lemma new_view_slot:
  assumes "commit_trace sz h s" and "(r, True, v, cv, rcv) \<in> set h"
  shows "v \<noteq> 0"
  using assms
proof (induction rule: commit_trace.induct)
  case (trace_accept h s x i nv w rcv s' d)
  then show ?case using commitment_done_accepts [OF trace_accept.hyps(3)] by (auto elim!: accept_cases)
qed simp_all

lemma agree_in_view:
  assumes o: "ordered ms" "ordered ms'" and b: "\<forall>m \<in> set ms \<union> set ms'. opens_at v base m"
    and same: "same_requests H (set ms \<union> set ms')" and d: "map (key_of H) d = map (key_of H) d'"
  shows "prefix (map (key_of H) (run_in v ms d)) (map (key_of H) (run_in v ms' d')) \<or>
    prefix (map (key_of H) (run_in v ms' d')) (map (key_of H) (run_in v ms d))"
proof -
  define K where "K c = map (key_of H) (requests_of (SOME m. m \<in> set ms \<union> set ms' \<and> slot_of m = (v, c)))" for c
  let ?run = "\<lambda>k. fold execute_key (concat (map (\<lambda>i. K (base + of_nat i)) [0..<k])) (map (key_of H) d)"
  have K: "map (key_of H) (requests_of m) = K (snd (slot_of m))" if "m \<in> set ms \<union> set ms'" "fst (slot_of m) = v" for m
  proof -
    have m: "m \<in> set ms \<union> set ms' \<and> slot_of m = (v, snd (slot_of m))" using that by auto
    let ?x = "SOME x. x \<in> set ms \<union> set ms' \<and> slot_of x = (v, snd (slot_of m))"
    have x: "?x \<in> set ms \<union> set ms' \<and> slot_of ?x = (v, snd (slot_of m))" using m by (rule someI [of "\<lambda>x. x \<in> set ms \<union> set ms' \<and> slot_of x = (v, snd (slot_of m))"])
    then have "slot_of m = slot_of ?x" using m by simp
    with same x that(1) show ?thesis unfolding same_requests_def K_def by blast
  qed
  have run: "\<exists>k. map (key_of H) (run_in v xs e) = ?run k"
    if "ordered xs" "set xs \<subseteq> set ms \<union> set ms'" "map (key_of H) e = map (key_of H) d" for xs e
  proof -
    have "map (key_of H) (concat (map requests_of (completed_in v xs))) =
        concat (map K (map (\<lambda>m. snd (slot_of m)) (completed_in v xs)))"
      using K that(2) by (auto simp: map_concat completed_in_def comp_def intro!: arg_cong [of _ _ concat] map_cong)
    moreover have "gapless base (map (\<lambda>m. snd (slot_of m)) (completed_in v xs))"
      using gapless_slots [OF that(1)] b that(2) by blast
    from execute_gapless [OF this, of K "map (key_of H) d"] obtain k where
      "fold execute_key (concat (map K (map (\<lambda>m. snd (slot_of m)) (completed_in v xs)))) (map (key_of H) d) = ?run k" by blast
    ultimately show ?thesis using that(3) by (auto simp: run_in_def map_execute_all)
  qed
  obtain k k' where k: "map (key_of H) (run_in v ms d) = ?run k" "map (key_of H) (run_in v ms' d') = ?run k'"
    using run [OF o(1), of d] run [OF o(2), of d'] d by auto
  have "prefix (?run i) (?run j)" if "i \<le> j" for i j
    using that execute_prefix upt_add_eq_append [of 0 i "j - i"] by auto
  then show ?thesis using k nat_le_linear by metis
qed


text \<open>Proposals are completed in the order of the views, so what view zero delivers comes first.\<close>

lemma run_history_views:
  "run_history sz h = Some (cm, ms) \<Longrightarrow>
   sorted_wrt (\<le>) (map (\<lambda>m. fst (slot_of m)) ms) \<and> (\<forall>m \<in> set ms. fst (slot_of m) \<le> lastView (cm_counter cm))"
proof (induction h arbitrary: cm ms rule: rev_induct)
  case (snoc m h)
  from snoc.prems show ?case
  proof (rule run_history_snocE)
    fix cm0 ms0 r nv v cv rcv d
    assume h: "run_history sz h = Some (cm0, ms0)" "commitment_of m = Some (r, nv, v, cv, rcv)"
      and d: "commitment_done r nv v cv rcv cm0 = (cm, Inr d)" and ms: "ms = (if d then ms0 @ [m] else ms0)"
    have "d \<Longrightarrow> lastView (cm_counter cm0) \<le> v \<and> lastView (cm_counter cm) = v"
      using d by (auto simp: commitment_done_def split: prod.splits sum.splits elim!: count_cases)
    with snoc.IH [OF h(1)] lastView_done [OF d] h(2) ms show ?thesis
      by (auto simp: sorted_wrt_append slot_of_def [of m] intro: order_trans)
  qed
qed (simp add: run_history_def)

lemma view_zero_first:
  assumes "sorted_wrt (\<le>) (map (\<lambda>m. fst (slot_of m)) ms)"
  shows "\<exists>rest. ms = completed_in 0 ms @ rest"
  using assms
proof (induction ms)
  case (Cons m ms)
  show ?case
  proof (cases "fst (slot_of m) = 0")
    case True
    with Cons show ?thesis by (auto simp: completed_in_def)
  next
    case False
    then have "0 < fst (slot_of m)" by (simp add: word_neq_0_conv)
    then have "completed_in 0 (m # ms) = []" using Cons.prems by (auto simp: completed_in_def filter_empty_conv)
    then show ?thesis by simp
  qed
qed (simp add: completed_in_def)

lemma execute_once_prefix: "prefix d (fold execute_once reqs d)"
proof (induction reqs arbitrary: d)
  case (Cons r reqs)
  have "prefix d (execute_once r d)" by (simp add: execute_once_def)
  with Cons show ?case by (auto intro: prefix_order.trans)
qed simp

lemma view_zero_prefix: "run_history sz h = Some (cm, ms) \<Longrightarrow> prefix (run_in 0 ms []) (deliveries ms)"
proof -
  assume "run_history sz h = Some (cm, ms)"
  then obtain rest where r: "ms = completed_in 0 ms @ rest" using run_history_views view_zero_first by blast
  have "deliveries ms = fold execute_once (concat (map requests_of rest)) (run_in 0 ms [])"
    unfolding deliveries_def run_in_def by (subst r) simp
  then show ?thesis by (simp add: execute_once_prefix)
qed

lemma common_base:
  assumes "genuine (h @ h')" and "commit_trace sz (commitments_of h) s" "commit_trace sz (commitments_of h') s'"
  shows "\<exists>base. \<forall>m \<in> set h \<union> set h'. opens_at v base m"
proof -
  have mem: "(r, nv, v, cv, rcv) \<in> set (commitments_of g)" if "m \<in> set g" "commitment_of m = Some (r, nv, v, cv, rcv)"
    for m g r nv cv rcv using that by (force simp: commitments_of_def)
  show ?thesis
  proof (cases "v = 0")
    case True
    have "\<not> nv" if "m \<in> set h \<union> set h'" "commitment_of m = Some (r, nv, v, cv, rcv)" for m r nv cv rcv
      using that mem [of m h r nv cv rcv] mem [of m h' r nv cv rcv] True
        new_view_slot [OF assms(2), of r v cv rcv] new_view_slot [OF assms(3), of r v cv rcv] by (cases nv) auto
    then have "\<forall>m \<in> set h \<union> set h'. opens_at v 1 m" unfolding opens_at_def by blast
    then show ?thesis by blast
  next
    case False
    have one: "cv = cv'" if "m \<in> set h \<union> set h'" "commitment_of m = Some (r, True, v, cv, rcv)"
      "m' \<in> set h \<union> set h'" "commitment_of m' = Some (q, True, v, cv', rcv')" for m m' r cv rcv q cv' rcv'
      using assms(1) mem [of m "h @ h'"] mem [of m' "h @ h'"] that
      unfolding genuine_def one_new_view_def by (metis set_append)
    show ?thesis
    proof (cases "\<exists>m \<in> set h \<union> set h'. \<exists>r cv rcv. commitment_of m = Some (r, True, v, cv, rcv)")
      case True
      then obtain m r cv rcv where m: "m \<in> set h \<union> set h'" "commitment_of m = Some (r, True, v, cv, rcv)" by blast
      have "\<forall>m' \<in> set h \<union> set h'. opens_at v cv m'"
      proof (unfold opens_at_def, intro ballI allI impI)
        fix m' q nv x rcv'
        assume m': "m' \<in> set h \<union> set h'" "commitment_of m' = Some (q, nv, v, x, rcv') \<and> (nv \<or> v = 0 \<and> x = 1)"
        then have "commitment_of m' = Some (q, True, v, x, rcv')" using \<open>v \<noteq> 0\<close> by (cases nv) auto
        from one [OF m'(1) this m] show "x = cv" .
      qed
      then show ?thesis by blast
    next
      case False
      have "\<forall>m \<in> set h \<union> set h'. opens_at v 0 m"
      proof (unfold opens_at_def, intro ballI allI impI)
        fix m' q nv x rcv'
        assume "m' \<in> set h \<union> set h'" "commitment_of m' = Some (q, nv, v, x, rcv') \<and> (nv \<or> v = 0 \<and> x = 1)"
        with False \<open>v \<noteq> 0\<close> show "x = 0" by (cases nv) auto
      qed
      then show ?thesis by blast
    qed
  qed
qed

lemma genuine_parts: "genuine (h @ h') \<Longrightarrow> genuine h" "genuine (h @ h') \<Longrightarrow> genuine h'"
  by (auto simp: genuine_def one_new_view_def commitments_of_def)

end
