(* ===== verification/Asn1.thy ===== *)
theory Asn1
  imports Encoding
begin

text \<open>
  The parts of \<open>math/big\<close> and of \<open>encoding/asn1\<close> that the sources use: natural numbers as big-endian
  byte strings, and the DER form of an ECDSA signature, a sequence of two integers.
\<close>

section \<open>Big-endian numbers\<close>

text \<open>\<open>big.Int.Bytes\<close> and \<open>big.Int.SetBytes\<close>.\<close>

fun nat_bytes :: "nat \<Rightarrow> bytes" where
  "nat_bytes n = (if n = 0 then [] else nat_bytes (n div 256) @ [of_nat (n mod 256)])"

declare nat_bytes.simps [simp del]

definition bytes_nat :: "bytes \<Rightarrow> nat" where
  "bytes_nat bs = foldl (\<lambda>acc b. 256 * acc + unat b) 0 bs"

section \<open>DER\<close>

definition der_length :: "nat \<Rightarrow> bytes" where
  "der_length n =
     (if n < 128 then [of_nat n] else let bs = nat_bytes n in of_nat (128 + length bs) # bs)"

definition der_int :: "nat \<Rightarrow> bytes" where
  "der_int n =
     (let bs = nat_bytes n
      in if bs = [] then [0] else if hd bs \<ge> 128 then 0 # bs else bs)"

definition der_tlv :: "u8 \<Rightarrow> bytes \<Rightarrow> bytes" where
  "der_tlv tag content = tag # der_length (length content) @ content"

definition asn1_Marshal :: "nat \<times> nat \<Rightarrow> bytes" where
  "asn1_Marshal rs = der_tlv 0x30 (der_tlv 2 (der_int (fst rs)) @ der_tlv 2 (der_int (snd rs)))"

fun long_length :: "nat \<Rightarrow> nat \<Rightarrow> bytes \<Rightarrow> (nat \<times> bytes) result" where
  "long_length 0 acc bs =
     (if acc < 128 then Inl (Error ''non-minimal length'') else Inr (acc, bs))"
| "long_length (Suc k) acc [] = Inl (Error ''truncated tag or length'')"
| "long_length (Suc k) acc (b # bs) =
     (if acc \<ge> 2 ^ 23 then Inl (Error ''length too large'')
      else if acc = 0 \<and> b = 0 then Inl (Error ''superfluous leading zeros in length'')
      else long_length k (256 * acc + unat b) bs)"

definition parse_length :: "bytes \<Rightarrow> (nat \<times> bytes) result" where
  "parse_length bs =
     (case bs of
        [] \<Rightarrow> Inl (Error ''truncated tag or length'')
      | b # rest \<Rightarrow>
          if b < 128 then Inr (unat b, rest)
          else if b = 128 then Inl (Error ''indefinite length found (not DER)'')
          else long_length (unat b - 128) 0 rest)"

definition parse_tlv :: "u8 \<Rightarrow> bytes \<Rightarrow> (bytes \<times> bytes) result" where
  "parse_tlv tag bs =
     (case bs of
        [] \<Rightarrow> Inl (Error ''sequence truncated'')
      | t # rest \<Rightarrow>
          (case parse_length rest of
             Inl e \<Rightarrow> Inl e
           | Inr (n, content) \<Rightarrow>
               if t \<noteq> tag then Inl (Error ''tags do not match'')
               else if length content < n then Inl (Error ''data truncated'')
               else Inr (take n content, drop n content)))"

definition parse_int :: "bytes \<Rightarrow> int result" where
  "parse_int bs =
     (case bs of
        [] \<Rightarrow> Inl (Error ''empty integer'')
      | b # rest \<Rightarrow>
          if rest \<noteq> [] \<and> (b = 0 \<and> hd rest < 128 \<or> b = 255 \<and> hd rest \<ge> 128)
          then Inl (Error ''integer not minimally-encoded'')
          else if b \<ge> 128 then Inr (int (bytes_nat bs) - 2 ^ (8 * length bs))
          else Inr (int (bytes_nat bs)))"

definition asn1_Unmarshal :: "bytes \<Rightarrow> ((int \<times> int) \<times> bytes) result" where
  "asn1_Unmarshal bs =
     (case parse_tlv 0x30 bs of
        Inl e \<Rightarrow> Inl e
      | Inr (inner, rest) \<Rightarrow>
          (case parse_tlv 2 inner of
             Inl e \<Rightarrow> Inl e
           | Inr (rb, inner') \<Rightarrow>
               (case parse_int rb of
                  Inl e \<Rightarrow> Inl e
                | Inr r \<Rightarrow>
                    (case parse_tlv 2 inner' of
                       Inl e \<Rightarrow> Inl e
                     | Inr (sb, _) \<Rightarrow>
                         (case parse_int sb of Inl e \<Rightarrow> Inl e | Inr s \<Rightarrow> Inr ((r, s), rest))))))"

section \<open>Round trips\<close>

lemma bytes_nat_snoc: "bytes_nat (bs @ [b]) = 256 * bytes_nat bs + unat b"
  by (simp add: bytes_nat_def)

lemma bytes_nat_Nil [simp]: "bytes_nat [] = 0"
  by (simp add: bytes_nat_def)

lemma unat_byte [simp]: "unat (of_nat (n mod 256) :: u8) = n mod 256"
  by (simp add: unat_of_nat take_bit_eq_mod)

lemma bytes_nat_bytes [simp]: "bytes_nat (nat_bytes n) = n"
proof (induction n rule: nat_bytes.induct)
  case (1 n)
  then show ?case
    by (subst nat_bytes.simps) (simp add: bytes_nat_snoc)
qed

lemma bytes_nat_zero: "bytes_nat (0 # bs) = bytes_nat bs"
  by (simp add: bytes_nat_def)

lemma nat_bytes_Nil [simp]: "nat_bytes n = [] \<longleftrightarrow> n = 0"
  by (subst nat_bytes.simps) simp

lemma length_nat_bytes: "n < 256 ^ k \<Longrightarrow> length (nat_bytes n) \<le> k"
proof (induction k arbitrary: n)
  case (Suc k)
  then have "n div 256 < 256 ^ k" by (simp add: less_mult_imp_div_less mult.commute)
  from Suc.IH [OF this] show ?case by (subst nat_bytes.simps) simp
qed simp

lemma hd_nat_bytes: "n \<noteq> 0 \<Longrightarrow> hd (nat_bytes n) \<noteq> 0"
proof (induction n rule: nat_bytes.induct)
  case (1 n)
  have "unat (of_nat n :: u8) = n mod 256" by (simp add: unsigned_of_nat take_bit_eq_mod)
  moreover have "n mod 256 = n" if "n div 256 = 0" using that by (simp add: div_eq_0_iff)
  ultimately show ?case
    using 1 by (subst nat_bytes.simps) (auto simp: hd_append simp flip: unat_eq_0)
qed

lemma parse_der_int: "parse_int (der_int n) = Inr (int n)"
proof (cases "n = 0")
  case False
  obtain b bs where nb: "nat_bytes n = b # bs" using False by (cases "nat_bytes n") simp_all
  have v: "bytes_nat (b # bs) = n" using bytes_nat_bytes [of n] by (simp only: nb)
  have "b \<noteq> 0" using hd_nat_bytes [OF False] by (simp add: nb)
  with nb v show ?thesis
    by (cases "128 \<le> b") (auto simp: parse_int_def der_int_def bytes_nat_zero Let_def not_less)
qed (simp add: parse_int_def der_int_def bytes_nat_def nat_bytes.simps)

lemma length_der_int: "n < 256 ^ k \<Longrightarrow> length (der_int n) \<le> Suc k"
  using length_nat_bytes [of n k] by (auto simp: der_int_def Let_def)

lemma parse_tlv_der: "length content < 128 \<Longrightarrow> parse_tlv tag (der_tlv tag content @ rest) = Inr (content, rest)"
  by (simp add: parse_tlv_def der_tlv_def der_length_def parse_length_def unsigned_of_nat take_bit_eq_mod word_less_nat_alt)

lemma length_der_tlv: "length content < 128 \<Longrightarrow> length (der_tlv tag content) = 2 + length content"
  by (simp add: der_tlv_def der_length_def)

lemma asn1_round_trip:
  assumes "r < 2 ^ 256" and "s < 2 ^ 256"
  shows "asn1_Unmarshal (asn1_Marshal (r, s) @ rest) = Inr ((int r, int s), rest)"
proof -
  have "length (der_int r) \<le> 33" "length (der_int s) \<le> 33"
    using length_der_int [of r 32] length_der_int [of s 32] assms by simp_all
  then show ?thesis
    using parse_tlv_der [of "der_int s" 2 "[]"]
    by (simp add: asn1_Unmarshal_def asn1_Marshal_def parse_tlv_der length_der_tlv parse_der_int)
qed

end
