(* ===== verification/SgxUsig.thy ===== *)
theory SgxUsig
  imports Usig Asn1
begin

text \<open>
  Package \<open>usig/sgx\<close>: the enclave that owns the counter (\<open>enclave/usig.c\<close>), the library that enters
  it (\<open>shim/shim.c\<close>), its Go wrapper (\<open>usig-enclave.go\<close>) and the USIG on top of it
  (\<open>sgx-usig.go\<close>). The functions of the SGX SDK and of the dynamic linker, and the cryptographic
  functions, are parameters. An SDK function may answer differently at every call, so every
  operation has the SDK as an argument of its own.
\<close>

section \<open>External modules\<close>

text \<open>A signature of the SDK is two little-endian arrays of eight words; a public key has 64 bytes.\<close>

type_synonym sgx_signature = "u32 list \<times> u32 list"

record sgx_sdk =
  sdk_dlopen :: "unit result"
  sdk_dlclose :: "unit result"
  sdk_dlsym :: "string \<Rightarrow> bool"
  sdk_create_enclave :: "unit result"
  sdk_ecall :: "unit result"
  sdk_open_context :: "unit result"
  sdk_sign :: "bytes \<Rightarrow> bytes \<Rightarrow> sgx_signature result"
  sdk_create_key_pair :: "(bytes \<times> bytes) result"
  sdk_rand :: "u64 result"
  sdk_sealed_size :: "u32"
  sdk_seal :: "bytes \<Rightarrow> bytes \<Rightarrow> bytes result"
  sdk_unseal :: "bytes \<Rightarrow> (bytes \<times> bytes) result"

datatype curve = P224 | P256 | P384 | P521

text \<open>A Go value used as a public key, by its dynamic type.\<close>

datatype pub_key = NoKey | EcdsaPublic curve nat nat | OtherPublic bytes

record crypto =
  Sum256 :: "bytes \<Rightarrow> bytes"
  ecdsa_Verify :: "pub_key \<Rightarrow> bytes \<Rightarrow> int \<Rightarrow> int \<Rightarrow> bool"
  MarshalPKIX :: "pub_key \<Rightarrow> bytes result"
  ParsePKIX :: "bytes \<Rightarrow> pub_key result"

section \<open>The enclave\<close>

record enclave =
  usig_priv_key :: bytes
  usig_pub_key :: bytes
  usig_epoch :: u64
  initialized :: bool
  usig_counter :: u64

definition new_enclave :: enclave where
  "new_enclave =
     \<lparr>usig_priv_key = replicate 32 0, usig_pub_key = replicate 64 0, usig_epoch = 0,
      initialized = False, usig_counter = 1\<rparr>"

definition le64 :: "u64 \<Rightarrow> bytes" where
  "le64 w = rev (be64 w)"

text \<open>The packed structure that is signed.\<close>

definition usig_cert_data :: "bytes \<Rightarrow> u64 \<Rightarrow> u64 \<Rightarrow> bytes" where
  "usig_cert_data digest epoch counter = digest @ le64 epoch @ le64 counter"

definition ecall_usig_create_ui :: "sgx_sdk \<Rightarrow> bytes \<Rightarrow> (enclave, u64 \<times> sgx_signature) handler" where
  "ecall_usig_create_ui sdk digest e =
     (if \<not> initialized e then (e, Inl (Error ''SGX_ERROR_UNEXPECTED''))
      else case sdk_open_context sdk of
        Inl err \<Rightarrow> (e, Inl err)
      | Inr _ \<Rightarrow>
          let counter = usig_counter e;
              data = usig_cert_data digest (usig_epoch e) counter
          in case sdk_sign sdk (usig_priv_key e) data of
               Inl err \<Rightarrow> (e, Inl err)
             | Inr signature \<Rightarrow> (e\<lparr>usig_counter := counter + 1\<rparr>, Inr (counter, signature)))"

definition ecall_usig_get_epoch :: "enclave \<Rightarrow> u64 result" where
  "ecall_usig_get_epoch e =
     (if \<not> initialized e then Inl (Error ''SGX_ERROR_UNEXPECTED'') else Inr (usig_epoch e))"

definition ecall_usig_get_pub_key :: "enclave \<Rightarrow> bytes result" where
  "ecall_usig_get_pub_key e =
     (if \<not> initialized e then Inl (Error ''SGX_ERROR_UNEXPECTED'') else Inr (usig_pub_key e))"

definition ecall_usig_seal_key :: "sgx_sdk \<Rightarrow> enclave \<Rightarrow> bytes result" where
  "ecall_usig_seal_key sdk e =
     (if \<not> initialized e then Inl (Error ''SGX_ERROR_UNEXPECTED'')
      else sdk_seal sdk (usig_pub_key e) (usig_priv_key e))"

definition generate_key :: "sgx_sdk \<Rightarrow> (enclave, unit) handler" where
  "generate_key sdk e =
     (case sdk_open_context sdk of
        Inl err \<Rightarrow> (e, Inl err)
      | Inr _ \<Rightarrow>
          (case sdk_create_key_pair sdk of
             Inl err \<Rightarrow> (e, Inl err)
           | Inr (priv, pub) \<Rightarrow> (e\<lparr>usig_priv_key := priv, usig_pub_key := pub\<rparr>, Inr ())))"

definition unseal_key :: "sgx_sdk \<Rightarrow> bytes \<Rightarrow> (enclave, unit) handler" where
  "unseal_key sdk data e =
     (if of_nat (length data) \<noteq> sdk_sealed_size sdk then (e, Inl (Error ''SGX_ERROR_UNEXPECTED''))
      else case sdk_unseal sdk data of
        Inl err \<Rightarrow> (e, Inl err)
      | Inr (pub, priv) \<Rightarrow>
          (e\<lparr>usig_pub_key := pub, usig_priv_key := priv\<rparr>,
           if length pub \<noteq> 64 \<or> length priv \<noteq> 32 then Inl (Error ''SGX_ERROR_UNEXPECTED'') else Inr ()))"

definition ecall_usig_init :: "sgx_sdk \<Rightarrow> bytes option \<Rightarrow> (enclave, unit) handler" where
  "ecall_usig_init sdk sealed e =
     (if initialized e then (e, Inl (Error ''SGX_ERROR_UNEXPECTED''))
      else case sdk_rand sdk of
        Inl err \<Rightarrow> (e, Inl err)
      | Inr epoch \<Rightarrow>
          (case (case sealed of Some data \<Rightarrow> unseal_key sdk data | None \<Rightarrow> generate_key sdk)
                  (e\<lparr>usig_epoch := epoch\<rparr>) of
             (e', Inl err) \<Rightarrow> (e', Inl err)
           | (e', Inr _) \<Rightarrow> (e'\<lparr>initialized := True\<rparr>, Inr ())))"

section \<open>The Go wrapper\<close>

text \<open>
  \<open>ue_enclave\<close> is the enclave instance behind the enclave ID, \<open>None\<close> once it is destroyed. The lock
  around every call into the enclave makes the operations sequential.
\<close>

record usig_enclave =
  ue_enclave :: "enclave option"
  ue_epoch :: u64

definition dlsymOrPanic :: "sgx_sdk \<Rightarrow> string \<Rightarrow> unit result" where
  "dlsymOrPanic sdk name = (if sdk_dlsym sdk name then Inr () else Inl (Panic ''dlsym''))"

definition sgxSuccessOrPanic :: "'a result \<Rightarrow> 'a result" where
  "sgxSuccessOrPanic r = (case r of Inl (Error e) \<Rightarrow> Inl (Panic e) | _ \<Rightarrow> r)"

text \<open>The \<open>ECALL_USIG\<close> macro: the call into the enclave can fail before the function runs.\<close>

definition ecall :: "sgx_sdk \<Rightarrow> (enclave, 'a) handler \<Rightarrow> (usig_enclave, 'a) handler" where
  "ecall sdk m u =
     (case ue_enclave u of
        None \<Rightarrow> (u, Inl (Error ''SGX_ERROR_INVALID_ENCLAVE_ID''))
      | Some e \<Rightarrow>
          (case sdk_ecall sdk of
             Inl err \<Rightarrow> (u, Inl err)
           | Inr _ \<Rightarrow> (case m e of (e', r) \<Rightarrow> (u\<lparr>ue_enclave := Some e'\<rparr>, r))))"

definition usig_init :: "sgx_sdk \<Rightarrow> bytes option \<Rightarrow> enclave result" where
  "usig_init sdk sealed =
     (case sdk_create_enclave sdk of
        Inl err \<Rightarrow> Inl err
      | Inr _ \<Rightarrow>
          (case sdk_ecall sdk of
             Inl err \<Rightarrow> Inl err
           | Inr _ \<Rightarrow>
               (case ecall_usig_init sdk sealed new_enclave of
                  (e, Inl err) \<Rightarrow> Inl err
                | (e, Inr _) \<Rightarrow> Inr e)))"

definition NewUSIGEnclave :: "sgx_sdk \<Rightarrow> bytes \<Rightarrow> usig_enclave result" where
  "NewUSIGEnclave sdk sealedKey =
     (case sdk_dlopen sdk of
        Inl err \<Rightarrow> Inl err
      | Inr _ \<Rightarrow>
          (case dlsymOrPanic sdk ''usig_init'' of
             Inl err \<Rightarrow> Inl err
           | Inr _ \<Rightarrow>
               (case usig_init sdk (if sealedKey = [] then None else Some sealedKey) of
                  Inl err \<Rightarrow> Inl err
                | Inr e \<Rightarrow>
                    (case dlsymOrPanic sdk ''usig_get_epoch'' of
                       Inl err \<Rightarrow> Inl err
                     | Inr _ \<Rightarrow>
                         (case sgxSuccessOrPanic (ecall_usig_get_epoch e) of
                            Inl err \<Rightarrow> Inl err
                          | Inr epoch \<Rightarrow> Inr \<lparr>ue_enclave = Some e, ue_epoch = epoch\<rparr>)))))"

definition Destroy :: "sgx_sdk \<Rightarrow> (usig_enclave, unit) handler" where
  "Destroy sdk u =
     (case dlsymOrPanic sdk ''usig_destroy'' of
        Inl err \<Rightarrow> (u, Inl err)
      | Inr _ \<Rightarrow>
          (case ue_enclave u of
             None \<Rightarrow> (u, Inl (Panic ''SGX_ERROR_INVALID_ENCLAVE_ID''))
           | Some e \<Rightarrow>
               (u\<lparr>ue_enclave := None\<rparr>,
                case sdk_dlclose sdk of Inl err \<Rightarrow> Inl (Panic ''dlclose'') | Inr _ \<Rightarrow> Inr ())))"

text \<open>The arrays of the SDK are little-endian; \<open>big.Int\<close> takes big-endian bytes.\<close>

definition sgxUint32SliceToBigInt :: "u32 list \<Rightarrow> nat" where
  "sgxUint32SliceToBigInt ws = bytes_nat (concat (map be32 (rev ws)))"

definition sgxUint8SliceToBigInt :: "bytes \<Rightarrow> nat" where
  "sgxUint8SliceToBigInt bs = bytes_nat (rev bs)"

definition sgxEC256SigToASN1 :: "sgx_signature \<Rightarrow> bytes" where
  "sgxEC256SigToASN1 sig =
     asn1_Marshal (sgxUint32SliceToBigInt (fst sig), sgxUint32SliceToBigInt (snd sig))"

definition sgxEC256PubKeyToGo :: "bytes \<Rightarrow> pub_key" where
  "sgxEC256PubKeyToGo pk =
     EcdsaPublic P256 (sgxUint8SliceToBigInt (take 32 pk)) (sgxUint8SliceToBigInt (drop 32 pk))"

definition enclave_CreateUI :: "sgx_sdk \<Rightarrow> bytes \<Rightarrow> (usig_enclave, u64 \<times> bytes) handler" where
  "enclave_CreateUI sdk digest u =
     (case dlsymOrPanic sdk ''usig_create_ui'' of
        Inl err \<Rightarrow> (u, Inl err)
      | Inr _ \<Rightarrow>
          (case ecall sdk (ecall_usig_create_ui sdk digest) u of
             (u', Inl err) \<Rightarrow> (u', Inl err)
           | (u', Inr (counter, sig)) \<Rightarrow> (u', Inr (counter, sgxEC256SigToASN1 sig))))"

definition PublicKey :: "sgx_sdk \<Rightarrow> (usig_enclave, pub_key) handler" where
  "PublicKey sdk u =
     (case dlsymOrPanic sdk ''usig_get_pub_key'' of
        Inl err \<Rightarrow> (u, Inl err)
      | Inr _ \<Rightarrow>
          (case ecall sdk (\<lambda>e. (e, ecall_usig_get_pub_key e)) u of
             (u', r) \<Rightarrow>
               (u', case sgxSuccessOrPanic r of Inl err \<Rightarrow> Inl err | Inr pk \<Rightarrow> Inr (sgxEC256PubKeyToGo pk))))"

definition SealedKey :: "sgx_sdk \<Rightarrow> (usig_enclave, bytes) handler" where
  "SealedKey sdk u =
     (case dlsymOrPanic sdk ''usig_seal_key'' of
        Inl err \<Rightarrow> (u, Inl err)
      | Inr _ \<Rightarrow>
          (case ecall sdk (\<lambda>e. (e, ecall_usig_seal_key sdk e)) u of
             (u', r) \<Rightarrow> (u', sgxSuccessOrPanic r)))"

definition VerifySignature :: "crypto \<Rightarrow> pub_key \<Rightarrow> bytes \<Rightarrow> u64 \<Rightarrow> u64 \<Rightarrow> bytes \<Rightarrow> unit result" where
  "VerifySignature C pubKey digest epoch counter signature =
     (case pubKey of
        EcdsaPublic _ _ _ \<Rightarrow>
          let hash = Sum256 C (digest @ le64 epoch @ le64 counter)
          in (case asn1_Unmarshal signature of
                Inl e \<Rightarrow> Inl (Error ''failed to unmarshal USIG signature'')
              | Inr ((r, s), rest) \<Rightarrow>
                  if rest \<noteq> [] then Inl (Error ''extra bytes in USIG signature'')
                  else if \<not> ecdsa_Verify C pubKey hash r s then Inl (Error ''signature not valid'')
                  else Inr ())
      | _ \<Rightarrow> Inl (Error ''invalid USIG ID format: expected ECDSA public key''))"

section \<open>The USIG\<close>

definition messageDigest :: "crypto \<Rightarrow> bytes \<Rightarrow> bytes" where
  "messageDigest C message = Sum256 C message"

definition MakeID :: "crypto \<Rightarrow> u64 \<Rightarrow> pub_key \<Rightarrow> bytes result" where
  "MakeID C epoch publicKey =
     (case MarshalPKIX C publicKey of
        Inl e \<Rightarrow> Inl (Error ''failed to serialize public key'')
      | Inr publicKeyBytes \<Rightarrow> Inr (be64 epoch @ publicKeyBytes))"

definition ParseID :: "crypto \<Rightarrow> bytes \<Rightarrow> (u64 \<times> pub_key) result" where
  "ParseID C usigID =
     (case read_be64 usigID of
        Inl e \<Rightarrow> Inl (Error ''failed to extract epoch from USIG ID'')
      | Inr (epoch, rest) \<Rightarrow>
          (case ParsePKIX C rest of
             Inl e \<Rightarrow> Inl (Error ''failed to parse public key'')
           | Inr pubKey \<Rightarrow> Inr (epoch, pubKey)))"

definition MakeCert :: "u64 \<Rightarrow> bytes \<Rightarrow> bytes" where
  "MakeCert epoch signature = be64 epoch @ signature"

definition ParseCert :: "bytes \<Rightarrow> (u64 \<times> bytes) result" where
  "ParseCert cert =
     (case read_be64 cert of
        Inl e \<Rightarrow> Inl (Error ''failed to extract epoch from USIG cert'')
      | Inr (epoch, signature) \<Rightarrow> Inr (epoch, signature))"

definition CreateUI :: "crypto \<Rightarrow> sgx_sdk \<Rightarrow> bytes \<Rightarrow> (usig_enclave, ui) handler" where
  "CreateUI C sdk message u =
     (case enclave_CreateUI sdk (messageDigest C message) u of
        (u', Inl err) \<Rightarrow> (u', Inl err)
      | (u', Inr (counter, signature)) \<Rightarrow>
          (u', Inr \<lparr>Counter = counter, Cert = MakeCert (ue_epoch u') signature\<rparr>))"

definition VerifyUI :: "crypto \<Rightarrow> bytes \<Rightarrow> ui \<Rightarrow> bytes \<Rightarrow> unit result" where
  "VerifyUI C message ui usigID =
     (case ParseID C usigID of
        Inl e \<Rightarrow> Inl (Error ''failed to parse USIG ID'')
      | Inr (epoch, pubKey) \<Rightarrow>
          (case ParseCert (Cert ui) of
             Inl e \<Rightarrow> Inl (Error ''failed to parse UI cert'')
           | Inr (uiEpoch, signature) \<Rightarrow>
               if uiEpoch \<noteq> epoch then Inl (Error ''epoch value mismatch'')
               else VerifySignature C pubKey (messageDigest C message) epoch (Counter ui) signature))"

definition usig_ID :: "crypto \<Rightarrow> sgx_sdk \<Rightarrow> (usig_enclave, bytes) handler" where
  "usig_ID C sdk u =
     (case PublicKey sdk u of
        (u', Inl err) \<Rightarrow> (u', Inl err)
      | (u', Inr pk) \<Rightarrow>
          (u', case MakeID C (ue_epoch u') pk of Inl e \<Rightarrow> Inl (Panic ''MakeID'') | Inr i \<Rightarrow> Inr i))"

section \<open>A sample platform\<close>

text \<open>An SDK and a crypto library in which everything succeeds, to run the definitions on.\<close>

definition sample_signature :: sgx_signature where
  "sample_signature = ([9, 0, 0, 0, 0, 0, 0, 0], [7, 0, 0, 0, 0, 0, 0, 0])"

definition sample_sdk :: sgx_sdk where
  "sample_sdk =
     \<lparr>sdk_dlopen = Inr (), sdk_dlclose = Inr (), sdk_dlsym = (\<lambda>_. True), sdk_create_enclave = Inr (),
      sdk_ecall = Inr (), sdk_open_context = Inr (), sdk_sign = (\<lambda>_ _. Inr sample_signature),
      sdk_create_key_pair = Inr (replicate 32 1, replicate 64 0), sdk_rand = Inr 77,
      sdk_sealed_size = 100, sdk_seal = (\<lambda>pub priv. Inr (pub @ priv)),
      sdk_unseal = (\<lambda>bs. Inr (take 64 bs, drop 64 bs))\<rparr>"

definition sample_crypto :: crypto where
  "sample_crypto =
     \<lparr>Sum256 = (\<lambda>_. replicate 32 0), ecdsa_Verify = (\<lambda>_ _ r s. r = 9 \<and> s = 7),
      MarshalPKIX = (\<lambda>pk. if pk = EcdsaPublic P256 0 0 then Inr [4] else Inl (Error ''unsupported'')),
      ParsePKIX = (\<lambda>bs. if bs = [4] then Inr (EcdsaPublic P256 0 0) else Inl (Error ''asn1''))\<rparr>"

section \<open>The contract of a USIG\<close>

text \<open>A series of calls that create identifiers: the identifiers of those that succeed.\<close>

fun create_all :: "('x \<Rightarrow> ('s, ui) handler) \<Rightarrow> 'x list \<Rightarrow> 's \<Rightarrow> ui list" where
  "create_all create [] s = []"
| "create_all create (x # xs) s =
     (case create x s of
        (s', Inl e) \<Rightarrow> create_all create xs s'
      | (s', Inr u) \<Rightarrow> u # create_all create xs s')"

text \<open>
  What \<open>usig.USIG\<close> promises: creating an identifier consumes the next counter value, failing to
  create one does not. \<open>made\<close> is the number of identifiers that were created.
\<close>

locale usig =
  fixes create :: "'x \<Rightarrow> ('s, ui) handler" and made :: "'s \<Rightarrow> u64"
  assumes create_next: "create x s = (s', Inr u) \<Longrightarrow> Counter u = made s + 1 \<and> made s' = made s + 1"
    and create_fails: "create x s = (s', Inl e) \<Longrightarrow> made s' = made s"
begin

lemma counters_sequential:
  "map Counter (create_all create xs s) = map (\<lambda>i. made s + 1 + of_nat i) [0..<length (create_all create xs s)]"
proof (induction xs arbitrary: s)
  case (Cons x xs)
  obtain s' r where c: "create x s = (s', r)" by fastforce
  show ?case
  proof (cases r)
    case (Inl e)
    with c Cons [of s'] create_fails [of x s s'] show ?thesis by simp
  next
    case (Inr u)
    with c Cons [of s'] create_next [of x s s' u] show ?thesis
      by (simp add: map_upt_Suc ac_simps del: upt_Suc)
  qed
qed simp

lemma counters_distinct:
  assumes "length (create_all create xs s) \<le> 2 ^ 64"
  shows "distinct (map Counter (create_all create xs s))"
proof -
  have "inj_on (\<lambda>i. made s + 1 + of_nat i) {0..<length (create_all create xs s)}"
    using assms by (intro inj_onI) (simp add: word_of_nat_eq_iff take_bit_nat_eq_self)
  then show ?thesis
    unfolding counters_sequential by (simp add: distinct_map)
qed

end


section \<open>The enclave keeps the contract\<close>

text \<open>An instance that \<open>NewUSIGEnclave\<close> has returned and that was used by the operations since.\<close>

definition usig_wf :: "usig_enclave \<Rightarrow> bool" where
  "usig_wf u = (case ue_enclave u of None \<Rightarrow> True | Some e \<Rightarrow> initialized e \<and> usig_epoch e = ue_epoch u)"

definition usig_made :: "usig_enclave \<Rightarrow> u64" where
  "usig_made u = (case ue_enclave u of None \<Rightarrow> 0 | Some e \<Rightarrow> usig_counter e - 1)"

lemma create_ui_counter:
  assumes "ecall_usig_create_ui sdk digest e = (e', r)"
  shows "case r of Inl _ \<Rightarrow> e' = e
    | Inr (k, sig) \<Rightarrow> k = usig_counter e \<and> e' = e\<lparr>usig_counter := k + 1\<rparr> \<and>
        sdk_sign sdk (usig_priv_key e) (usig_cert_data digest (usig_epoch e) k) = Inr sig"
  using assms by (auto simp: ecall_usig_create_ui_def Let_def split: if_splits sum.splits)

lemma CreateUI_cases:
  assumes "CreateUI C sdk m u = (u', r)"
  shows "case r of Inl _ \<Rightarrow> u' = u
    | Inr w \<Rightarrow> \<exists>e sig. ue_enclave u = Some e \<and> Counter w = usig_counter e \<and>
        u' = u\<lparr>ue_enclave := Some (e\<lparr>usig_counter := usig_counter e + 1\<rparr>)\<rparr> \<and>
        sdk_sign sdk (usig_priv_key e) (usig_cert_data (messageDigest C m) (usig_epoch e) (usig_counter e)) = Inr sig \<and>
        Cert w = MakeCert (ue_epoch u) (sgxEC256SigToASN1 sig)"
  using assms create_ui_counter [of sdk "messageDigest C m"]
  by (cases u) (fastforce simp: CreateUI_def enclave_CreateUI_def ecall_def split: sum.splits option.splits prod.splits)

interpretation sgx: usig "\<lambda>(sdk, m). CreateUI C sdk m" usig_made for C
proof
  show "Counter w = usig_made u + 1 \<and> usig_made u' = usig_made u + 1"
    if "(case x of (sdk, m) \<Rightarrow> CreateUI C sdk m) u = (u', Inr w)" for x u u' w
    using that by (cases x) (auto simp: usig_made_def dest!: CreateUI_cases)
  show "usig_made u' = usig_made u"
    if "(case x of (sdk, m) \<Rightarrow> CreateUI C sdk m) u = (u', Inl e)" for x u u' e
    using that by (cases x) (auto dest!: CreateUI_cases)
qed

lemma init_enclave:
  assumes "ecall_usig_init sdk sealed e = (e', Inr ())"
  shows "initialized e' \<and> usig_counter e' = usig_counter e"
  using assms
  by (auto simp: ecall_usig_init_def unseal_key_def generate_key_def
      split: if_splits sum.splits option.splits prod.splits)

lemma NewUSIGEnclave_wf: "NewUSIGEnclave sdk key = Inr u \<Longrightarrow> usig_wf u \<and> usig_made u = 0"
  by (auto simp: NewUSIGEnclave_def usig_init_def usig_wf_def usig_made_def ecall_usig_get_epoch_def
      sgxSuccessOrPanic_def new_enclave_def dest!: init_enclave
      split: if_splits sum.splits option.splits prod.splits go_error.splits)

lemma CreateUI_wf: "CreateUI C sdk m u = (u', r) \<Longrightarrow> usig_wf u \<Longrightarrow> usig_wf u'"
  by (drule CreateUI_cases) (auto simp: usig_wf_def split: sum.splits)

section \<open>Identifiers verify\<close>

lemma parse_make_cert [simp]: "ParseCert (MakeCert epoch sig) = Inr (epoch, sig)"
  by (simp add: ParseCert_def MakeCert_def)

lemma parse_make_ID:
  "MakeID C epoch pk = Inr i \<Longrightarrow> (\<And>b. MarshalPKIX C pk = Inr b \<Longrightarrow> ParsePKIX C b = Inr pk) \<Longrightarrow> ParseID C i = Inr (epoch, pk)"
  by (auto simp: MakeID_def ParseID_def split: sum.splits)

lemma bytes_nat_append: "bytes_nat (xs @ ys) = bytes_nat xs * 256 ^ length ys + bytes_nat ys"
proof (induction ys rule: rev_induct)
  case (snoc y ys)
  then show ?case by (simp add: bytes_nat_snoc flip: append_assoc)
qed simp

lemma bytes_nat_less: "bytes_nat bs < 256 ^ length bs"
proof (induction bs rule: rev_induct)
  case (snoc b bs)
  have "unat b < 256" by (rule order.strict_trans2 [OF unsigned_less]) simp
  with snoc show ?case by (simp add: bytes_nat_snoc)
qed simp

lemma bytes_nat_be_bytes: "bytes_nat (be_bytes k w) = unat w mod 256 ^ k"
proof (induction k)
  case (Suc k)
  have "unat (ucast (drop_bit (8 * k) w) :: u8) = take_bit 8 (drop_bit (8 * k) (unat w))"
    by (simp add: unsigned_ucast_eq unsigned_drop_bit_eq take_bit_nat_eq_self)
  then have "unat (ucast (drop_bit (8 * k) w) :: u8) = unat w div 256 ^ k mod 256"
    by (simp add: drop_bit_eq_div take_bit_eq_mod power_mult)
  then show ?case
    using Suc bytes_nat_append [of "[ucast (drop_bit (8 * k) w)]" "be_bytes k w"]
    by (simp add: be_bytes_Suc mod_mult2_eq bytes_nat_def mult.commute [of 256])
qed (simp add: be_bytes_def)

lemma bytes_nat_be32: "bytes_nat (be32 w) = unat w"
proof -
  have "unat w < 256 ^ 4" by (rule order.strict_trans2 [OF unsigned_less]) simp
  then show ?thesis by (simp add: be32_def bytes_nat_be_bytes)
qed

lemma slice_value: "sgxUint32SliceToBigInt ws = foldr (\<lambda>w acc. unat w + 2 ^ 32 * acc) ws 0"
proof (induction ws)
  case (Cons w ws)
  then show ?case
    by (simp add: sgxUint32SliceToBigInt_def bytes_nat_append bytes_nat_be32)
qed (simp add: sgxUint32SliceToBigInt_def)

lemma slice_less: "sgxUint32SliceToBigInt ws < 2 ^ (32 * length ws)"
proof -
  have "length (concat (map be32 (rev ws))) = 4 * length ws" by (induction ws) simp_all
  then show ?thesis
    using bytes_nat_less [of "concat (map be32 (rev ws))"]
    by (simp add: sgxUint32SliceToBigInt_def power_mult)
qed

text \<open>
  What the SDK and the crypto library document: a signature made with the private key over some data
  verifies with the public key over the SHA-256 digest of the data; a serialised public key is
  parsed back.
\<close>

definition key_pair :: "crypto \<Rightarrow> sgx_sdk \<Rightarrow> bytes \<Rightarrow> bytes \<Rightarrow> bool" where
  "key_pair C sdk priv pub \<longleftrightarrow> (\<forall>data x y. sdk_sign sdk priv data = Inr (x, y) \<longrightarrow>
     length x = 8 \<and> length y = 8 \<and>
     ecdsa_Verify C (sgxEC256PubKeyToGo pub) (Sum256 C data)
       (int (sgxUint32SliceToBigInt x)) (int (sgxUint32SliceToBigInt y)))"

definition pkix_ok :: "crypto \<Rightarrow> bool" where
  "pkix_ok C \<longleftrightarrow> (\<forall>pk bs. MarshalPKIX C pk = Inr bs \<longrightarrow> ParsePKIX C bs = Inr pk)"

lemma VerifyUI_parts:
  assumes "VerifyUI C m w i = Inr ()"
  obtains epoch pk sig where "ParseID C i = Inr (epoch, pk)" and "Cert w = MakeCert epoch sig"
    and "VerifySignature C pk (messageDigest C m) epoch (Counter w) sig = Inr ()"
  using assms
  by (auto simp: VerifyUI_def ParseCert_def MakeCert_def dest!: read_be64_append [symmetric] split: sum.splits if_splits)

lemma asn1_signature:
  "length x = 8 \<Longrightarrow> length y = 8 \<Longrightarrow> asn1_Unmarshal (sgxEC256SigToASN1 (x, y)) =
     Inr ((int (sgxUint32SliceToBigInt x), int (sgxUint32SliceToBigInt y)), [])"
  using asn1_round_trip [of "sgxUint32SliceToBigInt x" "sgxUint32SliceToBigInt y" "[]"] slice_less [of x] slice_less [of y]
  by (simp add: sgxEC256SigToASN1_def)

lemma verify_created:
  assumes "ue_enclave u = Some e" and "usig_wf u" and "key_pair C sdk (usig_priv_key e) (usig_pub_key e)" and "pkix_ok C"
    and "CreateUI C sdk m u = (u', Inr w)" and "MakeID C (ue_epoch u) (sgxEC256PubKeyToGo (usig_pub_key e)) = Inr i"
  shows "VerifyUI C m w i = Inr ()"
proof -
  obtain x y where sig: "sdk_sign sdk (usig_priv_key e)
        (usig_cert_data (messageDigest C m) (usig_epoch e) (usig_counter e)) = Inr (x, y)"
    and w: "Counter w = usig_counter e" "Cert w = MakeCert (ue_epoch u) (sgxEC256SigToASN1 (x, y))"
    using CreateUI_cases [OF assms(5)] assms(1) by auto
  have "usig_epoch e = ue_epoch u" using assms(1,2) by (simp add: usig_wf_def)
  moreover have "ParseID C i = Inr (ue_epoch u, sgxEC256PubKeyToGo (usig_pub_key e))"
    using parse_make_ID [OF assms(6)] assms(4) by (simp add: pkix_ok_def)
  moreover have "sgxEC256PubKeyToGo (usig_pub_key e) = EcdsaPublic P256 a b" if "a = sgxUint8SliceToBigInt (take 32 (usig_pub_key e))"
    "b = sgxUint8SliceToBigInt (drop 32 (usig_pub_key e))" for a b using that by (simp add: sgxEC256PubKeyToGo_def)
  ultimately show ?thesis
    using sig w assms(3)
    by (simp add: VerifyUI_def VerifySignature_def asn1_signature key_pair_def usig_cert_data_def)
qed

lemmas sample_eval = NewUSIGEnclave_def usig_init_def ecall_usig_init_def generate_key_def new_enclave_def
  ecall_usig_get_epoch_def sgxSuccessOrPanic_def dlsymOrPanic_def CreateUI_def enclave_CreateUI_def ecall_def
  ecall_usig_create_ui_def ecall_usig_get_pub_key_def PublicKey_def usig_ID_def MakeID_def Let_def
  sample_sdk_def sample_crypto_def

section \<open>Properties\<close>

text \<open>
  A USIG instance numbers the messages it certifies 1, 2, 3 and so on without gaps, whatever
  calls fail in between and however the SDK answers; so no two of its first \<open>2\<^sup>6\<^sup>4\<close> identifiers
  have the same counter.
\<close>

lemma usig_counters:
  fixes C :: crypto and calls :: "(sgx_sdk \<times> bytes) list"
  assumes "NewUSIGEnclave sdk key = Inr u"
  defines "uis \<equiv> create_all (\<lambda>(sdk, m). CreateUI C sdk m) calls u"
  shows "map Counter uis = map (\<lambda>i. 1 + of_nat i) [0..<length uis] \<and>
    (length uis \<le> 2 ^ 64 \<longrightarrow> distinct (map Counter uis))"
  using sgx.counters_sequential [of C calls u] sgx.counters_distinct [of C calls u] NewUSIGEnclave_wf [OF assms(1)]
  by (simp add: uis_def)

text \<open>
  C27: the identifier that a USIG creates for a message verifies with the identity of that USIG,
  given what is documented of the signatures of the SDK and of the serialisation of public keys.
\<close>

theorem created_UI_verifies:
  assumes "ue_enclave u = Some e" and "usig_wf u"
    and "key_pair C sdk (usig_priv_key e) (usig_pub_key e)" and "pkix_ok C"
    and "CreateUI C sdk m u = (u', Inr w)" and "usig_ID C sdk u = (u'', Inr i)"
  shows "VerifyUI C m w i = Inr ()"
proof -
  have "MakeID C (ue_epoch u) (sgxEC256PubKeyToGo (usig_pub_key e)) = Inr i"
    using assms(1,2,6)
    by (auto simp: usig_ID_def PublicKey_def ecall_def ecall_usig_get_pub_key_def sgxSuccessOrPanic_def usig_wf_def
        split: sum.splits if_splits prod.splits go_error.splits)
  then show ?thesis using verify_created assms(1-5) by blast
qed

theorem created_UI_verifies_witness:
  "VerifyUI sample_crypto [5] \<lparr>Counter = 1, Cert = MakeCert 77 (sgxEC256SigToASN1 sample_signature)\<rparr>
     (be64 77 @ [4]) = Inr ()"
proof -
  let ?e = "new_enclave\<lparr>initialized := True, usig_epoch := 77\<rparr>"
  let ?u = "\<lparr>ue_enclave = Some ?e, ue_epoch = 77\<rparr>"
  have "key_pair sample_crypto sample_sdk (usig_priv_key ?e) (usig_pub_key ?e)"
    by (auto simp: key_pair_def sample_crypto_def sample_sdk_def sample_signature_def slice_value)
  moreover have "pkix_ok sample_crypto" by (auto simp: pkix_ok_def sample_crypto_def split: if_splits)
  moreover have "snd (CreateUI sample_crypto sample_sdk [5] ?u) =
      Inr \<lparr>Counter = 1, Cert = MakeCert 77 (sgxEC256SigToASN1 sample_signature)\<rparr>"
    "snd (usig_ID sample_crypto sample_sdk ?u) = Inr (be64 77 @ [4])"
    by (simp_all add: sample_eval sgxEC256PubKeyToGo_def sgxUint8SliceToBigInt_def bytes_nat_def numeral_eq_Suc)
  ultimately show ?thesis
    using created_UI_verifies [of ?u ?e sample_crypto sample_sdk "[5]"] by (simp add: usig_wf_def prod_eq_iff)
qed

text \<open>
  An accepted identifier carries the epoch of the USIG it is verified against, and its
  signature covers the digest of the message, that epoch and the counter; nothing else is accepted.
\<close>

lemma VerifyUI_iff:
  "VerifyUI C m w i = Inr () \<longleftrightarrow>
     (\<exists>epoch curve x y sig r s. ParseID C i = Inr (epoch, EcdsaPublic curve x y) \<and>
        Cert w = MakeCert epoch sig \<and> asn1_Unmarshal sig = Inr ((r, s), []) \<and>
        ecdsa_Verify C (EcdsaPublic curve x y)
          (Sum256 C (usig_cert_data (Sum256 C m) epoch (Counter w))) r s)"
  (is "?l \<longleftrightarrow> ?r")
proof
  assume ?l
  then obtain epoch pk sig where "ParseID C i = Inr (epoch, pk)" "Cert w = MakeCert epoch sig"
    and "VerifySignature C pk (messageDigest C m) epoch (Counter w) sig = Inr ()"
    by (rule VerifyUI_parts)
  then show ?r
    by (auto simp: VerifySignature_def messageDigest_def usig_cert_data_def Let_def
        split: pub_key.splits sum.splits if_splits)
qed (auto simp: VerifyUI_def VerifySignature_def messageDigest_def usig_cert_data_def)

text \<open>
  The words of an SDK signature are converted to the number they denote in little-endian
  order, and the converted signature is read back from its DER form.
\<close>

lemma signature_conversion:
  assumes "length x = 8" and "length y = 8"
  shows "asn1_Unmarshal (sgxEC256SigToASN1 (x, y)) =
    Inr ((int (foldr (\<lambda>w acc. unat w + 2 ^ 32 * acc) x 0), int (foldr (\<lambda>w acc. unat w + 2 ^ 32 * acc) y 0)), [])"
  using asn1_signature [OF assms] by (simp add: slice_value)

end
