(* ===== verification/Base64.thy ===== *)
theory Base64
  imports Prelude
begin

text \<open>
  The standard encoding of Go's \<open>encoding/base64\<close>, with padding: \<open>EncodeToString\<close> and
  \<open>DecodeString\<close>. The decoder skips line ends and does not look at the unused bits of the last
  character before the padding.
\<close>

definition alphabet :: string where
  "alphabet = ''ABCDEFGHIJKLMNOPQRSTUVWXYZabcdefghijklmnopqrstuvwxyz0123456789+/''"

definition sextet :: "nat \<Rightarrow> char" where
  "sextet n = alphabet ! (n mod 64)"

fun index_of :: "char \<Rightarrow> string \<Rightarrow> nat option" where
  "index_of c [] = None"
| "index_of c (x # xs) = (if c = x then Some 0 else map_option Suc (index_of c xs))"

definition sextet_value :: "char \<Rightarrow> nat option" where
  "sextet_value c = index_of c alphabet"

fun EncodeToString :: "bytes \<Rightarrow> string" where
  "EncodeToString [] = []"
| "EncodeToString [a] =
     (let n = unat a * 2 ^ 16 in [sextet (n div 2 ^ 18), sextet (n div 2 ^ 12), CHR ''='', CHR ''=''])"
| "EncodeToString [a, b] =
     (let n = unat a * 2 ^ 16 + unat b * 2 ^ 8
      in [sextet (n div 2 ^ 18), sextet (n div 2 ^ 12), sextet (n div 2 ^ 6), CHR ''=''])"
| "EncodeToString (a # b # c # rest) =
     (let n = unat a * 2 ^ 16 + unat b * 2 ^ 8 + unat c
      in [sextet (n div 2 ^ 18), sextet (n div 2 ^ 12), sextet (n div 2 ^ 6), sextet n] @ EncodeToString rest)"

definition decode_quad :: "char \<Rightarrow> char \<Rightarrow> char \<Rightarrow> char \<Rightarrow> nat option" where
  "decode_quad p q r s =
     (case (sextet_value p, sextet_value q, sextet_value r, sextet_value s) of
        (Some x, Some y, Some z, Some w) \<Rightarrow> Some (x * 2 ^ 18 + y * 2 ^ 12 + z * 2 ^ 6 + w)
      | _ \<Rightarrow> None)"

definition byte_at :: "nat \<Rightarrow> nat \<Rightarrow> u8" where
  "byte_at k n = of_nat (n div 2 ^ k)"

fun decode_quads :: "string \<Rightarrow> bytes result" where
  "decode_quads [] = Inr []"
| "decode_quads (p # q # r # s # rest) =
     (if rest = [] \<and> s = CHR ''=''
      then if r = CHR ''=''
           then (case decode_quad p q (CHR ''A'') (CHR ''A'') of
                   None \<Rightarrow> Inl (Error ''illegal base64 data'')
                 | Some n \<Rightarrow> Inr [byte_at 16 n])
           else (case decode_quad p q r (CHR ''A'') of
                   None \<Rightarrow> Inl (Error ''illegal base64 data'')
                 | Some n \<Rightarrow> Inr [byte_at 16 n, byte_at 8 n])
      else (case decode_quad p q r s of
              None \<Rightarrow> Inl (Error ''illegal base64 data'')
            | Some n \<Rightarrow>
                (case decode_quads rest of
                   Inl e \<Rightarrow> Inl e
                 | Inr bs \<Rightarrow> Inr (byte_at 16 n # byte_at 8 n # byte_at 0 n # bs))))"
| "decode_quads _ = Inl (Error ''illegal base64 data'')"

definition DecodeString :: "string \<Rightarrow> bytes result" where
  "DecodeString s = decode_quads (filter (\<lambda>c. c \<noteq> CHR 0x0A \<and> c \<noteq> CHR 0x0D) s)"

section \<open>Round trip\<close>

lemma sextet_table: "\<forall>i < 64. sextet_value (sextet i) = Some i \<and> sextet i \<noteq> CHR ''='' \<and>
    sextet i \<noteq> CHR 0x0A \<and> sextet i \<noteq> CHR 0x0D"
  by code_simp

lemma sextet_props [simp]:
  "sextet_value (sextet n) = Some (n mod 64)" "sextet n \<noteq> CHR ''=''"
  "sextet n \<noteq> CHR 0x0A" "sextet n \<noteq> CHR 0x0D"
  using sextet_table [rule_format, of "n mod 64"] by (simp_all add: sextet_def)

lemma value_A [simp]: "sextet_value (CHR ''A'') = Some 0"
  by code_simp

lemma regroup:
  assumes "n < 2 ^ 24"
  shows "n div 2 ^ 18 mod 64 * 2 ^ 18 + n div 2 ^ 12 mod 64 * 2 ^ 12 + n div 2 ^ 6 mod 64 * 2 ^ 6 + n mod 64 = (n :: nat)"
proof -
  define x y z where "x = n div 64" and "y = x div 64" and "z = y div 64"
  have "n div 2 ^ 12 = y" "n div 2 ^ 18 = z"
    by (simp_all add: x_def y_def z_def flip: div_mult2_eq)
  moreover have "z mod 64 = z" using assms by (simp add: x_def y_def z_def flip: div_mult2_eq)
  moreover have "n = 64 * x + n mod 64" "x = 64 * y + x mod 64" "y = 64 * z + y mod 64"
    by (simp_all add: x_def y_def z_def)
  ultimately show ?thesis by (simp add: x_def [symmetric])
qed

lemma unat_byte_less: "unat (b :: u8) < 256"
  by (rule order.strict_trans2 [OF unsigned_less]) simp

lemma three_bytes:
  fixes a b c :: u8
  defines "n \<equiv> unat a * 2 ^ 16 + unat b * 2 ^ 8 + unat c"
  shows "n < 2 ^ 24" and "byte_at 16 n = a" and "byte_at 8 n = b" and "byte_at 0 n = c"
proof -
  have lt: "unat a < 256" "unat b < 256" "unat c < 256" by (rule unat_byte_less)+
  show "n < 2 ^ 24" unfolding n_def power_numeral using lt by simp
  have "n div 2 ^ 16 = unat a" "n div 2 ^ 8 = unat a * 256 + unat b"
    using lt unfolding n_def by (simp_all add: div_nat_eqI)
  moreover have "of_nat (unat a * 256 + unat b) = b" "of_nat n = c"
  proof -
    have "(256 :: u8) = 0" "(65536 :: u8) = 0" by simp_all
    then have "x * 256 = 0" "x * 65536 = 0" for x :: u8 by (simp_all only: mult_zero_right)
    then show "of_nat (unat a * 256 + unat b) = b" "of_nat n = c" by (simp_all add: n_def)
  qed
  ultimately show "byte_at 16 n = a" "byte_at 8 n = b" "byte_at 0 n = c"
    by (simp_all add: byte_at_def)
qed

lemma decode_three:
  fixes a b c :: u8
  defines "n \<equiv> unat a * 2 ^ 16 + unat b * 2 ^ 8 + unat c"
  shows "decode_quad (sextet (n div 2 ^ 18)) (sextet (n div 2 ^ 12)) (sextet (n div 2 ^ 6)) (sextet n) = Some n"
  using regroup [of n] three_bytes(1) [of a b c] by (simp add: decode_quad_def n_def)

lemma sextet_0: "n mod 64 = 0 \<Longrightarrow> sextet n = CHR ''A''"
  by (simp add: sextet_def alphabet_def)

lemma base64_round_trip [simp]: "DecodeString (EncodeToString bs) = Inr bs"
proof -
  have "decode_quads (EncodeToString bs) = Inr bs"
  proof (induction bs rule: EncodeToString.induct)
    case (2 a)
    show ?case using decode_three [of a 0 0] three_bytes [of a 0 0] sextet_0
      by (simp add: Let_def)
  next
    case (3 a b)
    show ?case using decode_three [of a b 0] three_bytes [of a b 0] sextet_0
      by (simp add: Let_def)
  next
    case (4 a b c rest)
    then show ?case using decode_three [of a b c] three_bytes [of a b c] by (simp add: Let_def)
  qed simp
  moreover have "filter (\<lambda>c. c \<noteq> CHR 0x0A \<and> c \<noteq> CHR 0x0D) (EncodeToString bs) = EncodeToString bs"
    by (induction bs rule: EncodeToString.induct) (simp_all add: Let_def)
  ultimately show ?thesis by (simp add: DecodeString_def)
qed

end
