(* ===== verification/KeyStore.thy ===== *)
theory KeyStore
  imports SgxUsig Base64 Validation
begin

text \<open>
  \<open>sample/authentication/keymanager.go\<close>: the key store of a node, its loading from a key store file
  and the generation of such a file. The YAML format of the file is not modelled: \<open>key_file\<close> is what
  the YAML library decodes and encodes. Parsing and serialising of keys by \<open>crypto/x509\<close>, the
  generation of key pairs, and the enclave are parameters.
\<close>

section \<open>Keys\<close>

text \<open>A Go value used as a private key, by its dynamic type; \<open>NoPriv\<close> is nil.\<close>

datatype priv_key = NoPriv | EcdsaPrivate curve bytes | SealedPriv bytes

record key_crypto = crypto +
  ParseECPrivateKey :: "bytes \<Rightarrow> priv_key result"
  MarshalECPrivateKey :: "priv_key \<Rightarrow> bytes result"

section \<open>The key store\<close>

record owner_key =
  ok_keyspec :: string
  ok_privateKey :: priv_key
  ok_publicKey :: pub_key

record public_key_set =
  pks_keyspec :: string
  pks_keys :: "u32 \<rightharpoonup> pub_key"

record key_store =
  ks_id :: u32
  ks_ownerKeys :: "role \<rightharpoonup> owner_key"
  ks_nodePublicKeys :: "role \<rightharpoonup> public_key_set"

definition KeySpec :: "key_store \<Rightarrow> role \<Rightarrow> string" where
  "KeySpec ks r = (case ks_ownerKeys ks r of None \<Rightarrow> [] | Some k \<Rightarrow> ok_keyspec k)"

definition PrivateKey :: "key_store \<Rightarrow> role \<Rightarrow> priv_key" where
  "PrivateKey ks r = (case ks_ownerKeys ks r of None \<Rightarrow> NoPriv | Some k \<Rightarrow> ok_privateKey k)"

definition OwnPublicKey :: "key_store \<Rightarrow> role \<Rightarrow> pub_key" where
  "OwnPublicKey ks r = (case ks_ownerKeys ks r of None \<Rightarrow> NoKey | Some k \<Rightarrow> ok_publicKey k)"

text \<open>The key of a node that is not in the set is nil, which is not an error.\<close>

definition NodePublicKey :: "key_store \<Rightarrow> role \<Rightarrow> u32 \<Rightarrow> pub_key result" where
  "NodePublicKey ks r i =
     (case ks_nodePublicKeys ks r of
        None \<Rightarrow> Inl (Error ''key set not found'')
      | Some s \<Rightarrow> Inr (case pks_keys s i of None \<Rightarrow> NoKey | Some k \<Rightarrow> k))"

text \<open>The order in which Go ranges over a map of roles is a parameter.\<close>

definition NodeRoles :: "role list \<Rightarrow> key_store \<Rightarrow> role list" where
  "NodeRoles order ks = filter (\<lambda>r. ks_nodePublicKeys ks r \<noteq> None) order"

definition NodeKeySpec :: "key_store \<Rightarrow> role \<Rightarrow> string" where
  "NodeKeySpec ks r = (case ks_nodePublicKeys ks r of None \<Rightarrow> [] | Some s \<Rightarrow> pks_keyspec s)"

section \<open>Key specifications\<close>

abbreviation keySpecSgxEcdsa :: string where
  "keySpecSgxEcdsa \<equiv> ''SGX_ECDSA''"

abbreviation keySpecEcdsa :: string where
  "keySpecEcdsa \<equiv> ''ECDSA''"

datatype key_spec = SgxEcdsaKeySpec | EcdsaKeySpec

definition getKeySpec :: "string \<Rightarrow> key_spec result" where
  "getKeySpec s =
     (if s = keySpecSgxEcdsa then Inr SgxEcdsaKeySpec
      else if s = keySpecEcdsa then Inr EcdsaKeySpec
      else Inl (Error ''unknown KeySpec''))"

fun getSpecName :: "key_spec \<Rightarrow> string" where
  "getSpecName SgxEcdsaKeySpec = keySpecSgxEcdsa"
| "getSpecName EcdsaKeySpec = keySpecEcdsa"

definition parsePrivateKey :: "key_crypto \<Rightarrow> key_spec \<Rightarrow> string \<Rightarrow> priv_key result" where
  "parsePrivateKey K spec s =
     (case spec of
        SgxEcdsaKeySpec \<Rightarrow> (case DecodeString s of Inl e \<Rightarrow> Inl e | Inr sealed \<Rightarrow> Inr (SealedPriv sealed))
      | EcdsaKeySpec \<Rightarrow>
          (case DecodeString s of
             Inl e \<Rightarrow> Inl (Error ''base64 decode error (ECDSA private key)'')
           | Inr der \<Rightarrow>
               (case ParseECPrivateKey K der of
                  Inl e \<Rightarrow> Inl (Error ''parse error (ECDSA private key)'')
                | Inr k \<Rightarrow> Inr k)))"

text \<open>The SGX specification embeds the ECDSA one and inherits this method.\<close>

definition parsePublicKey :: "key_crypto \<Rightarrow> key_spec \<Rightarrow> string \<Rightarrow> pub_key result" where
  "parsePublicKey K spec s =
     (case DecodeString s of
        Inl e \<Rightarrow> Inl (Error ''base64 decode error (ECDSA public key)'')
      | Inr der \<Rightarrow>
          (case ParsePKIX (crypto.truncate K) der of
             Inl e \<Rightarrow> Inl (Error ''parse error (ECDSA public Key)'')
           | Inr k \<Rightarrow>
               (case k of
                  EcdsaPublic _ _ _ \<Rightarrow> Inr k
                | _ \<Rightarrow> Inl (Error ''public key format error: expect ECDSA''))))"

section \<open>Loading\<close>

record key_entry =
  ke_ID :: u32
  ke_PrivateKey :: string
  ke_PublicKey :: string

record key_set =
  kset_KeySpec :: string
  kset_Keys :: "key_entry list"

record key_file =
  kf_Replica :: "key_set option"
  kf_Usig :: "key_set option"
  kf_Client :: "key_set option"

fun file_keys :: "key_file \<Rightarrow> role \<Rightarrow> key_set option" where
  "file_keys f ReplicaAuthen = kf_Replica f"
| "file_keys f USIGAuthen = kf_Usig f"
| "file_keys f ClientAuthen = kf_Client f"

definition parseKeyPair :: "key_crypto \<Rightarrow> role \<Rightarrow> key_spec \<Rightarrow> key_entry \<Rightarrow> key_store \<Rightarrow> key_store result" where
  "parseKeyPair K r spec kp ks =
     (case ks_nodePublicKeys ks r of
        None \<Rightarrow> Inl (Panic ''nil pointer dereference'')
      | Some s \<Rightarrow>
          (case parsePublicKey K spec (ke_PublicKey kp) of
             Inl e \<Rightarrow> Inl e
           | Inr pub \<Rightarrow>
               let ks' = ks\<lparr>ks_nodePublicKeys := (ks_nodePublicKeys ks)
                              (r \<mapsto> s\<lparr>pks_keys := (pks_keys s)(ke_ID kp \<mapsto> pub)\<rparr>)\<rparr>
               in if ks_ownerKeys ks r \<noteq> None \<and> ke_ID kp = ks_id ks
                  then (case parsePrivateKey K spec (ke_PrivateKey kp) of
                          Inl e \<Rightarrow> Inl e
                        | Inr priv \<Rightarrow>
                            Inr (ks'\<lparr>ks_ownerKeys := (ks_ownerKeys ks)
                                   (r \<mapsto> \<lparr>ok_keyspec = getSpecName spec, ok_privateKey = priv, ok_publicKey = pub\<rparr>)\<rparr>))
                  else Inr ks'))"

fun parse_pairs :: "key_crypto \<Rightarrow> role \<Rightarrow> key_spec \<Rightarrow> key_entry list \<Rightarrow> key_store \<Rightarrow> key_store result" where
  "parse_pairs K r spec [] ks = Inr ks"
| "parse_pairs K r spec (kp # kps) ks =
     (case parseKeyPair K r spec kp ks of Inl e \<Rightarrow> Inl e | Inr ks' \<Rightarrow> parse_pairs K r spec kps ks')"

fun load_sets :: "key_crypto \<Rightarrow> key_file \<Rightarrow> role list \<Rightarrow> key_store \<Rightarrow> key_store result" where
  "load_sets K f [] ks = Inr ks"
| "load_sets K f (r # rs) ks =
     (case file_keys f r of
        None \<Rightarrow> load_sets K f rs ks
      | Some kset \<Rightarrow>
          (case getKeySpec (kset_KeySpec kset) of
             Inl e \<Rightarrow> Inl e
           | Inr spec \<Rightarrow>
               (case parse_pairs K r spec (kset_Keys kset)
                       (ks\<lparr>ks_nodePublicKeys := (ks_nodePublicKeys ks)
                          (r \<mapsto> \<lparr>pks_keyspec = getSpecName spec, pks_keys = Map.empty\<rparr>)\<rparr>) of
                  Inl e \<Rightarrow> Inl e
                | Inr ks' \<Rightarrow> load_sets K f rs ks')))"

definition empty_owner :: owner_key where
  "empty_owner = \<lparr>ok_keyspec = [], ok_privateKey = NoPriv, ok_publicKey = NoKey\<rparr>"

text \<open>\<open>order\<close> is the order in which Go ranges over the map of key sets.\<close>

definition LoadSimpleKeyStore :: "key_crypto \<Rightarrow> role list \<Rightarrow> key_file \<Rightarrow> role list \<Rightarrow> u32 \<Rightarrow> key_store result" where
  "LoadSimpleKeyStore K order f roles i =
     (case load_sets K f order
             \<lparr>ks_id = i, ks_ownerKeys = (\<lambda>r. if r \<in> set roles then Some empty_owner else None),
              ks_nodePublicKeys = Map.empty\<rparr> of
        Inl e \<Rightarrow> Inl e
      | Inr ks \<Rightarrow>
          if \<exists>r \<in> set roles. PrivateKey ks r = NoPriv
          then Inl (Error ''missing key: cannot find own key of the node'') else Inr ks)"

section \<open>Generation\<close>

definition curve_for :: "int \<Rightarrow> curve" where
  "curve_for securityParam =
     (if securityParam = 224 then P224 else if securityParam = 256 then P256
      else if securityParam = 384 then P384 else if securityParam = 521 then P521 else P256)"

text \<open>
  The key pair of one node: \<open>gen\<close> stands for \<open>ecdsa.GenerateKey\<close>, whose result is different at every
  call; the enclave of a fresh USIG generates and seals its own key.
\<close>

definition ecdsa_generateKeyPair ::
    "key_crypto \<Rightarrow> (curve \<Rightarrow> (priv_key \<times> pub_key) result) \<Rightarrow> int \<Rightarrow> (string \<times> string) result" where
  "ecdsa_generateKeyPair K gen securityParam =
     (case gen (curve_for securityParam) of
        Inl e \<Rightarrow> Inl e
      | Inr (priv, pub) \<Rightarrow>
          (case MarshalECPrivateKey K priv of
             Inl e \<Rightarrow> Inl (Panic ''x509.MarshalECPrivateKey failed'')
           | Inr privBytes \<Rightarrow>
               (case MarshalPKIX (crypto.truncate K) pub of
                  Inl e \<Rightarrow> Inl (Panic ''x509.MarshalPKIXPublicKey failed'')
                | Inr pubBytes \<Rightarrow> Inr (EncodeToString privBytes, EncodeToString pubBytes))))"

definition sgx_generateKeyPair :: "key_crypto \<Rightarrow> sgx_sdk \<Rightarrow> (string \<times> string) result" where
  "sgx_generateKeyPair K sdk =
     (case NewUSIGEnclave sdk [] of
        Inl e \<Rightarrow> Inl e
      | Inr u \<Rightarrow>
          (case SealedKey sdk u of
             (_, Inl e) \<Rightarrow> Inl e
           | (u1, Inr privBytes) \<Rightarrow>
               (case PublicKey sdk u1 of
                  (_, Inl e) \<Rightarrow> Inl e
                | (u2, Inr pub) \<Rightarrow>
                    (case MarshalPKIX (crypto.truncate K) pub of
                       Inl e \<Rightarrow> Inl (Error ''failed to marshal USIG public key'')
                     | Inr pubBytes \<Rightarrow>
                         (case Destroy sdk u2 of
                            (_, Inl e) \<Rightarrow> Inl e
                          | (_, Inr _) \<Rightarrow> Inr (EncodeToString privBytes, EncodeToString pubBytes))))))"

text \<open>\<open>gen_pair i\<close> is \<open>spec.generateKeyPair\<close> when it is called for node \<open>i\<close>.\<close>

fun generate_pairs :: "(nat \<Rightarrow> (string \<times> string) result) \<Rightarrow> nat list \<Rightarrow> key_entry list result" where
  "generate_pairs gen_pair [] = Inr []"
| "generate_pairs gen_pair (i # is) =
     (case gen_pair i of
        Inl e \<Rightarrow> Inl e
      | Inr (priv, pub) \<Rightarrow>
          (case generate_pairs gen_pair is of
             Inl e \<Rightarrow> Inl e
           | Inr kps \<Rightarrow> Inr (\<lparr>ke_ID = of_nat i, ke_PrivateKey = priv, ke_PublicKey = pub\<rparr> # kps)))"

text \<open>What a run of the generator gets from its environment: one answer for every call.\<close>

record key_gen =
  gen_ecdsa :: "nat \<Rightarrow> curve \<Rightarrow> (priv_key \<times> pub_key) result"
  gen_sdk :: "nat \<Rightarrow> sgx_sdk"

definition generateKeyPair :: "key_crypto \<Rightarrow> key_gen \<Rightarrow> key_spec \<Rightarrow> int \<Rightarrow> nat \<Rightarrow> (string \<times> string) result" where
  "generateKeyPair K G spec secParam i =
     (case spec of
        SgxEcdsaKeySpec \<Rightarrow> sgx_generateKeyPair K (gen_sdk G i)
      | EcdsaKeySpec \<Rightarrow> ecdsa_generateKeyPair K (gen_ecdsa G i) secParam)"

text \<open>The slice of keys is made first: a negative length panics.\<close>

definition generateKeySet :: "key_crypto \<Rightarrow> key_gen \<Rightarrow> int \<Rightarrow> string \<Rightarrow> int \<Rightarrow> key_set result" where
  "generateKeySet K G nrKeys keySpec secParam =
     (if nrKeys < 0 then Inl (Panic ''makeslice: len out of range'')
      else case getKeySpec keySpec of
        Inl e \<Rightarrow> Inl e
      | Inr spec \<Rightarrow>
          (case generate_pairs (generateKeyPair K G spec secParam) [0..<nat nrKeys] of
             Inl e \<Rightarrow> Inl e
           | Inr kps \<Rightarrow> Inr \<lparr>kset_KeySpec = keySpec, kset_Keys = kps\<rparr>))"

record testnet_opts =
  NumberReplicas :: int
  ReplicaKeySpec :: string
  ReplicaSecParam :: int
  NumberClients :: int
  ClientKeySpec :: string
  ClientSecParam :: int

definition GenerateTestnetKeys :: "key_crypto \<Rightarrow> key_gen \<Rightarrow> key_gen \<Rightarrow> key_gen \<Rightarrow> testnet_opts \<Rightarrow> key_file result" where
  "GenerateTestnetKeys K G1 G2 G3 opts =
     (case generateKeySet K G1 (NumberReplicas opts) (ReplicaKeySpec opts) (ReplicaSecParam opts) of
        Inl e \<Rightarrow> Inl e
      | Inr r \<Rightarrow>
          (case generateKeySet K G2 (NumberReplicas opts) keySpecSgxEcdsa 0 of
             Inl e \<Rightarrow> Inl e
           | Inr u \<Rightarrow>
               (case generateKeySet K G3 (NumberClients opts) (ClientKeySpec opts) (ClientSecParam opts) of
                  Inl e \<Rightarrow> Inl e
                | Inr c \<Rightarrow> Inr \<lparr>kf_Replica = Some r, kf_Usig = Some u, kf_Client = Some c\<rparr>)))"

section \<open>A sample generation\<close>

definition sample_keys :: key_crypto where
  "sample_keys = crypto.extend sample_crypto
     \<lparr>ParseECPrivateKey = (\<lambda>bs. if bs = [1] then Inr (EcdsaPrivate P256 [9]) else Inl (Error ''asn1'')),
      MarshalECPrivateKey = (\<lambda>k. if k = EcdsaPrivate P256 [9] then Inr [1] else Inl (Error ''unsupported''))\<rparr>"

definition sample_gen :: key_gen where
  "sample_gen = \<lparr>gen_ecdsa = (\<lambda>i c. if c = P256 then Inr (EcdsaPrivate P256 [9], EcdsaPublic P256 0 0) else Inl (Error ''rand'')),
     gen_sdk = (\<lambda>i. sample_sdk)\<rparr>"

definition sample_opts :: testnet_opts where
  "sample_opts = \<lparr>NumberReplicas = 2, ReplicaKeySpec = keySpecEcdsa, ReplicaSecParam = 256,
     NumberClients = 1, ClientKeySpec = keySpecEcdsa, ClientSecParam = 0\<rparr>"

section \<open>A generated key store can be loaded\<close>

text \<open>What is documented of \<open>crypto/x509\<close> and of \<open>ecdsa.GenerateKey\<close>.\<close>

definition key_codec_ok :: "key_crypto \<Rightarrow> bool" where
  "key_codec_ok K \<longleftrightarrow>
     (\<forall>k bs. MarshalECPrivateKey K k = Inr bs \<longrightarrow> ParseECPrivateKey K bs = Inr k) \<and>
     (\<forall>pk bs. MarshalPKIX (crypto.truncate K) pk = Inr bs \<longrightarrow> ParsePKIX (crypto.truncate K) bs = Inr pk)"

definition gen_ok :: "key_gen \<Rightarrow> bool" where
  "gen_ok G \<longleftrightarrow> (\<forall>i c priv pub. gen_ecdsa G i c = Inr (priv, pub) \<longrightarrow>
     (\<exists>d x y. priv = EcdsaPrivate c d \<and> pub = EcdsaPublic c x y))"

definition entry_ok :: "key_crypto \<Rightarrow> key_spec \<Rightarrow> key_entry \<Rightarrow> bool" where
  "entry_ok K spec kp \<longleftrightarrow>
     (\<exists>c x y. parsePublicKey K spec (ke_PublicKey kp) = Inr (EcdsaPublic c x y)) \<and>
     (\<exists>priv. parsePrivateKey K spec (ke_PrivateKey kp) = Inr priv \<and> priv \<noteq> NoPriv)"

text \<open>The keys of role \<open>r\<close> are complete for the nodes \<open>ids\<close>, the own key included.\<close>

definition role_loaded :: "key_store \<Rightarrow> role \<Rightarrow> u32 set \<Rightarrow> bool" where
  "role_loaded ks r ids \<longleftrightarrow>
     (\<forall>i \<in> ids. \<exists>c x y. NodePublicKey ks r i = Inr (EcdsaPublic c x y)) \<and>
     (ks_ownerKeys ks r \<noteq> None \<and> ks_id ks \<in> ids \<longrightarrow>
        PrivateKey ks r \<noteq> NoPriv \<and> NodePublicKey ks r (ks_id ks) = Inr (OwnPublicKey ks r))"

definition same_but :: "role \<Rightarrow> key_store \<Rightarrow> key_store \<Rightarrow> bool" where
  "same_but r ks ks' \<longleftrightarrow> ks_id ks' = ks_id ks \<and>
     (\<forall>r'. (ks_ownerKeys ks' r' = None) = (ks_ownerKeys ks r' = None)) \<and>
     (\<forall>r'. r' \<noteq> r \<longrightarrow> ks_ownerKeys ks' r' = ks_ownerKeys ks r' \<and> ks_nodePublicKeys ks' r' = ks_nodePublicKeys ks r')"

lemma parseKeyPair_ok:
  assumes "entry_ok K spec kp" and "ks_nodePublicKeys ks r = Some s" and "role_loaded ks r ids"
  shows "\<exists>ks' s'. parseKeyPair K r spec kp ks = Inr ks' \<and> ks_nodePublicKeys ks' r = Some s' \<and>
    same_but r ks ks' \<and> role_loaded ks' r (insert (ke_ID kp) ids)"
proof -
  obtain c x y priv where "parsePublicKey K spec (ke_PublicKey kp) = Inr (EcdsaPublic c x y)"
    "parsePrivateKey K spec (ke_PrivateKey kp) = Inr priv" "priv \<noteq> NoPriv"
    using assms(1) by (auto simp: entry_ok_def)
  with assms(2,3) show ?thesis
    by (auto simp: parseKeyPair_def same_but_def role_loaded_def NodePublicKey_def PrivateKey_def
        OwnPublicKey_def Let_def split: option.splits)
qed

lemma parse_pairs_ok:
  assumes "\<forall>kp \<in> set kps. entry_ok K spec kp" and "ks_nodePublicKeys ks r = Some s" and "role_loaded ks r ids"
  shows "\<exists>ks' s'. parse_pairs K r spec kps ks = Inr ks' \<and> same_but r ks ks' \<and>
    role_loaded ks' r (ids \<union> ke_ID ` set kps)"
  using assms
proof (induction kps arbitrary: ks s ids)
  case (Cons kp kps)
  obtain ks1 s1 where 1: "parseKeyPair K r spec kp ks = Inr ks1" "ks_nodePublicKeys ks1 r = Some s1"
    "same_but r ks ks1" "role_loaded ks1 r (insert (ke_ID kp) ids)"
    using parseKeyPair_ok [of K spec kp ks r s ids] Cons.prems by auto
  obtain ks2 where "parse_pairs K r spec kps ks1 = Inr ks2" "same_but r ks1 ks2"
    "role_loaded ks2 r (insert (ke_ID kp) ids \<union> ke_ID ` set kps)"
    using Cons.IH [OF _ 1(2,4)] Cons.prems(1) by auto
  with 1 show ?case by (auto simp: same_but_def)
qed (auto simp: same_but_def)

text \<open>A file that has, for role \<open>r\<close>, a valid key set for the nodes \<open>ids r\<close>.\<close>

definition set_ok :: "key_crypto \<Rightarrow> key_file \<Rightarrow> (role \<Rightarrow> u32 set) \<Rightarrow> role \<Rightarrow> bool" where
  "set_ok K f ids r \<longleftrightarrow> (\<exists>kset spec. file_keys f r = Some kset \<and> getKeySpec (kset_KeySpec kset) = Inr spec \<and>
     (\<forall>kp \<in> set (kset_Keys kset). entry_ok K spec kp) \<and> ids r = ke_ID ` set (kset_Keys kset))"

lemma load_sets_ok:
  assumes "\<forall>r \<in> set rs. set_ok K f ids r" and "distinct rs"
  shows "\<exists>ks'. load_sets K f rs ks = Inr ks' \<and> ks_id ks' = ks_id ks \<and>
    (\<forall>r. (ks_ownerKeys ks' r = None) = (ks_ownerKeys ks r = None)) \<and>
    (\<forall>r. r \<notin> set rs \<longrightarrow> ks_ownerKeys ks' r = ks_ownerKeys ks r \<and> ks_nodePublicKeys ks' r = ks_nodePublicKeys ks r) \<and>
    (\<forall>r \<in> set rs. role_loaded ks' r (ids r))"
  using assms
proof (induction rs arbitrary: ks)
  case (Cons r rs)
  obtain kset spec where k: "file_keys f r = Some kset" "getKeySpec (kset_KeySpec kset) = Inr spec"
    "\<forall>kp \<in> set (kset_Keys kset). entry_ok K spec kp" "ids r = ke_ID ` set (kset_Keys kset)"
    using Cons.prems(1) by (auto simp: set_ok_def)
  let ?ks = "ks\<lparr>ks_nodePublicKeys := (ks_nodePublicKeys ks)(r \<mapsto> \<lparr>pks_keyspec = getSpecName spec, pks_keys = Map.empty\<rparr>)\<rparr>"
  obtain ks1 where 1: "parse_pairs K r spec (kset_Keys kset) ?ks = Inr ks1" "same_but r ?ks ks1"
    "role_loaded ks1 r (ids r)"
    using parse_pairs_ok [OF k(3), of ?ks r _ "{}"] k(4) by (auto simp: role_loaded_def)
  obtain ks2 where 2: "load_sets K f rs ks1 = Inr ks2" "ks_id ks2 = ks_id ks1"
    "\<forall>r. (ks_ownerKeys ks2 r = None) = (ks_ownerKeys ks1 r = None)"
    "\<forall>r. r \<notin> set rs \<longrightarrow> ks_ownerKeys ks2 r = ks_ownerKeys ks1 r \<and> ks_nodePublicKeys ks2 r = ks_nodePublicKeys ks1 r"
    "\<forall>r \<in> set rs. role_loaded ks2 r (ids r)"
    using Cons.IH [of ks1] Cons.prems by auto
  have "role_loaded ks2 r (ids r)"
    using 1(3) 2(2,4) Cons.prems(2)
    by (simp add: role_loaded_def NodePublicKey_def PrivateKey_def OwnPublicKey_def)
  with k(1,2) 1(1,2) 2 show ?case by (auto simp: same_but_def)
qed simp

lemma generated_entry:
  assumes "key_codec_ok K" and "gen_ok G" and "generateKeyPair K G spec sp i = Inr (priv, pub)"
  shows "entry_ok K spec \<lparr>ke_ID = j, ke_PrivateKey = priv, ke_PublicKey = pub\<rparr>"
proof (cases spec)
  case SgxEcdsaKeySpec
  with assms show ?thesis
    by (auto simp: generateKeyPair_def sgx_generateKeyPair_def entry_ok_def parsePublicKey_def parsePrivateKey_def
        key_codec_ok_def PublicKey_def sgxEC256PubKeyToGo_def split: sum.splits prod.splits)
next
  case EcdsaKeySpec
  with assms show ?thesis
    by (fastforce simp: generateKeyPair_def ecdsa_generateKeyPair_def entry_ok_def parsePublicKey_def parsePrivateKey_def
        key_codec_ok_def gen_ok_def split: sum.splits prod.splits)
qed

lemma generated_pairs:
  assumes "key_codec_ok K" and "gen_ok G" and "generate_pairs (generateKeyPair K G spec sp) is = Inr kps"
  shows "(\<forall>kp \<in> set kps. entry_ok K spec kp) \<and> ke_ID ` set kps = of_nat ` set is"
  using assms(3)
proof (induction "is" arbitrary: kps)
  case (Cons i "is")
  then obtain priv pub kps' where "generateKeyPair K G spec sp i = Inr (priv, pub)"
    and g: "generate_pairs (generateKeyPair K G spec sp) is = Inr kps'"
    and "kps = \<lparr>ke_ID = of_nat i, ke_PrivateKey = priv, ke_PublicKey = pub\<rparr> # kps'"
    by (auto split: sum.splits prod.splits)
  with Cons.IH [OF g] show ?case by (simp add: generated_entry [OF assms(1,2)])
qed simp

lemma generated_set:
  assumes "key_codec_ok K" and "gen_ok G" and "generateKeySet K G n keySpec sp = Inr kset"
  shows "\<exists>spec. getKeySpec (kset_KeySpec kset) = Inr spec \<and> (\<forall>kp \<in> set (kset_Keys kset). entry_ok K spec kp) \<and>
    ke_ID ` set (kset_Keys kset) = of_nat ` {..<nat n}"
  using assms generated_pairs [OF assms(1,2), of _ sp "[0..<nat n]"]
  by (auto simp: generateKeySet_def lessThan_atLeast0 split: sum.splits if_splits)


text \<open>How many nodes a generated file has keys for, by role.\<close>

definition file_size :: "testnet_opts \<Rightarrow> role \<Rightarrow> nat" where
  "file_size opts r = nat (case r of ClientAuthen \<Rightarrow> NumberClients opts | _ \<Rightarrow> NumberReplicas opts)"

text \<open>
  A key store file that \<open>GenerateTestnetKeys\<close> has produced is loaded by every node it was
  made for, whatever the order in which the roles are visited: the node finds its own private
  keys, and a public key of every node, its own one being the matching one.
\<close>

lemma generated_store_loads:
  assumes "key_codec_ok K" and "gen_ok G1" and "gen_ok G2" and "gen_ok G3"
    and "GenerateTestnetKeys K G1 G2 G3 opts = Inr f"
    and "set order = UNIV" and "distinct order" and "\<forall>r \<in> set roles. i < file_size opts r"
  shows "\<exists>ks. LoadSimpleKeyStore K order f roles (of_nat i) = Inr ks \<and>
    (\<forall>r. \<forall>j < file_size opts r. \<exists>c x y. NodePublicKey ks r (of_nat j) = Inr (EcdsaPublic c x y)) \<and>
    (\<forall>r \<in> set roles. PrivateKey ks r \<noteq> NoPriv \<and> NodePublicKey ks r (of_nat i) = Inr (OwnPublicKey ks r))"
proof -
  let ?ids = "\<lambda>r. of_nat ` {..<file_size opts r} :: u32 set"
  have "set_ok K f ?ids r" for r
    using assms(5) generated_set [OF assms(1,2)] generated_set [OF assms(1,3)] generated_set [OF assms(1,4)]
    by (cases r) (fastforce simp: GenerateTestnetKeys_def set_ok_def file_size_def split: sum.splits)+
  then obtain ks where ks: "load_sets K f order
      \<lparr>ks_id = of_nat i, ks_ownerKeys = (\<lambda>r. if r \<in> set roles then Some empty_owner else None), ks_nodePublicKeys = Map.empty\<rparr> = Inr ks"
    "ks_id ks = of_nat i" "\<forall>r \<in> set roles. ks_ownerKeys ks r \<noteq> None" "\<forall>r. role_loaded ks r (?ids r)"
    using load_sets_ok [of order K f ?ids "\<lparr>ks_id = of_nat i,
        ks_ownerKeys = (\<lambda>r. if r \<in> set roles then Some empty_owner else None), ks_nodePublicKeys = Map.empty\<rparr>"]
      assms(6,7) by (auto split: if_splits)
  then have own: "\<forall>r \<in> set roles. PrivateKey ks r \<noteq> NoPriv \<and> NodePublicKey ks r (of_nat i) = Inr (OwnPublicKey ks r)"
    using assms(8) by (fastforce simp: role_loaded_def)
  with ks show ?thesis
    by (auto simp: LoadSimpleKeyStore_def role_loaded_def)
qed

lemma sample_keys_ok: "key_codec_ok sample_keys" "gen_ok sample_gen"
  by (auto simp: key_codec_ok_def gen_ok_def sample_keys_def sample_gen_def sample_crypto_def crypto.defs split: if_splits)

end
