(* ===== verification/Authentication.thy ===== *)
theory Authentication
  imports KeyStore OwnLog
begin

text \<open>
  \<open>sample/authentication/crypto.go\<close> and \<open>authenticator.go\<close>: the signature cipher, the two
  authentication schemes and the Authenticator of the sample node.
\<close>

record au_crypto = key_crypto +
  ecdsa_Sign :: "priv_key \<Rightarrow> bytes \<Rightarrow> (nat \<times> nat) result"

abbreviation base_crypto :: "au_crypto \<Rightarrow> crypto" where
  "base_crypto K \<equiv> crypto.truncate K"

abbreviation keys_crypto :: "au_crypto \<Rightarrow> key_crypto" where
  "keys_crypto K \<equiv> key_crypto.truncate K"

section \<open>The signature cipher\<close>

definition cipher_Sign :: "au_crypto \<Rightarrow> bytes \<Rightarrow> priv_key \<Rightarrow> bytes result" where
  "cipher_Sign K md privKey =
     (case privKey of
        EcdsaPrivate _ _ \<Rightarrow>
          (case ecdsa_Sign K privKey md of
             Inl e \<Rightarrow> Inl (Error ''ECDSA signing error'')
           | Inr rs \<Rightarrow> Inr (asn1_Marshal rs))
      | _ \<Rightarrow> Inl (Error ''incompatible format of ECDSA private key''))"

definition cipher_Verify :: "au_crypto \<Rightarrow> bytes \<Rightarrow> bytes \<Rightarrow> pub_key \<Rightarrow> bool result" where
  "cipher_Verify K md sig pubKey =
     (case asn1_Unmarshal sig of
        Inl e \<Rightarrow> Inl (Panic ''ECDSA signature is not ASN.1-DER encoded'')
      | Inr ((r, s), _) \<Rightarrow>
          Inr (case pubKey of EcdsaPublic _ _ _ \<Rightarrow> ecdsa_Verify (base_crypto K) pubKey md r s | _ \<Rightarrow> False))"

section \<open>The scheme of replica and client signatures\<close>

text \<open>\<open>HashScheme.New().Sum(m)\<close> appends the digest of what was written before, which is nothing, to \<open>m\<close>.\<close>

definition public_digest :: "au_crypto \<Rightarrow> bytes \<Rightarrow> bytes" where
  "public_digest K m = m @ Sum256 (base_crypto K) []"

definition public_Generate :: "au_crypto \<Rightarrow> bytes \<Rightarrow> priv_key \<Rightarrow> bytes result" where
  "public_Generate K m privKey = cipher_Sign K (public_digest K m) privKey"

definition public_Verify :: "au_crypto \<Rightarrow> bytes \<Rightarrow> bytes \<Rightarrow> pub_key \<Rightarrow> unit result" where
  "public_Verify K m sig pubKey =
     (case cipher_Verify K (public_digest K m) sig pubKey of
        Inl e \<Rightarrow> Inl e
      | Inr ok \<Rightarrow> if \<not> ok then Inl (Error ''invalid signature'') else Inr ())"

section \<open>The scheme of unique identifiers\<close>

text \<open>The map of epochs has, by key fingerprint, the epoch of the first valid identifier.\<close>

record usig_scheme =
  us_usig :: usig_enclave
  us_epoch :: "bytes \<rightharpoonup> u64"

definition NewSGXUSIGAuthenticationScheme :: "usig_enclave \<Rightarrow> usig_scheme" where
  "NewSGXUSIGAuthenticationScheme u = \<lparr>us_usig = u, us_epoch = Map.empty\<rparr>"

definition makeUSIGKeyFingerprint :: "crypto \<Rightarrow> pub_key \<Rightarrow> bytes result" where
  "makeUSIGKeyFingerprint C pubKey =
     (case MarshalPKIX C pubKey of Inl e \<Rightarrow> Inl e | Inr bs \<Rightarrow> Inr (take 8 (Sum256 C bs)))"

definition usig_Generate :: "crypto \<Rightarrow> sgx_sdk \<Rightarrow> bytes \<Rightarrow> (usig_scheme, bytes) handler" where
  "usig_Generate C sdk m a =
     (case CreateUI C sdk m (us_usig a) of
        (u, Inl (Error e)) \<Rightarrow> (a\<lparr>us_usig := u\<rparr>, Inl (Error (''failed to create UI: '' @ e)))
      | (u, Inl e) \<Rightarrow> (a\<lparr>us_usig := u\<rparr>, Inl e)
      | (u, Inr w) \<Rightarrow> (a\<lparr>us_usig := u\<rparr>, Inr (MarshalBinary w)))"

definition usig_Verify :: "crypto \<Rightarrow> bytes \<Rightarrow> bytes \<Rightarrow> pub_key \<Rightarrow> (usig_scheme, unit) handler" where
  "usig_Verify C m sig pubKey a =
     (case UnmarshalBinary sig of
        Inl e \<Rightarrow> (a, Inl (Error ''failed to unmarshal UI''))
      | Inr w \<Rightarrow>
          (case makeUSIGKeyFingerprint C pubKey of
             Inl e \<Rightarrow> (a, Inl (Error ''failed to calculate USIG key fingerprint''))
           | Inr fp \<Rightarrow>
               (case (case us_epoch a fp of
                        Some epoch \<Rightarrow> Inr epoch
                      | None \<Rightarrow> (case ParseCert (Cert w) of Inl e \<Rightarrow> Inl e | Inr (epoch, _) \<Rightarrow> Inr epoch)) of
                  Inl e \<Rightarrow> (a, Inl (Error ''failed to parse UI certificate''))
                | Inr epoch \<Rightarrow>
                    (case MakeID C epoch pubKey of
                       Inl e \<Rightarrow> (a, Inl (Error ''failed to construct USIG identity''))
                     | Inr usigID \<Rightarrow>
                         (case VerifyUI C m w usigID of
                            Inl e \<Rightarrow> (a, Inl e)
                          | Inr _ \<Rightarrow> (a\<lparr>us_epoch := (us_epoch a)(fp \<mapsto> epoch)\<rparr>, Inr ()))))))"

section \<open>The Authenticator\<close>

datatype scheme = PublicAuthenScheme | SGXUSIGAuthenticationScheme usig_scheme

text \<open>The USIG that is supplied: the SGX one or another implementation.\<close>

datatype any_usig = SgxUSIG usig_enclave | OtherUSIG

record authenticator =
  au_id :: u32
  au_ks :: key_store
  au_schemes :: "role \<rightharpoonup> scheme"

fun add_schemes :: "any_usig option \<Rightarrow> key_store \<Rightarrow> role list \<Rightarrow> (role \<rightharpoonup> scheme) \<Rightarrow> (role \<rightharpoonup> scheme) result" where
  "add_schemes supplied ks [] m = Inr m"
| "add_schemes supplied ks (r # rs) m =
     (let ksName = NodeKeySpec ks r
      in if (r = USIGAuthen) \<noteq> (ksName = keySpecSgxEcdsa) then Inl (Error ''cannot use keyspec for role'')
         else if ksName = keySpecEcdsa then add_schemes supplied ks rs (m(r \<mapsto> PublicAuthenScheme))
         else if ksName = keySpecSgxEcdsa then
           (case supplied of
              None \<Rightarrow> add_schemes supplied ks rs m
            | Some OtherUSIG \<Rightarrow> Inl (Error ''cannot use supplied USIG'')
            | Some (SgxUSIG u) \<Rightarrow>
                add_schemes supplied ks rs
                  (m(r \<mapsto> SGXUSIGAuthenticationScheme (NewSGXUSIGAuthenticationScheme u))))
         else Inl (Error ''cannot find an authentication scheme corresponding to the keyspec''))"

definition new_authenticator :: "role list \<Rightarrow> u32 \<Rightarrow> key_store \<Rightarrow> any_usig option \<Rightarrow> authenticator result" where
  "new_authenticator order i ks supplied =
     (case add_schemes supplied ks (NodeRoles order ks) Map.empty of
        Inl e \<Rightarrow> Inl e
      | Inr m \<Rightarrow> Inr \<lparr>au_id = i, au_ks = ks, au_schemes = m\<rparr>)"

definition New_authenticator :: "au_crypto \<Rightarrow> role list \<Rightarrow> key_file \<Rightarrow> role list \<Rightarrow> u32 \<Rightarrow> authenticator result" where
  "New_authenticator K order f roles i =
     (case LoadSimpleKeyStore (keys_crypto K) order f roles i of
        Inl (Error e) \<Rightarrow> Inl (Error (''failed to load keystore: '' @ e))
      | Inl e \<Rightarrow> Inl e
      | Inr ks \<Rightarrow>
          (case new_authenticator order i ks None of
             Inl (Error e) \<Rightarrow> Inl (Error (''failed to create authenticator: '' @ e))
           | r \<Rightarrow> r))"

definition NewWithSGXUSIG :: "au_crypto \<Rightarrow> sgx_sdk \<Rightarrow> role list \<Rightarrow> key_file \<Rightarrow> role list \<Rightarrow> u32 \<Rightarrow> authenticator result" where
  "NewWithSGXUSIG K sdk order f roles i =
     (case LoadSimpleKeyStore (keys_crypto K) order f roles i of
        Inl (Error e) \<Rightarrow> Inl (Error (''failed to load keystore: '' @ e))
      | Inl e \<Rightarrow> Inl e
      | Inr ks \<Rightarrow>
          (case ks_ownerKeys ks USIGAuthen of
             None \<Rightarrow> Inl (Panic ''nil pointer dereference'')
           | Some k \<Rightarrow>
               (case ok_privateKey k of
                  NoPriv \<Rightarrow> Inl (Error ''failed to get USIG sealed key'')
                | EcdsaPrivate _ _ \<Rightarrow> Inl (Panic ''interface conversion'')
                | SealedPriv sealed \<Rightarrow>
                    (case NewUSIGEnclave sdk sealed of
                       Inl (Error e) \<Rightarrow> Inl (Error (''failed to create USIG: '' @ e))
                     | Inl e \<Rightarrow> Inl e
                     | Inr u \<Rightarrow>
                         (case new_authenticator order i ks (Some (SgxUSIG u)) of
                            Inl (Error e) \<Rightarrow> Inl (Error (''failed to create authenticator: '' @ e))
                          | r \<Rightarrow> r)))))"

definition VerifyMessageAuthenTag :: "au_crypto \<Rightarrow> role \<Rightarrow> u32 \<Rightarrow> bytes \<Rightarrow> bytes \<Rightarrow> (authenticator, unit) handler" where
  "VerifyMessageAuthenTag K r i msg tag a =
     (case NodePublicKey (au_ks a) r i of
        Inl e \<Rightarrow> (a, Inl e)
      | Inr pk \<Rightarrow>
          (case au_schemes a r of
             None \<Rightarrow> (a, Inl (Error ''unknown role''))
           | Some PublicAuthenScheme \<Rightarrow>
               (a, case public_Verify K msg tag pk of
                     Inl (Error e) \<Rightarrow> Inl (Error (''invalid authentication tag: '' @ e))
                   | res \<Rightarrow> res)
           | Some (SGXUSIGAuthenticationScheme us) \<Rightarrow>
               (case usig_Verify (base_crypto K) msg tag pk us of
                  (us', res) \<Rightarrow>
                    (a\<lparr>au_schemes := (au_schemes a)(r \<mapsto> SGXUSIGAuthenticationScheme us')\<rparr>,
                     case res of
                       Inl (Error e) \<Rightarrow> Inl (Error (''invalid authentication tag: '' @ e))
                     | _ \<Rightarrow> res))))"

definition GenerateMessageAuthenTag :: "au_crypto \<Rightarrow> sgx_sdk \<Rightarrow> role \<Rightarrow> bytes \<Rightarrow> (authenticator, bytes) handler" where
  "GenerateMessageAuthenTag K sdk r msg a =
     (case au_schemes a r of
        None \<Rightarrow> (a, Inl (Panic ''nil pointer dereference''))
      | Some PublicAuthenScheme \<Rightarrow> (a, public_Generate K msg (PrivateKey (au_ks a) r))
      | Some (SGXUSIGAuthenticationScheme us) \<Rightarrow>
          (case usig_Generate (base_crypto K) sdk msg us of
             (us', res) \<Rightarrow> (a\<lparr>au_schemes := (au_schemes a)(r \<mapsto> SGXUSIGAuthenticationScheme us')\<rparr>, res)))"

section \<open>A sample node\<close>

definition sample_au :: au_crypto where
  "sample_au = key_crypto.extend sample_keys \<lparr>ecdsa_Sign = (\<lambda>_ _. Inr (9, 7))\<rparr>"

definition sample_hash :: "bytes \<Rightarrow> bytes" where
  "sample_hash bs = replicate 17 0 @ replicate 15 (if bs = [] then 0 else 1)"

definition sample_authenticator :: authenticator where
  "sample_authenticator =
     \<lparr>au_id = 0,
      au_ks = \<lparr>ks_id = 0, ks_ownerKeys = Map.empty,
                ks_nodePublicKeys = [ClientAuthen \<mapsto> \<lparr>pks_keyspec = keySpecEcdsa, pks_keys = Map.empty\<rparr>]\<rparr>,
      au_schemes = [ClientAuthen \<mapsto> PublicAuthenScheme]\<rparr>"

definition sample_ui :: ui where
  "sample_ui = \<lparr>Counter = 1, Cert = MakeCert 77 (sgxEC256SigToASN1 sample_signature)\<rparr>"

definition sample_scheme :: usig_scheme where
  "sample_scheme = NewSGXUSIGAuthenticationScheme
     \<lparr>ue_enclave = Some (new_enclave\<lparr>initialized := True, usig_epoch := 77\<rparr>), ue_epoch = 77\<rparr>"

definition sample_config :: config where
  "sample_config =
     \<lparr>cfg_id = 0, cfg_n = 3, cfg_f = 1, cfg_timeoutRequest = 5, cfg_timeoutPrepare = 3, cfg_timeoutViewChange = 8,
      cfg_hash = (\<lambda>_. replicate 32 0), cfg_verify = (\<lambda>_ _ _ _. True), cfg_sign = (\<lambda>_. Inr []),
      cfg_usig = (\<lambda>_ _. Inr []), cfg_order = id\<rparr>"

lemmas sample_au_eval = sample_au_def sample_keys_def sample_crypto_def key_crypto.defs crypto.defs

lemma sample_pkix: "pkix_ok sample_crypto"
  by (auto simp: pkix_ok_def sample_crypto_def split: if_splits)

lemma sample_asn1: "asn1_Unmarshal (sgxEC256SigToASN1 sample_signature) = Inr ((9, 7), [])"
  using asn1_signature [of "fst sample_signature" "snd sample_signature"]
  by (simp add: sample_signature_def slice_value)

section \<open>Signatures of replicas and clients\<close>

text \<open>What is documented of \<open>ecdsa.Sign\<close> and \<open>ecdsa.Verify\<close> for a key pair on a curve of 256 bits.\<close>

definition sign_pair :: "au_crypto \<Rightarrow> priv_key \<Rightarrow> pub_key \<Rightarrow> bool" where
  "sign_pair K priv pub \<longleftrightarrow> (\<forall>md r s. ecdsa_Sign K priv md = Inr (r, s) \<longrightarrow>
     r < 2 ^ 256 \<and> s < 2 ^ 256 \<and> ecdsa_Verify (base_crypto K) pub md (int r) (int s))"

definition truncates :: "au_crypto \<Rightarrow> pub_key \<Rightarrow> bool" where
  "truncates K pub \<longleftrightarrow> (\<forall>md md' r s. take 32 md = take 32 md' \<longrightarrow>
     ecdsa_Verify (base_crypto K) pub md r s = ecdsa_Verify (base_crypto K) pub md' r s)"

text \<open>
  A tag that the scheme of replica and client signatures generates verifies with the public
  key of the pair.
\<close>

lemma public_tag_verifies:
  assumes "sign_pair K priv (EcdsaPublic c x y)" and "public_Generate K m priv = Inr tag"
  shows "public_Verify K m tag (EcdsaPublic c x y) = Inr ()"
proof -
  obtain r s where rs: "ecdsa_Sign K priv (public_digest K m) = Inr (r, s)" "tag = asn1_Marshal (r, s)"
    using assms(2) by (auto simp: public_Generate_def cipher_Sign_def split: priv_key.splits sum.splits)
  then have "asn1_Unmarshal tag = Inr ((int r, int s), [])"
    using assms(1) asn1_round_trip [of r s "[]"] by (simp add: sign_pair_def)
  with rs(1) assms(1) show ?thesis
    by (simp add: public_Verify_def cipher_Verify_def sign_pair_def)
qed

text \<open>
  C29: the signature of a request does not cover the whole digest of its operation. The scheme does
  not hash the message, and ECDSA uses the leftmost 32 bytes of what it is given: a signature for
  a request is valid for every request with the same identifier whose operation digest has the
  same first 17 bytes.
\<close>

theorem request_signature_truncated:
  assumes "truncates K pk" and "req_Sequence r = req_Sequence r'"
    and "length (H (req_Operation r)) = 32" and "length (H (req_Operation r')) = 32"
    and "take 17 (H (req_Operation r)) = take 17 (H (req_Operation r'))"
  shows "public_Verify K (authen_request H r) tag pk = public_Verify K (authen_request H r') tag pk"
proof -
  have "take 32 (public_digest K (authen_request H q)) =
      str_bytes ''REQUEST'' @ be64 (req_Sequence q) @ take 17 (H (req_Operation q))"
    if "length (H (req_Operation q)) = 32" for q
    using that by (simp add: public_digest_def authen_request_def write_request_def take_Cons')
  then have "ecdsa_Verify (base_crypto K) pk (public_digest K (authen_request H r)) =
      ecdsa_Verify (base_crypto K) pk (public_digest K (authen_request H r'))"
    using assms by (intro ext) (auto simp: truncates_def)
  then show ?thesis
    by (auto simp: public_Verify_def cipher_Verify_def split: sum.splits pub_key.splits)
qed

theorem request_signature_truncated_witness:
  "sample_hash [] \<noteq> sample_hash [1] \<and>
   public_Verify sample_au (authen_request sample_hash (NewRequest 0 1 [])) [] NoKey =
     public_Verify sample_au (authen_request sample_hash (NewRequest 0 1 [1])) [] NoKey"
proof
  show "sample_hash [] \<noteq> sample_hash [1]" by code_simp
  have "truncates sample_au NoKey" by (simp add: truncates_def sample_au_eval)
  then show "public_Verify sample_au (authen_request sample_hash (NewRequest 0 1 [])) [] NoKey =
      public_Verify sample_au (authen_request sample_hash (NewRequest 0 1 [1])) [] NoKey"
    by (rule request_signature_truncated) (simp_all add: NewRequest_def sample_hash_def)
qed



section \<open>Unique identifiers\<close>

lemma usig_Verify_cases:
  assumes "usig_Verify C m sig pk a = (a', Inr ())"
  obtains w fp epoch i where "UnmarshalBinary sig = Inr w" and "makeUSIGKeyFingerprint C pk = Inr fp"
    and "us_epoch a fp = Some epoch \<or> us_epoch a fp = None \<and> (\<exists>s. ParseCert (Cert w) = Inr (epoch, s))"
    and "MakeID C epoch pk = Inr i" and "VerifyUI C m w i = Inr ()"
    and "a' = a\<lparr>us_epoch := (us_epoch a)(fp \<mapsto> epoch)\<rparr>"
  using assms by (auto simp: usig_Verify_def split: sum.splits option.splits prod.splits)

lemma usig_Verify_error: "usig_Verify C m sig pk a = (a', Inl e) \<Longrightarrow> a' = a"
  by (auto simp: usig_Verify_def split: sum.splits option.splits prod.splits)

text \<open>
  C28: the scheme of unique identifiers binds a key to one epoch, hence to one USIG instance: an
  accepted identifier has the epoch that is recorded for the key afterwards, and an epoch that was
  recorded before, for whatever key, stays.
\<close>

theorem usig_epoch_pinned:
  assumes "pkix_ok C" and "makeUSIGKeyFingerprint C pk = Inr fp"
    and "usig_Verify C m sig pk a = (a', Inr ())"
  shows "(\<exists>w epoch s. UnmarshalBinary sig = Inr w \<and> Cert w = MakeCert epoch s \<and> us_epoch a' fp = Some epoch) \<and>
    (\<forall>fp'. us_epoch a fp' \<noteq> None \<longrightarrow> us_epoch a' fp' = us_epoch a fp')"
proof -
  obtain w epoch i where w: "UnmarshalBinary sig = Inr w"
    and e: "us_epoch a fp = Some epoch \<or> us_epoch a fp = None \<and> (\<exists>s. ParseCert (Cert w) = Inr (epoch, s))"
    and i: "MakeID C epoch pk = Inr i" and v: "VerifyUI C m w i = Inr ()"
    and a': "a' = a\<lparr>us_epoch := (us_epoch a)(fp \<mapsto> epoch)\<rparr>"
    using usig_Verify_cases [OF assms(3)] assms(2) by (metis sum.inject(2))
  have "ParseID C i = Inr (epoch, pk)"
    using parse_make_ID [OF i] assms(1) by (simp add: pkix_ok_def)
  with VerifyUI_parts [OF v] obtain s where "Cert w = MakeCert epoch s" by auto
  with w e a' show ?thesis by auto
qed

theorem usig_epoch_pinned_witness:
  "\<exists>w epoch s. UnmarshalBinary (MarshalBinary sample_ui) = Inr w \<and> Cert w = MakeCert epoch s \<and>
     us_epoch (fst (usig_Verify sample_crypto [5] (MarshalBinary sample_ui) (EcdsaPublic P256 0 0) sample_scheme))
       (replicate 8 0) = Some epoch"
proof -
  have v: "usig_Verify sample_crypto [5] (MarshalBinary sample_ui) (EcdsaPublic P256 0 0) sample_scheme =
      (sample_scheme\<lparr>us_epoch := [replicate 8 0 \<mapsto> 77]\<rparr>, Inr ())"
    by (simp add: usig_Verify_def makeUSIGKeyFingerprint_def sample_scheme_def NewSGXUSIGAuthenticationScheme_def
        MakeID_def VerifyUI_def ParseID_def VerifySignature_def sample_ui_def sample_asn1 sample_crypto_def)
  have fp: "makeUSIGKeyFingerprint sample_crypto (EcdsaPublic P256 0 0) = Inr (replicate 8 0)"
    by (simp add: makeUSIGKeyFingerprint_def sample_crypto_def)
  show ?thesis unfolding v fst_conv by (rule conjunct1 [OF usig_epoch_pinned [OF sample_pkix fp v]])
qed

text \<open>
  The tag that a replica's USIG generates is accepted by every other replica that has recorded no
  other epoch for its key.
\<close>

lemma usig_tag_verifies:
  assumes "ue_enclave (us_usig a) = Some e" and "usig_wf (us_usig a)"
    and "key_pair C sdk (usig_priv_key e) (usig_pub_key e)" and "pkix_ok C"
    and "usig_Generate C sdk m a = (a', Inr tag)"
    and "makeUSIGKeyFingerprint C (sgxEC256PubKeyToGo (usig_pub_key e)) = Inr fp"
    and "us_epoch b fp = None \<or> us_epoch b fp = Some (usig_epoch e)"
  shows "usig_Verify C m tag (sgxEC256PubKeyToGo (usig_pub_key e)) b =
    (b\<lparr>us_epoch := (us_epoch b)(fp \<mapsto> usig_epoch e)\<rparr>, Inr ())"
proof -
  obtain u w where c: "CreateUI C sdk m (us_usig a) = (u, Inr w)" and t: "tag = MarshalBinary w"
    using assms(5) by (auto simp: usig_Generate_def split: sum.splits go_error.splits prod.splits)
  have ep: "usig_epoch e = ue_epoch (us_usig a)" using assms(1,2) by (simp add: usig_wf_def)
  obtain sig where cert: "Cert w = MakeCert (usig_epoch e) sig"
    using CreateUI_cases [OF c] ep by auto
  obtain i where i: "MakeID C (usig_epoch e) (sgxEC256PubKeyToGo (usig_pub_key e)) = Inr i"
    using assms(6) by (auto simp: MakeID_def makeUSIGKeyFingerprint_def split: sum.splits)
  have "VerifyUI C m w i = Inr ()"
    using verify_created [OF assms(1-4) c] i ep by simp
  with assms(6,7) t cert i show ?thesis by (auto simp: usig_Verify_def)
qed

section \<open>The USIG of a replica\<close>

text \<open>
  The tag for a message when the SGX USIG has created \<open>k\<close> identifiers, as a function of \<open>k\<close>: what
  the configuration of a replica takes as \<open>cfg_usig\<close>.
\<close>

definition sgx_tag :: "crypto \<Rightarrow> sgx_sdk \<Rightarrow> enclave \<Rightarrow> u64 \<Rightarrow> bytes \<Rightarrow> bytes result" where
  "sgx_tag C sdk e k m =
     snd (usig_Generate C sdk m (NewSGXUSIGAuthenticationScheme
       \<lparr>ue_enclave = Some (e\<lparr>usig_counter := k + 1\<rparr>), ue_epoch = usig_epoch e\<rparr>))"



end
