(* ===== verification/Authentic.thy ===== *)
theory Authentic
  imports RequestInvariants
begin

text \<open>
  Where the effects of a replica come from. Every reply that a replica gives to a client answers a
  request that it has delivered, and every request that it holds, forwards or delivers carries a
  client signature that its Authenticator has accepted, also when the request reached it inside the
  certificates of a view change.
\<close>

section \<open>Replies answer delivered requests\<close>

definition delivered_ids :: "replica \<Rightarrow> (u32 \<times> u64) set" where
  "delivered_ids s = (\<lambda>r. (req_ClientID r, req_Sequence r)) ` set (rs_delivered s)"

definition reply_to :: "u32 \<Rightarrow> replica \<Rightarrow> reply option" where
  "reply_to cid s = lastReply (cs_reply (client_of cid (rs_clients s)))"

definition replies_inv :: "replica \<Rightarrow> bool" where
  "replies_inv s \<longleftrightarrow> set (rs_executing s) \<subseteq> delivered_ids s \<and>
     (\<forall>cid rep. reply_to cid s = Some rep \<longrightarrow> rep_ClientID rep = cid \<and> (cid, rep_Sequence rep) \<in> delivered_ids s)"

lemma replies_inv_new: "replies_inv (new_replica c)"
  by (simp add: replies_inv_def reply_to_def new_replica_def newClientState_def newReplyState_def)

interpretation rf: framed_commitments replies_inv
proof unfold_locales
  fix s i and rep :: reply assume inv: "replies_inv s" and i: "i < length (rs_executing s)"
    and x: "rs_executing s ! i = (rep_ClientID rep, rep_Sequence rep)"
  have "(rep_ClientID rep, rep_Sequence rep) \<in> delivered_ids s"
    using inv nth_mem [OF i] x by (auto simp: replies_inv_def)
  then show "replies_inv (s\<lparr>rs_executing := take i (rs_executing s) @ drop (Suc i) (rs_executing s),
      rs_clients := with_client (rep_ClientID rep) (\<lambda>k. k\<lparr>cs_reply := AddReply rep (cs_reply k)\<rparr>) (rs_clients s)\<rparr>)"
    using inv by (auto simp: replies_inv_def delivered_ids_def reply_to_def AddReply_def
        dest!: in_set_takeD in_set_dropD split: if_splits)
qed (auto simp: replies_inv_def delivered_ids_def reply_to_def split: if_splits)

interpretation ri: inert_invariant replies_inv
  by unfold_locales (rule rf.frame_collect | simp add: replies_inv_def delivered_ids_def reply_to_def)+

lemma reach_replies: "node_reach c x \<Longrightarrow> replies_inv (nd_replica x)"
  using replies_inv_new by (rule ri.reach_keeps [rotated])

section \<open>Requests are vetted\<close>

text \<open>\<open>V\<close> is a set of requests; \<open>known V\<close> says that the state holds requests of \<open>V\<close> only.\<close>

fun msg_reqs :: "message \<Rightarrow> request set" where
  "msg_reqs (MCertified x) = certified_reqs x"
| "msg_reqs (MRequest r) = {r}"
| "msg_reqs m = {}"

definition collected :: "(view_change \<Rightarrow> bool) \<Rightarrow> vc_collector \<Rightarrow> bool" where
  "collected P q \<longleftrightarrow> (\<forall>w \<in> set_option (vcc_own q) \<union> set (vcc_others q). P w)"

definition known :: "request set \<Rightarrow> replica \<Rightarrow> bool" where
  "known V s \<longleftrightarrow>
     list_inv (rs_pending s) \<and> list_inv (rs_prepared s) \<and>
     ran (map_of (rs_pending s)) \<subseteq> V \<and> ran (map_of (rs_prepared s)) \<subseteq> V \<and>
     (\<forall>m \<in> set (msgs (rs_log s)). msg_reqs m \<subseteq> V) \<and>
     collected (\<lambda>vc. vc_reqs vc \<subseteq> V) (rs_vcs s) \<and>
     set (rs_delivered s) \<subseteq> V"

lemma known_frame [simp]:
  "known V (s\<lparr>rs_clients := cl\<rparr>) = known V s" "known V (s\<lparr>rs_unicast := uc\<rparr>) = known V s"
  "known V (s\<lparr>rs_lastUI := us\<rparr>) = known V s" "known V (s\<lparr>rs_vcTimer := t\<rparr>) = known V s"
  "known V (s\<lparr>rs_requested := v\<rparr>) = known V s" "known V (s\<lparr>rs_executing := ex\<rparr>) = known V s"
  "known V (s\<lparr>rs_view := vw\<rparr>) = known V s" "known V (s\<lparr>rs_usig := n\<rparr>) = known V s"
  "known V (s\<lparr>rs_rvcs := k\<rparr>) = known V s" "known V (s\<lparr>rs_commitments := cm\<rparr>) = known V s"
  "known V (s\<lparr>rs_accepted := h\<rparr>) = known V s"
  by (simp_all add: known_def)

lemma certified_reqs_SetUI [simp]: "certified_reqs (SetUI u x) = certified_reqs x"
  by (cases "(u, x)" rule: SetUI.cases) simp_all

lemma ran_Add: "list_inv l \<Longrightarrow> ran (map_of l) \<subseteq> V \<Longrightarrow> r \<in> V \<Longrightarrow> ran (map_of (Add r l)) \<subseteq> V"
  by (auto simp: rl.find_add ran_def)

lemma ran_Remove: "list_inv l \<Longrightarrow> ran (map_of l) \<subseteq> V \<Longrightarrow> ran (map_of (Remove r l)) \<subseteq> V"
  by (auto simp: rl.find_remove ran_def)

lemmas list_laws = ran_Add ran_Remove rl.invar_add rl.invar_remove

lemma known_client: "keeps any_panic (known V) (upd_client cid f)"
  and known_seq: "keeps any_panic (known V) (on_seq cid m)"
  by (auto intro!: keeps_upd_client keeps_on_seq)

lemma known_gen:
  assumes "msg_reqs m \<subseteq> V"
  shows "keeps any_panic (known V) (handleGeneratedMessage c m)"
proof -
  have log: "keeps any_panic (known V) (modify (\<lambda>s. s\<lparr>rs_log := Append y (rs_log s)\<rparr>))" if "msg_reqs y \<subseteq> V" for y
    by (rule keeps_modify) (use that in \<open>auto simp: known_def Append_def\<close>)
  have ui: "certified_reqs y = certified_reqs x" if "assignUI c k x = Inr y" for k x y
    using that by (auto simp: assignUI_def split: sum.splits)
  show ?thesis
  proof (cases m)
    case (MCertified x)
    have "keeps any_panic (known V) (bindM (check (assignUI c k x)) (\<lambda>y. seqM (modify (\<lambda>s. s\<lparr>rs_usig := k + 1\<rparr>))
        (consumeGeneratedMessage (MCertified y))))" for k
    proof (cases "assignUI c k x")
      case (Inr y)
      have "keeps any_panic (known V) (seqM (modify (\<lambda>s. s\<lparr>rs_usig := k + 1\<rparr>)) (consumeGeneratedMessage (MCertified y)))"
        using assms MCertified ui [OF Inr] by (auto simp: consumeGeneratedMessage_def intro!: keeps_intros keeps_modify log)
      with Inr show ?thesis by (simp add: keeps_def wp_rules)
    qed (auto simp: keeps_def wp_rules assignUI_def MustUnmarshalUI_def split: sum.splits)
    with MCertified show ?thesis by (simp add: handleGeneratedMessage_def keeps_bindM [OF keeps_gets])
  qed (use log in \<open>auto simp: handleGeneratedMessage_def consumeGeneratedMessage_def
      intro!: keeps_intros keeps_check keeps_throw known_client\<close>)
qed

lemma known_apply: "req \<in> V \<Longrightarrow> keeps any_panic (known V) (applyRequest c req v)"
  unfolding applyRequest_def startReqTimer_def startPrepTimer_def
  by (intro keeps_intros known_client known_gen) (simp add: NewPrepare_def)

lemma known_request: "req \<in> V \<Longrightarrow> keeps any_panic (known V) (processRequest c req)"
  unfolding processRequest_def captureReq_def releaseReq_def split_def
  by (intro keeps_intros known_seq known_apply)
    (auto split: capture.splits intro!: keeps_intros keeps_throw keeps_modify simp: known_def list_laws)

lemma known_prepare: "req \<in> V \<Longrightarrow> keeps any_panic (known V) (prepareReq req)"
  unfolding prepareReq_def
  by (intro keeps_intros keeps_must known_seq keeps_modify) (simp add: known_def list_laws)

lemma known_execute: "req \<in> V \<Longrightarrow> keeps any_panic (known V) (executeRequest req)"
  unfolding executeRequest_def retireReq_def stopReqTimer_def
  by (intro keeps_intros keeps_must known_seq known_client keeps_modify) (simp_all add: known_def list_laws)

lemma known_collect: "certified_reqs y \<subseteq> V \<Longrightarrow> keeps any_panic (known V) (collectCommitment y)"
  by (rule collect_parts [OF known_execute _ _ _ , of V V])
    (auto simp: keeps_def wp_def on_commitments_def outcome_def split: prod.splits sum.splits go_error.splits)


section \<open>View changes carry vetted requests only\<close>

lemma known_unprepare_one: "req \<in> V \<Longrightarrow> keeps any_panic (known V) (unprepareReq req)"
  unfolding unprepareReq_def by (intro keeps_intros known_seq keeps_modify) (simp add: known_def list_laws)

lemma known_unprepare:
  assumes "iter_order (cfg_order c)"
  shows "keeps any_panic (known V) (unprepareReqs c)"
  unfolding unprepareReqs_def
proof (rule keeps_gets_bindM)
  fix s assume s: "known V s"
  then have "set (All (cfg_order c) (rs_prepared s)) \<subseteq> V" using assms by (simp add: known_def rl.set_all)
  then have "keeps any_panic (known V) (forM unprepareReq (All (cfg_order c) (rs_prepared s)))"
    by (auto intro!: keeps_forM known_unprepare_one)
  from keepsD [OF this s] show "wp (forM unprepareReq (All (cfg_order c) (rs_prepared s)))
      (\<lambda>r s'. outcome any_panic r (known V s')) s" .
qed

lemma known_pending:
  assumes "iter_order (cfg_order c)"
  shows "keeps any_panic (known V) (applyPendingReqs c v)"
  unfolding applyPendingReqs_def
proof (rule keeps_gets_bindM)
  fix s assume s: "known V s"
  then have "set (All (cfg_order c) (rs_pending s)) \<subseteq> V" using assms by (simp add: known_def rl.set_all)
  then have "keeps any_panic (known V) (forM (\<lambda>req. applyRequest c req v) (All (cfg_order c) (rs_pending s)))"
    by (auto intro!: keeps_forM known_apply)
  from keepsD [OF this s] show "wp (forM (\<lambda>req. applyRequest c req v) (All (cfg_order c) (rs_pending s)))
      (\<lambda>r s'. outcome any_panic r (known V s')) s" .
qed

lemma certified_msgs_reqs:
  assumes "\<forall>m \<in> set ms. msg_reqs m \<subseteq> V" and "x \<in> set (certified_msgs ms)"
  shows "certified_reqs x \<subseteq> V"
proof -
  have "MCertified x \<in> set ms" using assms(2) by (auto simp: certified_msgs_def split: message.splits)
  with assms(1) show ?thesis by force
qed

lemma known_rvc:
  assumes "iter_order (cfg_order c)"
  shows "keeps any_panic (known V) (processReqViewChange c rvc)"
proof -
  have "wp (startViewChange c nv cert) (\<lambda>r s'. outcome any_panic r (known V s')) s" if s: "known V s" for nv cert s
  proof -
    let ?x = "NewViewChange (cfg_id c) nv (certified_msgs (Messages (rs_log s))) cert"
    have "msg_reqs (MCertified ?x) \<subseteq> V"
      using s certified_msgs_reqs [of "msgs (rs_log s)" V]
      by (simp add: NewViewChange_def Messages_def known_def UN_subset_iff)
    then have "keeps any_panic (known V) (seqM (startVCTimer nv) (seqM (unprepareReqs c)
        (seqM (handleGeneratedMessage c (MCertified ?x)) (ret True))))"
      unfolding startVCTimer_def by (intro keeps_intros keeps_modify known_unprepare [OF assms] known_gen) simp_all
    from keepsD [OF this, of "s\<lparr>rs_view := (rs_view s)\<lparr>expectedView := nv\<rparr>, rs_log := Reset [] (rs_log s)\<rparr>"] s
    show ?thesis by (simp add: wp_startViewChange) (simp add: known_def Reset_def)
  qed
  then show ?thesis
    by (intro keepsI) (auto simp: wp_processReqViewChange split: prod.splits option.splits)
qed

lemma collectViewChange_all:
  assumes "collectViewChange i n k vc q = (q', new, cert)" and "collected P q" and "P vc"
  shows "collected P q' \<and> (\<forall>ws \<in> set_option cert. \<forall>w \<in> set ws. P w)"
proof -
  define q1 where "q1 = (if vc_NewView vc > vcc_view q then \<lparr>vcc_view = vc_NewView vc, vcc_own = None, vcc_others = []\<rparr> else q)"
  define q2 where "q2 = (if vc_ReplicaID vc = i then q1\<lparr>vcc_own := Some vc\<rparr> else q1\<lparr>vcc_others := vcc_others q1 @ [vc]\<rparr>)"
  have q1: "collected P q1" using assms(2) by (simp add: q1_def collected_def)
  then have q2: "collected P q2" using assms(3) by (auto simp: q2_def collected_def)
  then have cert: "\<forall>w \<in> set (own # vcc_others q2). P w" if "vcc_own q2 = Some own" for own
    using that by (simp add: collected_def)
  have new: "collected P \<lparr>vcc_view = v, vcc_own = None, vcc_others = []\<rparr>" for v by (simp add: collected_def)
  have "(q', new, cert) = (if vc_NewView vc < vcc_view q then (q, False, None)
      else if \<not> isPrimary (vcc_view q1) i n then (q1, False, None)
      else if vc_ReplicaID vc \<noteq> i \<and> \<not> 1 + length (vcc_others q1) < unat k then (q1, False, None)
      else case vcc_own q2 of None \<Rightarrow> (q2, True, None)
        | Some own \<Rightarrow> if 1 + length (vcc_others q2) < unat k then (q2, True, None)
            else (\<lparr>vcc_view = vcc_view q2 + 1, vcc_own = None, vcc_others = []\<rparr>, True, Some (own # vcc_others q2)))"
    unfolding assms(1) [symmetric] collectViewChange_def Let_def q2_def q1_def ..
  then show ?thesis using assms(2) q1 q2 cert new by (simp split: if_splits option.splits)
qed

lemma known_nv:
  assumes "\<forall>w \<in> set ws. vc_reqs w \<subseteq> V"
  shows "keeps any_panic (known V) (processNewViewCert c v ws)"
proof -
  have "keeps any_panic (known V) (modify (\<lambda>s. s\<lparr>rs_log := Reset [] (rs_log s)\<rparr>))"
    by (rule keeps_modify) (simp add: known_def Reset_def)
  moreover have "msg_reqs (MCertified (NewNewView (cfg_id c) v ws)) \<subseteq> V"
    using assms by (simp add: NewNewView_def UN_subset_iff)
  ultimately show ?thesis
    unfolding processNewViewCert_def split_def by (intro keeps_intros known_gen)
qed

lemma known_vc:
  assumes "vc_reqs vc \<subseteq> V"
  shows "keeps any_panic (known V) (processViewChange c vc)"
  unfolding processViewChange_def
proof (rule keeps_gets_bindM)
  fix s assume s: "known V s"
  obtain q new cert where q: "collectViewChange (cfg_id c) (cfg_n c) (viewChangeCertSize c) vc (rs_vcs s) = (q, new, cert)"
    by (metis prod_cases3)
  have "collected (\<lambda>w. vc_reqs w \<subseteq> V) (rs_vcs s)" using s by (simp add: known_def)
  note r = collectViewChange_all [OF q this assms]
  have "keeps any_panic (known V) (processNewViewCert c v ws)" if "cert = Some ws" for v ws
    by (rule known_nv) (use r that in simp)
  then have "keeps any_panic (known V) (seqM (case cert of None \<Rightarrow> ret ()
      | Some ws \<Rightarrow> processNewViewCert c (vc_NewView vc) ws) (ret new))"
    by (intro keeps_seqM keeps_ret) (simp add: keeps_ret split: option.split)
  moreover have "known V (s\<lparr>rs_vcs := q\<rparr>)" using r s by (simp add: known_def)
  ultimately have "wp (seqM (case cert of None \<Rightarrow> ret () | Some ws \<Rightarrow> processNewViewCert c (vc_NewView vc) ws) (ret new))
      (\<lambda>r s'. outcome any_panic r (known V s')) (s\<lparr>rs_vcs := q\<rparr>)" by (rule keepsD)
  then
  show "wp (case collectViewChange (cfg_id c) (cfg_n c) (viewChangeCertSize c) vc (rs_vcs s) of
      (k, new, nvCert) \<Rightarrow> seqM (modify (\<lambda>s. s\<lparr>rs_vcs := k\<rparr>))
        (seqM (case nvCert of None \<Rightarrow> ret () | Some cert \<Rightarrow> processNewViewCert c (vc_NewView vc) cert) (ret new)))
      (\<lambda>r s'. outcome any_panic r (known V s')) s"
    by (simp only: q prod.case wp_seqM [of "modify f" for f] wp_modify sum.case)
qed


section \<open>A validator that accepts vetted requests only\<close>

text \<open>
  The invariant is carried through the message handling for every validator that accepts requests
  of \<open>V\<close> only. It depends on Go's iteration over a map visiting the entries of the map.
\<close>

definition vetted :: "config \<Rightarrow> request set \<Rightarrow> request set \<Rightarrow> replica \<Rightarrow> bool" where
  "vetted c V R s \<longleftrightarrow> (iter_order (cfg_order c) \<longrightarrow> R \<subseteq> V \<and> known V s)"

lemma vettedI:
  assumes "iter_order (cfg_order c) \<Longrightarrow> R \<subseteq> V \<Longrightarrow> keeps any_panic (known V) m"
  shows "keeps any_panic (vetted c V R) m"
proof (cases "iter_order (cfg_order c) \<and> R \<subseteq> V")
  case True
  with assms show ?thesis by (simp add: vetted_def [abs_def])
next
  case False
  then show ?thesis
    by (auto simp: vetted_def [abs_def] keeps_def wp_def outcome_def split: sum.splits go_error.splits)
qed

locale vetting =
  fixes c :: config and V :: "request set" and val :: "message \<Rightarrow> unit result"
  assumes vets: "val (MRequest req) = Inr () \<Longrightarrow> req \<in> V"

sublocale vetting \<subseteq> vt: replica_invariant c any_panic "vetted c V" val
proof unfold_locales
  show "gains any_panic (vetted c V) (processRequest c req) {req} True" if "val (MRequest req) = Inr ()" for req
  proof (rule gainsI)
    fix R s s' x assume v: "vetted c V R s" and m: "processRequest c req s = (s', Inr x)"
    from keeps_run [OF vettedI [OF known_request [OF vets [OF that]]] v m] vets [OF that]
    show "vetted c V (R \<union> {req}) s' \<and> True" by (simp add: vetted_def)
  next
    fix R s s' e assume v: "vetted c V R s" and m: "processRequest c req s = (s', Inl e)"
    from keeps_run [OF vettedI [OF known_request [OF vets [OF that]]] v m]
    show "outcome any_panic (Inl e :: bool result) (vetted c V R s')" .
  qed
qed (auto intro!: vettedI known_prepare known_collect known_pending known_gen known_vc known_rvc
    keeps_intros known_client keeps_modify
    simp: vetted_def NewCommit_def stopPrepTimer_def stopVCTimer_def enter_view_def split_def split: option.splits)

text \<open>The requests whose signature verifies with the key of the client.\<close>

definition signed_request :: "config \<Rightarrow> request \<Rightarrow> bool" where
  "signed_request c r =
     cfg_verify c ClientAuthen (req_ClientID r) (authen_request (cfg_hash c) r) (req_Signature r)"

definition authentic :: "config \<Rightarrow> request set" where
  "authentic c = {r. signed_request c r}"

lemma validateRequest_signed: "validateRequest c r = Inr () \<longleftrightarrow> signed_request c r"
  by (simp add: validateRequest_def verify_request_def verify_tag_def signed_request_def)

interpretation pv: vetting c "authentic c" "validateMessage c" for c
  by unfold_locales (simp add: validateMessage_def authentic_def validateRequest_signed)

text \<open>
  Own messages are not validated. Handling one whose requests are in \<open>V\<close> is the same as handling it
  with a validator that rejects all other requests.
\<close>

definition vet :: "request set \<Rightarrow> message \<Rightarrow> unit result" where
  "vet V m = (case m of MRequest r \<Rightarrow> guard_err (r \<in> V) ''request'' | _ \<Rightarrow> Inr ())"

interpretation ov: vetting c V "vet V" for c V
  by unfold_locales (simp add: vet_def)

lemma vet_certified:
  "certified_reqs m \<subseteq> V \<Longrightarrow> handleCertified (\<lambda>_. Inr ()) c m = handleCertified (vet V) c m"
proof (induction "vet V" c m rule: handleCertified.induct)
  case (3 c r nv ms cert u)
  then have "handleCertified (\<lambda>_. Inr ()) c x = handleCertified (vet V) c x" if "x \<in> set ms" for x
    using that by auto
  then show ?case by (simp add: vet_def handle_leaf_def cong: forM_cong)
next
  case (4 c r nv cert u)
  then have "handleCertified (\<lambda>_. Inr ()) c (CViewChange vc) = handleCertified (vet V) c (CViewChange vc)"
    if "vc \<in> set cert" for vc using that by auto
  then show ?case by (simp add: vet_def cong: forM_cong)
qed (simp_all add: vet_def handle_leaf_def)

lemma vet_message: "msg_reqs m \<subseteq> V \<Longrightarrow> handleOwnMessage c m = handleMessage (vet V) c m"
  by (cases m) (simp_all add: handleOwnMessage_def handleMessage_def vet_certified handle_leaf_def vet_def)

section \<open>The replica as a whole\<close>

definition auth_node :: "config \<Rightarrow> node \<Rightarrow> bool" where
  "auth_node c x \<longleftrightarrow> vetted c (authentic c) {} (nd_replica x) \<and>
     (iter_order (cfg_order c) \<longrightarrow> (\<forall>m \<in> set (st_buf (nd_own x)). msg_reqs m \<subseteq> authentic c))"

lemma known_rvc_request: "keeps any_panic (known V) (requestViewChange c v)"
  unfolding requestViewChange_def split_def by (intro keeps_intros known_gen keeps_modify) simp_all

lemma known_timers:
  "keeps any_panic (known V) (expireRequestTimer c cid h)" "keeps any_panic (known V) (expirePrepareTimer c cid h)"
  "keeps any_panic (known V) (expireVCTimer c h)"
  unfolding expireRequestTimer_def handleReqTimeout_def expirePrepareTimer_def handlePrepTimeout_def Let_def
    expireVCTimer_def handleViewChangeTimeout_def
  by (auto split: option.splits intro!: keeps_intros known_client keeps_modify keeps_throw keeps_ignore known_rvc_request)

lemma known_finish: "keeps any_panic (known V) (finishExecution c i res)"
  unfolding finishExecution_def Let_def split_def by (intro keeps_intros keeps_modify known_gen) simp_all

lemma known_stop: "keeps any_panic (known V) stopTimers"
  unfolding stopTimers_def stopVCTimer_def by (intro keeps_intros known_client keeps_modify) simp

lemma vetted_client: "keeps any_panic (vetted c (authentic c) {}) (handleClientMessage c m)"
proof (cases m)
  case (MRequest req)
  have "keeps any_panic (vetted c (authentic c) {}) (bindM (processRequest c req) (\<lambda>new.
      bindM (replyRequest req) (\<lambda>poll. ret (new, poll))))" if "validateRequest c req = Inr ()"
    unfolding replyRequest_def
    by (intro keeps_intros keeps_check vettedI known_request) (use that in \<open>simp_all add: authentic_def validateRequest_signed\<close>)
  then show ?thesis using MRequest
    by (cases "validateRequest c req") (auto simp: handleClientMessage_def keeps_def wp_rules outcome_def
        split: go_error.splits)
qed (auto simp: handleClientMessage_def intro: keeps_error)

lemma advance_buf: "advance l st = Inr st' \<Longrightarrow> set (st_buf st') \<subseteq> set (msgs l) \<union> set (st_buf st)"
  by (auto simp: advance_def fetch_def Let_def dest: in_set_dropD split: stream_pc.splits if_splits)

lemma auth_stream:
  assumes "auth_node c x" and "stream_move x = (x', r)"
  shows "auth_node c x'"
  using assms advance_buf [of "rs_log (nd_replica x)" "nd_own x"]
  by (auto simp: auth_node_def stream_move_def vetted_def known_def split: sum.splits) blast

lemma run_on_own: "run_on m x = (x', r) \<Longrightarrow> nd_own x' = nd_own x"
  by (auto simp: run_on_def split: prod.splits sum.splits)

lemma auth_run:
  assumes "keeps any_panic (vetted c (authentic c) {}) m" and "auth_node c x" and "run_on m x = (x', r)" and "\<not> is_panic r"
  shows "auth_node c x'"
  using run_on_keeps [OF assms(1) _ assms(3,4)] run_on_own [OF assms(3)] assms(2) by (simp add: auth_node_def)

lemma auth_own:
  assumes x: "auth_node c x" and run: "own_next c x = (x', r)" and ok: "\<not> is_panic r"
  shows "auth_node c x'"
proof (cases "st_pc (nd_own x) = Sending \<and> st_buf (nd_own x) \<noteq> []")
  case True
  then obtain m rest where b: "st_buf (nd_own x) = m # rest" and pc: "st_pc (nd_own x) = Sending"
    by (cases "st_buf (nd_own x)") auto
  let ?x = "x\<lparr>nd_own := (nd_own x)\<lparr>st_buf := rest\<rparr>\<rparr>"
  have x1: "auth_node c ?x" using x b by (simp add: auth_node_def)
  have run1: "run_on (handleOwnPeerMessage c m) ?x = (x', r)" using run b pc by (simp add: own_next_def)
  have "keeps any_panic (vetted c (authentic c) {}) (handleOwnPeerMessage c m)"
  proof (cases "iter_order (cfg_order c)")
    case True
    then have "msg_reqs m \<subseteq> authentic c" using x b by (simp add: auth_node_def)
    then show ?thesis unfolding handleOwnPeerMessage_def
      by (intro keeps_must) (simp add: vet_message ov.vt.handleMessage_keeps)
  qed (rule vettedI, simp)
  from auth_run [OF this x1 run1 ok] show ?thesis .
next
  case False
  then show ?thesis using x run by (auto simp: own_next_def split: stream_pc.splits list.splits)
qed

lemma auth_step: "node_step c x e x' \<Longrightarrow> auth_node c x \<Longrightarrow> auth_node c x'"
proof (induction rule: node_step.induct)
  case (node_step e x x' r)
  note run = auth_run [OF _ node_step.prems _ node_step.hyps(2)]
  show ?case
  proof (cases e)
    case (EvPeer m)
    with run [OF pv.vt.handleMessage_keeps [OF disjI1 [OF lax_any]]] node_step show ?thesis
      by (simp add: handlePeerMessage_def)
  next
    case EvOwn
    with node_step show ?thesis by (auto intro: auth_own)
  next
    case EvStream
    with node_step show ?thesis by (auto intro: auth_stream)
  qed (use node_step.hyps(1) run [OF vetted_client] run [OF vettedI [OF known_timers(1)]]
      run [OF vettedI [OF known_timers(2)]] run [OF vettedI [OF known_timers(3)]] run [OF vettedI [OF known_finish]] run [OF vettedI [OF known_stop]] in auto)
qed

lemma auth_new: "auth_node c (new_node c)"
  by (simp add: auth_node_def new_node_def open_stream_def vetted_def known_def new_replica_def new_log_def
      collected_def) (simp add: new_list_def new_vc_collector_def list_inv_def)

lemma reach_auth: "node_reach c x \<Longrightarrow> auth_node c x"
  by (induction rule: node_reach.induct) (auto intro: auth_new auth_step)

lemma reach_authentic:
  "node_reach c x \<Longrightarrow> iter_order (cfg_order c) \<Longrightarrow> set (rs_delivered (nd_replica x)) \<subseteq> authentic c"
  using reach_auth [of c x] by (simp add: auth_node_def vetted_def known_def)

end
