(* ===== verification/RequestBuffer.thy ===== *)
theory RequestBuffer
  imports Messages
begin

text \<open>
  \<open>client/internal/requestbuffer\<close>: the buffer that holds the one request a client has in progress,
  with the replies to it. Goroutines keep hold of a request after it was removed, so requests live
  in a store and the buffer points to the current one. \<open>newAdded\<close> channels have capacity one and
  are flags here. Every operation is what runs under the lock; waiting is an answer of its own.
\<close>

section \<open>State\<close>

record entry =
  en_request :: request
  en_removed :: bool
  en_replicas :: "u32 list"
  en_msgs :: "reply list"
  en_newAdded :: bool

record buffer =
  rb_lastSeq :: u64
  rb_request :: "nat option"
  rb_entries :: "entry list"
  rb_newAdded :: "bool list"

definition new_buffer :: buffer where
  "new_buffer = \<lparr>rb_lastSeq = 0, rb_request = None, rb_entries = [], rb_newAdded = []\<rparr>"

definition new_entry :: "request \<Rightarrow> entry" where
  "new_entry msg =
     \<lparr>en_request = msg, en_removed = False, en_replicas = [], en_msgs = [], en_newAdded = False\<rparr>"

section \<open>Operations\<close>

text \<open>One pass of the loop of \<open>AddRequest\<close>: the entry to wait for, a rejection, or the new entry.\<close>

datatype added = AddWait nat | AddRejected | AddAccepted nat

definition try_AddRequest :: "request \<Rightarrow> buffer \<Rightarrow> buffer \<times> added" where
  "try_AddRequest msg rb =
     (case rb_request rb of
        Some i \<Rightarrow> (rb, AddWait i)
      | None \<Rightarrow>
          if req_Sequence msg \<le> rb_lastSeq rb then (rb, AddRejected)
          else (rb\<lparr>rb_lastSeq := req_Sequence msg, rb_request := Some (length (rb_entries rb)),
                  rb_entries := rb_entries rb @ [new_entry msg],
                  rb_newAdded := map (\<lambda>_. True) (rb_newAdded rb)\<rparr>,
                AddAccepted (length (rb_entries rb))))"

definition RemoveRequest :: "u64 \<Rightarrow> buffer \<Rightarrow> buffer" where
  "RemoveRequest seq rb =
     (case rb_request rb of
        None \<Rightarrow> rb
      | Some i \<Rightarrow>
          if req_Sequence (en_request (rb_entries rb ! i)) \<noteq> seq then rb
          else rb\<lparr>rb_entries := (rb_entries rb)[i := (rb_entries rb ! i)\<lparr>en_removed := True\<rparr>],
                  rb_request := None\<rparr>)"

text \<open>
  \<open>AddRequest\<close>; once the client is stopped (\<open>cancel\<close>), it does not wait for the request in progress
  but removes it.
\<close>

definition AddRequest :: "bool \<Rightarrow> request \<Rightarrow> buffer \<Rightarrow> buffer \<times> added" where
  "AddRequest cancel msg rb =
     (case try_AddRequest msg rb of
        (rb', AddWait i) \<Rightarrow>
          if cancel then try_AddRequest msg (RemoveRequest (rb_lastSeq rb) rb) else (rb', AddWait i)
      | r \<Rightarrow> r)"

definition addReply_entry :: "reply \<Rightarrow> entry \<Rightarrow> entry \<times> bool" where
  "addReply_entry msg e =
     (if rep_ReplicaID msg \<in> set (en_replicas e) then (e, False)
      else (e\<lparr>en_replicas := en_replicas e @ [rep_ReplicaID msg], en_msgs := en_msgs e @ [msg],
              en_newAdded := True\<rparr>, True))"

definition rb_AddReply :: "reply \<Rightarrow> buffer \<Rightarrow> buffer \<times> bool" where
  "rb_AddReply msg rb =
     (case rb_request rb of
        None \<Rightarrow> (rb, False)
      | Some i \<Rightarrow>
          if req_Sequence (en_request (rb_entries rb ! i)) \<noteq> rep_Sequence msg then (rb, False)
          else case addReply_entry msg (rb_entries rb ! i) of
                 (e, ok) \<Rightarrow> (rb\<lparr>rb_entries := (rb_entries rb)[i := e]\<rparr>, ok))"

section \<open>Invariant\<close>

definition entry_inv :: "entry \<Rightarrow> bool" where
  "entry_inv e \<longleftrightarrow> distinct (map rep_ReplicaID (en_msgs e)) \<and> en_replicas e = map rep_ReplicaID (en_msgs e) \<and>
     (\<forall>m \<in> set (en_msgs e). rep_Sequence m = req_Sequence (en_request e))"

definition buffer_inv :: "buffer \<Rightarrow> bool" where
  "buffer_inv rb \<longleftrightarrow>
     list_all entry_inv (rb_entries rb) \<and>
     sorted_wrt (<) (map (\<lambda>e. req_Sequence (en_request e)) (rb_entries rb)) \<and>
     (\<forall>e \<in> set (rb_entries rb). req_Sequence (en_request e) \<le> rb_lastSeq rb) \<and>
     (\<forall>i < length (rb_entries rb). en_removed (rb_entries rb ! i) = (rb_request rb \<noteq> Some i)) \<and>
     (\<forall>i. rb_request rb = Some i \<longrightarrow> Suc i = length (rb_entries rb) \<and>
        req_Sequence (en_request (rb_entries rb ! i)) = rb_lastSeq rb)"

lemma buffer_inv_new: "buffer_inv new_buffer"
  by (simp add: buffer_inv_def new_buffer_def)

lemma entry_inv_new: "entry_inv (new_entry msg)"
  by (simp add: entry_inv_def new_entry_def)

lemma entry_inv_addReply:
  "entry_inv e \<Longrightarrow> rep_Sequence msg = req_Sequence (en_request e) \<Longrightarrow> entry_inv (fst (addReply_entry msg e))"
  by (auto simp: entry_inv_def addReply_entry_def)

lemma addReply_entry_keeps [simp]:
  "en_request (fst (addReply_entry msg e)) = en_request e" "en_removed (fst (addReply_entry msg e)) = en_removed e"
  by (simp_all add: addReply_entry_def)

lemma try_AddRequest_inv: "buffer_inv rb \<Longrightarrow> buffer_inv (fst (try_AddRequest msg rb))"
  by (auto simp: buffer_inv_def try_AddRequest_def sorted_wrt_append entry_inv_new new_entry_def
      nth_append less_Suc_eq intro: order.strict_trans1 split: option.splits)
    (fastforce simp: entry_inv_def)+

lemma entry_inv_removed [simp]: "entry_inv (e\<lparr>en_removed := b\<rparr>) = entry_inv e" "entry_inv (e\<lparr>en_newAdded := b\<rparr>) = entry_inv e"
  by (simp_all add: entry_inv_def)

lemma current_entry:
  assumes "buffer_inv rb" and "rb_request rb = Some i"
  shows "i < length (rb_entries rb)" and "entry_inv (rb_entries rb ! i)" and "\<not> en_removed (rb_entries rb ! i)"
    and "req_Sequence (en_request (rb_entries rb ! i)) = rb_lastSeq rb"
  using assms by (auto simp: buffer_inv_def list_all_length)

lemma buffer_inv_update:
  assumes inv: "buffer_inv rb" and i: "i < length (rb_entries rb)" and e: "entry_inv e"
    and req: "en_request e = en_request (rb_entries rb ! i)" and rem: "en_removed e = (r \<noteq> Some i)"
    and r: "r = rb_request rb \<or> r = None \<and> rb_request rb = Some i"
  shows "buffer_inv (rb\<lparr>rb_entries := (rb_entries rb)[i := e], rb_request := r\<rparr>)"
proof -
  have seqs: "map (\<lambda>e. req_Sequence (en_request e)) ((rb_entries rb)[i := e]) =
      map (\<lambda>e. req_Sequence (en_request e)) (rb_entries rb)"
    using i by (simp add: map_update req list_update_same_conv)
  have "\<forall>x \<in> set ((rb_entries rb)[i := e]). entry_inv x \<and> req_Sequence (en_request x) \<le> rb_lastSeq rb"
    using inv e req i by (auto simp: buffer_inv_def list_all_iff dest!: set_update_subset_insert [THEN subsetD])
  moreover have "\<forall>j < length (rb_entries rb). en_removed ((rb_entries rb)[i := e] ! j) = (r \<noteq> Some j)"
    using inv rem r i by (auto simp: buffer_inv_def nth_list_update)
  moreover have "en_request ((rb_entries rb)[i := e] ! j) = en_request (rb_entries rb ! j)" for j
    using i req by (cases "j = i") simp_all
  ultimately show ?thesis
    using inv r by (auto simp: buffer_inv_def list_all_iff seqs dest: sym)
qed

lemma RemoveRequest_inv: "buffer_inv rb \<Longrightarrow> buffer_inv (RemoveRequest seq rb)"
proof -
  assume inv: "buffer_inv rb"
  have "buffer_inv (rb\<lparr>rb_entries := (rb_entries rb)[i := (rb_entries rb ! i)\<lparr>en_removed := True\<rparr>], rb_request := None\<rparr>)"
    if "rb_request rb = Some i" for i
    using current_entry [OF inv that] that by (intro buffer_inv_update [OF inv]) auto
  with inv show ?thesis by (auto simp: RemoveRequest_def split: option.splits)
qed

lemma rb_AddReply_inv: "buffer_inv rb \<Longrightarrow> buffer_inv (fst (rb_AddReply msg rb))"
proof -
  assume inv: "buffer_inv rb"
  have "buffer_inv (rb\<lparr>rb_entries := (rb_entries rb)[i := fst (addReply_entry msg (rb_entries rb ! i))]\<rparr>)"
    if "rb_request rb = Some i" "req_Sequence (en_request (rb_entries rb ! i)) = rep_Sequence msg" for i
    using current_entry [OF inv that(1)] that
      buffer_inv_update [OF inv, of i "fst (addReply_entry msg (rb_entries rb ! i))" "rb_request rb"]
    by (cases rb) (simp add: entry_inv_addReply)
  with inv show ?thesis by (auto simp: rb_AddReply_def split: option.splits prod.splits)
qed

lemma AddRequest_inv: "buffer_inv rb \<Longrightarrow> buffer_inv (fst (AddRequest cancel msg rb))"
  using try_AddRequest_inv [of rb msg] try_AddRequest_inv [OF RemoveRequest_inv, of rb msg "rb_lastSeq rb"]
  by (auto simp: AddRequest_def split: prod.splits added.splits)

lemma RemoveRequest_last: "buffer_inv rb \<Longrightarrow> rb_request (RemoveRequest (rb_lastSeq rb) rb) = None"
  by (auto simp: RemoveRequest_def buffer_inv_def split: option.splits)

section \<open>Streams of requests\<close>

text \<open>
  \<open>supplyRequests\<close>: a goroutine per replica that sends every request it sees. \<open>RTop\<close> is the head of
  its loop, \<open>RSending i\<close> the first \<open>select\<close>, \<open>RWaiting\<close> the second one. Stream \<open>k\<close> waits for
  flag \<open>k\<close> of the buffer. \<open>rq_sent\<close> records what was sent.
\<close>

datatype rstream_pc = RTop | RSending nat | RWaiting | RClosed

record rstream =
  rq_pc :: rstream_pc
  rq_lastSeq :: u64
  rq_sent :: "request list"

record rstream_sys =
  ss_buf :: buffer
  ss_streams :: "rstream list"

abbreviation seq_at :: "buffer \<Rightarrow> nat \<Rightarrow> u64" where
  "seq_at rb i \<equiv> req_Sequence (en_request (rb_entries rb ! i))"

definition stream_top :: "buffer \<Rightarrow> rstream \<Rightarrow> rstream" where
  "stream_top rb st =
     (case rb_request rb of
        Some i \<Rightarrow> if seq_at rb i > rq_lastSeq st then st\<lparr>rq_pc := RSending i\<rparr> else st\<lparr>rq_pc := RWaiting\<rparr>
      | None \<Rightarrow> st\<lparr>rq_pc := RWaiting\<rparr>)"

inductive rstream_step :: "rstream_sys \<Rightarrow> rstream_sys \<Rightarrow> bool" where
  rs_open: "rstream_step x (x\<lparr>ss_buf := (ss_buf x)\<lparr>rb_newAdded := rb_newAdded (ss_buf x) @ [False]\<rparr>,
      ss_streams := ss_streams x @ [\<lparr>rq_pc = RTop, rq_lastSeq = 0, rq_sent = []\<rparr>]\<rparr>)"
| rs_top: "k < length (ss_streams x) \<Longrightarrow> rq_pc (ss_streams x ! k) = RTop \<Longrightarrow>
    rstream_step x (x\<lparr>ss_streams := (ss_streams x)[k := stream_top (ss_buf x) (ss_streams x ! k)]\<rparr>)"
| rs_send: "k < length (ss_streams x) \<Longrightarrow> ss_streams x ! k = st \<Longrightarrow> rq_pc st = RSending i \<Longrightarrow>
    rstream_step x (x\<lparr>ss_streams := (ss_streams x)[k := st\<lparr>rq_pc := RWaiting, rq_lastSeq := seq_at (ss_buf x) i,
      rq_sent := rq_sent st @ [en_request (rb_entries (ss_buf x) ! i)]\<rparr>]\<rparr>)"
| rs_removed: "k < length (ss_streams x) \<Longrightarrow> ss_streams x ! k = st \<Longrightarrow> rq_pc st = RSending i \<Longrightarrow>
    en_removed (rb_entries (ss_buf x) ! i) \<Longrightarrow>
    rstream_step x (x\<lparr>ss_streams := (ss_streams x)[k := st\<lparr>rq_pc := RWaiting\<rparr>]\<rparr>)"
| rs_wake: "k < length (ss_streams x) \<Longrightarrow> ss_streams x ! k = st \<Longrightarrow> rq_pc st = RWaiting \<Longrightarrow>
    rb_newAdded (ss_buf x) ! k \<Longrightarrow>
    rstream_step x (x\<lparr>ss_buf := (ss_buf x)\<lparr>rb_newAdded := (rb_newAdded (ss_buf x))[k := False]\<rparr>,
      ss_streams := (ss_streams x)[k := st\<lparr>rq_pc := RTop\<rparr>]\<rparr>)"
| rs_cancel: "k < length (ss_streams x) \<Longrightarrow> ss_streams x ! k = st \<Longrightarrow> rq_pc st \<noteq> RTop \<Longrightarrow>
    rstream_step x (x\<lparr>ss_streams := (ss_streams x)[k := st\<lparr>rq_pc := RClosed\<rparr>]\<rparr>)"
| rs_add: "rstream_step x (x\<lparr>ss_buf := fst (AddRequest cancel msg (ss_buf x))\<rparr>)"
| rs_reply: "rstream_step x (x\<lparr>ss_buf := fst (rb_AddReply rep (ss_buf x))\<rparr>)"
| rs_remove: "rstream_step x (x\<lparr>ss_buf := RemoveRequest seq (ss_buf x)\<rparr>)"

inductive rstream_reach :: "rstream_sys \<Rightarrow> bool" where
  rs_init: "rstream_reach \<lparr>ss_buf = new_buffer, ss_streams = []\<rparr>"
| rs_step: "rstream_reach x \<Longrightarrow> rstream_step x y \<Longrightarrow> rstream_reach y"

definition unsent :: "buffer \<Rightarrow> rstream \<Rightarrow> bool" where
  "unsent rb st = (case rb_request rb of None \<Rightarrow> False | Some i \<Rightarrow> rq_lastSeq st < seq_at rb i)"

definition one_stream :: "buffer \<Rightarrow> bool \<Rightarrow> rstream \<Rightarrow> bool" where
  "one_stream rb flag st \<longleftrightarrow>
     sorted_wrt (<) (map req_Sequence (rq_sent st)) \<and>
     (\<forall>r \<in> set (rq_sent st). req_Sequence r \<le> rq_lastSeq st \<and> r \<in> en_request ` set (rb_entries rb)) \<and>
     rq_lastSeq st \<le> rb_lastSeq rb \<and>
     (case rq_pc st of
        RWaiting \<Rightarrow> unsent rb st \<longrightarrow> flag
      | RSending i \<Rightarrow> i < length (rb_entries rb) \<and> rq_lastSeq st < seq_at rb i \<and> (rb_request rb = Some i \<or> rb_request rb = None \<or> flag)
      | _ \<Rightarrow> True)"

definition streams_inv :: "rstream_sys \<Rightarrow> bool" where
  "streams_inv x \<longleftrightarrow> buffer_inv (ss_buf x) \<and> length (rb_newAdded (ss_buf x)) = length (ss_streams x) \<and>
     (\<forall>k < length (ss_streams x). one_stream (ss_buf x) (rb_newAdded (ss_buf x) ! k) (ss_streams x ! k))"

text \<open>Operations on the buffer keep every stream in order: requests stay in the store, and only a new one changes the current one.\<close>

definition grows :: "buffer \<Rightarrow> buffer \<Rightarrow> bool" where
  "grows rb rb' \<longleftrightarrow> (\<exists>es. map en_request (rb_entries rb') = map en_request (rb_entries rb) @ es) \<and>
     rb_lastSeq rb \<le> rb_lastSeq rb' \<and> length (rb_newAdded rb') = length (rb_newAdded rb) \<and>
     (rb_request rb' = None \<and> rb_newAdded rb' = rb_newAdded rb \<or>
      rb_request rb' = rb_request rb \<and> rb_newAdded rb' = rb_newAdded rb \<or>
      (\<forall>k < length (rb_newAdded rb'). rb_newAdded rb' ! k))"

lemma grows_seq:
  assumes "grows rb rb'" and "i < length (rb_entries rb)"
  shows "i < length (rb_entries rb')" and "en_request (rb_entries rb' ! i) = en_request (rb_entries rb ! i)"
proof -
  obtain es where m: "map en_request (rb_entries rb') = map en_request (rb_entries rb) @ es"
    using assms(1) by (auto simp: grows_def)
  from arg_cong [OF this, of length] assms(2) show l: "i < length (rb_entries rb')" by simp
  from arg_cong [OF m, of "\<lambda>xs. xs ! i"] l assms(2)
  show "en_request (rb_entries rb' ! i) = en_request (rb_entries rb ! i)" by (simp add: nth_append)
qed

lemma same_requests: "en_request e = en_request (es ! i) \<Longrightarrow> map en_request (es[i := e]) = map en_request es"
  by (cases "i < length es") (simp_all add: map_update list_update_same_conv list_update_beyond)

lemma grows_RemoveRequest: "grows rb (RemoveRequest seq rb)"
  by (auto simp: grows_def RemoveRequest_def same_requests split: option.splits)

lemma grows_rb_AddReply: "grows rb (fst (rb_AddReply m rb))"
  using addReply_entry_keeps(1) [of m]
  by (auto simp: grows_def rb_AddReply_def same_requests split_beta split: option.splits)

lemma grows_try: "grows rb (fst (try_AddRequest m rb))"
  by (auto simp: grows_def try_AddRequest_def split: option.splits)


lemma grows_AddRequest: "grows rb (fst (AddRequest cancel m rb))"
  by (auto simp: AddRequest_def RemoveRequest_def try_AddRequest_def grows_def same_requests
      split: option.splits added.splits prod.splits)

lemma one_stream_grows:
  assumes "buffer_inv rb" and "one_stream rb (rb_newAdded rb ! k) st" and "grows rb rb'" and "k < length (rb_newAdded rb)"
  shows "one_stream rb' (rb_newAdded rb' ! k) st"
proof -
  note g = assms(3) [unfolded grows_def]
  have r: "en_request ` set (rb_entries rb) \<subseteq> en_request ` set (rb_entries rb')"
    using g by (metis Un_upper1 image_set set_append)
  have cur: "rb_newAdded rb' ! k \<or> rb_newAdded rb' ! k = rb_newAdded rb ! k \<and> (rb_request rb' = None \<or> rb_request rb' = rb_request rb)"
    using g assms(4) by auto
  have q: "seq_at rb' i = seq_at rb i" "i < length (rb_entries rb')" if "i < length (rb_entries rb)" for i
    using grows_seq [OF assms(3) that] by simp_all
  have wait: "rb_newAdded rb' ! k" if "unsent rb' st" "unsent rb st \<longrightarrow> rb_newAdded rb ! k"
    using cur that q current_entry(1) [OF assms(1)] by (auto simp: unsent_def split: option.splits)
  have "rq_lastSeq st \<le> rb_lastSeq rb'" using assms(2) g by (auto simp: one_stream_def)
  with assms(2) r cur q wait show ?thesis
    unfolding one_stream_def by (cases "rq_pc st") auto
qed

lemma streams_buffer:
  assumes "streams_inv x" and "grows (ss_buf x) rb" and "buffer_inv rb"
  shows "streams_inv (x\<lparr>ss_buf := rb\<rparr>)"
  using assms one_stream_grows [of "ss_buf x" _ _ rb] by (auto simp: streams_inv_def) (simp_all add: grows_def)

lemma streams_local:
  assumes "streams_inv x" and "k < length (ss_streams x)" and "one_stream (ss_buf x) (rb_newAdded (ss_buf x) ! k) st"
  shows "streams_inv (x\<lparr>ss_streams := (ss_streams x)[k := st]\<rparr>)"
  using assms by (auto simp: streams_inv_def nth_list_update)

lemma sent_one:
  assumes "buffer_inv rb" and "one_stream rb flag st" and "rq_pc st = RSending i"
  shows "one_stream rb flag (st\<lparr>rq_pc := RWaiting, rq_lastSeq := seq_at rb i, rq_sent := rq_sent st @ [en_request (rb_entries rb ! i)]\<rparr>)"
proof -
  have i: "i < length (rb_entries rb)" "rq_lastSeq st < seq_at rb i" "rb_request rb = Some i \<or> rb_request rb = None \<or> flag"
    using assms(2,3) by (auto simp: one_stream_def)
  have "\<forall>r \<in> set (rq_sent st). req_Sequence r < seq_at rb i"
    using assms(2) i(2) by (auto simp: one_stream_def)
  moreover have "seq_at rb i \<le> rb_lastSeq rb" using assms(1) i(1) by (auto simp: buffer_inv_def)
  ultimately show ?thesis
    using assms(2) i by (auto simp: one_stream_def unsent_def sorted_wrt_append less_imp_le)
qed

lemma flags_only [simp]:
  "buffer_inv (rb\<lparr>rb_newAdded := fs\<rparr>) = buffer_inv rb" "one_stream (rb\<lparr>rb_newAdded := fs\<rparr>) flag st = one_stream rb flag st"
  by (simp add: buffer_inv_def) (cases "rq_pc st"; cases "rb_request rb"; simp add: one_stream_def unsent_def)

lemma reach_streams: "rstream_reach x \<Longrightarrow> streams_inv x"
proof (induction rule: rstream_reach.induct)
  case rs_init
  show ?case by (simp add: streams_inv_def buffer_inv_new) (simp add: new_buffer_def)
next
  case (rs_step x y)
  have inv: "buffer_inv (ss_buf x)" and one: "one_stream (ss_buf x) (rb_newAdded (ss_buf x) ! k) (ss_streams x ! k)"
    if "k < length (ss_streams x)" for k
    using rs_step.IH that by (auto simp: streams_inv_def)
  have binv: "buffer_inv (ss_buf x)" using rs_step.IH by (simp add: streams_inv_def)
  from rs_step.hyps(2) show ?case
  proof cases
    case rs_open
    have "one_stream (ss_buf x) False \<lparr>rq_pc = RTop, rq_lastSeq = 0, rq_sent = []\<rparr>" by (simp add: one_stream_def)
    with rs_open show ?thesis using rs_step.IH by (auto simp: streams_inv_def nth_append less_Suc_eq)
  next
    case (rs_top k)
    then show ?thesis using one [of k] current_entry(1) [OF binv]
      by (auto intro!: streams_local [OF rs_step.IH] simp: stream_top_def one_stream_def unsent_def split: option.splits)
  next
    case (rs_send k st i)
    then show ?thesis using one [of k] sent_one [OF binv] by (auto intro!: streams_local [OF rs_step.IH])
  next
    case (rs_removed k st i)
    then show ?thesis using one [of k] current_entry(3) [OF binv]
      by (auto intro!: streams_local [OF rs_step.IH] simp: one_stream_def unsent_def split: option.splits)
  next
    case (rs_wake k st)
    have "one_stream (ss_buf x) False (st\<lparr>rq_pc := RTop\<rparr>)" using one [of k] rs_wake by (simp add: one_stream_def)
    with rs_wake show ?thesis using rs_step.IH by (auto simp: streams_inv_def nth_list_update)
  next
    case (rs_cancel k st)
    then show ?thesis using one [of k] by (auto intro!: streams_local [OF rs_step.IH] simp: one_stream_def)
  qed (auto intro!: streams_buffer [OF rs_step.IH] grows_AddRequest grows_rb_AddReply grows_RemoveRequest
      AddRequest_inv rb_AddReply_inv RemoveRequest_inv binv)
qed

section \<open>The stream of replies\<close>

text \<open>
  \<open>replySet.supplyReplies\<close>: the goroutine that hands the replies to a request to their collector.
  \<open>SSending\<close> is the inner loop with the replies it has still to send; with none left, it is the
  second \<open>select\<close>. \<open>sp_out\<close> records what was sent.
\<close>

datatype supply_pc = STop | SSending "reply list" | SClosed

record reply_supply =
  sp_pc :: supply_pc
  sp_next :: nat
  sp_out :: "reply list"

record supply_sys =
  sy_entry :: entry
  sy_supply :: reply_supply

inductive supply_step :: "supply_sys \<Rightarrow> supply_sys \<Rightarrow> bool" where
  sp_fetch: "sp_pc (sy_supply x) = STop \<Longrightarrow>
    supply_step x (x\<lparr>sy_supply := (sy_supply x)\<lparr>sp_pc := SSending (drop (sp_next (sy_supply x)) (en_msgs (sy_entry x))),
      sp_next := length (en_msgs (sy_entry x))\<rparr>\<rparr>)"
| sp_send: "sp_pc (sy_supply x) = SSending (m # ms) \<Longrightarrow>
    supply_step x (x\<lparr>sy_supply := (sy_supply x)\<lparr>sp_pc := SSending ms, sp_out := sp_out (sy_supply x) @ [m]\<rparr>\<rparr>)"
| sp_wake: "sp_pc (sy_supply x) = SSending [] \<Longrightarrow> en_newAdded (sy_entry x) \<Longrightarrow>
    supply_step x (x\<lparr>sy_entry := (sy_entry x)\<lparr>en_newAdded := False\<rparr>, sy_supply := (sy_supply x)\<lparr>sp_pc := STop\<rparr>\<rparr>)"
| sp_cancel: "sp_pc (sy_supply x) = SSending ms \<Longrightarrow>
    supply_step x (x\<lparr>sy_supply := (sy_supply x)\<lparr>sp_pc := SClosed\<rparr>\<rparr>)"
| sp_add: "rep_Sequence m = req_Sequence (en_request (sy_entry x)) \<Longrightarrow>
    supply_step x (x\<lparr>sy_entry := fst (addReply_entry m (sy_entry x))\<rparr>)"

inductive supply_reach :: "request \<Rightarrow> supply_sys \<Rightarrow> bool" for req where
  sp_init: "supply_reach req \<lparr>sy_entry = new_entry req, sy_supply = \<lparr>sp_pc = STop, sp_next = 0, sp_out = []\<rparr>\<rparr>"
| sp_next: "supply_reach req x \<Longrightarrow> supply_step x y \<Longrightarrow> supply_reach req y"

definition supply_inv :: "supply_sys \<Rightarrow> bool" where
  "supply_inv x \<longleftrightarrow> entry_inv (sy_entry x) \<and>
     (let msgs = en_msgs (sy_entry x); next = sp_next (sy_supply x); out = sp_out (sy_supply x)
      in next \<le> length msgs \<and>
         (case sp_pc (sy_supply x) of
            STop \<Rightarrow> out = take next msgs
          | SSending ms \<Rightarrow> out @ ms = take next msgs \<and> (next < length msgs \<longrightarrow> en_newAdded (sy_entry x))
          | SClosed \<Rightarrow> \<exists>ms. out @ ms = take next msgs))"

lemma addReply_entry_msgs:
  "\<exists>ms. en_msgs (fst (addReply_entry m e)) = en_msgs e @ ms \<and> (ms \<noteq> [] \<longrightarrow> en_newAdded (fst (addReply_entry m e))) \<and>
     (en_newAdded e \<longrightarrow> en_newAdded (fst (addReply_entry m e)))"
  by (auto simp: addReply_entry_def)

lemma reach_supply: "supply_reach req x \<Longrightarrow> supply_inv x"
proof (induction rule: supply_reach.induct)
  case sp_init
  show ?case by (simp add: supply_inv_def entry_inv_new)
next
  case (sp_next x y)
  from sp_next.hyps(2) show ?case
  proof cases
    case sp_fetch
    with sp_next.IH show ?thesis by (auto simp: supply_inv_def Let_def)
  next
    case (sp_send m ms)
    with sp_next.IH show ?thesis by (auto simp: supply_inv_def Let_def)
  next
    case sp_wake
    with sp_next.IH show ?thesis by (auto simp: supply_inv_def Let_def)
  next
    case (sp_cancel ms)
    with sp_next.IH show ?thesis by (auto simp: supply_inv_def Let_def)
  next
    case (sp_add m)
    obtain ms where "en_msgs (fst (addReply_entry m (sy_entry x))) = en_msgs (sy_entry x) @ ms"
      "ms \<noteq> [] \<longrightarrow> en_newAdded (fst (addReply_entry m (sy_entry x)))"
      "en_newAdded (sy_entry x) \<longrightarrow> en_newAdded (fst (addReply_entry m (sy_entry x)))"
      using addReply_entry_msgs [of m "sy_entry x"] by blast
    with sp_next.IH sp_add show ?thesis
      by (cases "ms = []") (auto simp: supply_inv_def Let_def entry_inv_addReply split: supply_pc.splits)
  qed
qed

section \<open>The interface to the client\<close>

definition rb_asked :: "buffer \<Rightarrow> request list" where
  "rb_asked rb = map en_request (rb_entries rb)"

definition rb_answers :: "buffer \<Rightarrow> nat \<Rightarrow> reply list" where
  "rb_answers rb i = en_msgs (rb_entries rb ! i)"

text \<open>
  What the client relies on: the replies to a request are from distinct replicas and for its
  identifier, and every operation only appends to them.
\<close>

locale reply_store =
  fixes good :: "'b \<Rightarrow> bool" and put :: "bool \<Rightarrow> request \<Rightarrow> 'b \<Rightarrow> 'b" and answer :: "reply \<Rightarrow> 'b \<Rightarrow> 'b"
    and retract :: "u64 \<Rightarrow> 'b \<Rightarrow> 'b" and asked :: "'b \<Rightarrow> request list" and answers :: "'b \<Rightarrow> nat \<Rightarrow> reply list"
  assumes good_ops: "good b \<Longrightarrow> good (put s r b)" "good b \<Longrightarrow> good (answer m b)" "good b \<Longrightarrow> good (retract q b)"
    and answers_distinct: "good b \<Longrightarrow> i < length (asked b) \<Longrightarrow> distinct (map rep_ReplicaID (answers b i))"
    and answers_match: "good b \<Longrightarrow> i < length (asked b) \<Longrightarrow> m \<in> set (answers b i) \<Longrightarrow> rep_Sequence m = req_Sequence (asked b ! i)"
    and asked_put: "\<exists>rs. asked (put s r b) = asked b @ rs"
    and asked_kept: "asked (answer m b) = asked b" "asked (retract q b) = asked b"
    and answers_put: "i < length (asked b) \<Longrightarrow> answers (put s r b) i = answers b i"
    and answers_new: "i < length (asked (put s r b)) \<Longrightarrow> \<not> i < length (asked b) \<Longrightarrow> answers (put s r b) i = []"
    and answers_retract: "i < length (asked b) \<Longrightarrow> answers (retract q b) i = answers b i"
    and answers_answer: "good b \<Longrightarrow> answers (answer m b) i = answers b i \<or> answers (answer m b) i = answers b i @ [m]"

lemma rb_asked_eq: "rb_asked (RemoveRequest q rb) = rb_asked rb" "rb_asked (fst (rb_AddReply m rb)) = rb_asked rb"
  using addReply_entry_keeps(1) [of m]
  by (auto simp: rb_asked_def RemoveRequest_def rb_AddReply_def same_requests split_beta split: option.splits)

lemma rb_answers_RemoveRequest: "i < length (rb_asked rb) \<Longrightarrow> rb_answers (RemoveRequest q rb) i = rb_answers rb i"
  by (cases "rb_request rb = Some i") (auto simp: rb_answers_def rb_asked_def RemoveRequest_def split: option.splits)

lemma rb_try_put:
  "\<exists>rs. rb_asked (fst (try_AddRequest r rb)) = rb_asked rb @ rs"
  "i < length (rb_asked rb) \<Longrightarrow> rb_answers (fst (try_AddRequest r rb)) i = rb_answers rb i"
  "i < length (rb_asked (fst (try_AddRequest r rb))) \<Longrightarrow> \<not> i < length (rb_asked rb) \<Longrightarrow>
     rb_answers (fst (try_AddRequest r rb)) i = []"
  by (auto simp: rb_asked_def rb_answers_def try_AddRequest_def nth_append new_entry_def split: option.splits)

lemma AddRequest_try:
  "fst (AddRequest s r rb) = fst (try_AddRequest r rb) \<or>
   fst (AddRequest s r rb) = fst (try_AddRequest r (RemoveRequest (rb_lastSeq rb) rb))"
  by (auto simp: AddRequest_def split: prod.splits added.splits)

interpretation rb: reply_store buffer_inv "\<lambda>s r b. fst (AddRequest s r b)" "\<lambda>m b. fst (rb_AddReply m b)"
  RemoveRequest rb_asked rb_answers
proof unfold_locales
  fix b i m s r q
  show "buffer_inv b \<Longrightarrow> buffer_inv (fst (AddRequest s r b))" by (rule AddRequest_inv)
  show "buffer_inv b \<Longrightarrow> buffer_inv (fst (rb_AddReply m b))" by (rule rb_AddReply_inv)
  show "buffer_inv b \<Longrightarrow> buffer_inv (RemoveRequest q b)" by (rule RemoveRequest_inv)
  show "buffer_inv b \<Longrightarrow> i < length (rb_asked b) \<Longrightarrow> distinct (map rep_ReplicaID (rb_answers b i))"
    and "buffer_inv b \<Longrightarrow> i < length (rb_asked b) \<Longrightarrow> m \<in> set (rb_answers b i) \<Longrightarrow>
      rep_Sequence m = req_Sequence (rb_asked b ! i)"
    by (auto simp: rb_asked_def rb_answers_def buffer_inv_def list_all_length entry_inv_def)
  show "rb_asked (fst (rb_AddReply m b)) = rb_asked b" "rb_asked (RemoveRequest q b) = rb_asked b"
    by (rule rb_asked_eq)+
  show "i < length (rb_asked b) \<Longrightarrow> rb_answers (RemoveRequest q b) i = rb_answers b i"
    by (rule rb_answers_RemoveRequest)
  show "\<exists>rs. rb_asked (fst (AddRequest s r b)) = rb_asked b @ rs"
    and "i < length (rb_asked b) \<Longrightarrow> rb_answers (fst (AddRequest s r b)) i = rb_answers b i"
    and "i < length (rb_asked (fst (AddRequest s r b))) \<Longrightarrow> \<not> i < length (rb_asked b) \<Longrightarrow>
      rb_answers (fst (AddRequest s r b)) i = []"
    using AddRequest_try [of s r b] rb_try_put [where r = r] by (metis rb_asked_eq(1) rb_answers_RemoveRequest)+
  show "buffer_inv b \<Longrightarrow> rb_answers (fst (rb_AddReply m b)) i = rb_answers b i \<or>
      rb_answers (fst (rb_AddReply m b)) i = rb_answers b i @ [m]"
    by (auto simp: rb_answers_def rb_AddReply_def addReply_entry_def nth_list_update current_entry
        split: option.splits if_splits)
qed

section \<open>Properties\<close>

text \<open>
  Every stream of requests sends requests that were added, each at most once and with increasing
  identifiers; and no wake-up is lost: a stream that waits while the current request is unsent
  has been notified. The operations on the buffer and on any number of streams interleave freely.
\<close>

lemma request_streams:
  assumes "rstream_reach x" and "k < length (ss_streams x)"
  defines "st \<equiv> ss_streams x ! k"
  shows "sorted_wrt (<) (map req_Sequence (rq_sent st)) \<and>
    set (rq_sent st) \<subseteq> en_request ` set (rb_entries (ss_buf x)) \<and>
    (rq_pc st = RWaiting \<and> unsent (ss_buf x) st \<longrightarrow> rb_newAdded (ss_buf x) ! k)"
  using reach_streams [OF assms(1)] assms(2) by (auto simp: streams_inv_def one_stream_def st_def)

text \<open>
  The collector of a request gets the replies in the order in which they were added, from
  distinct replicas and for the identifier of the request; and no wake-up is lost.
\<close>

lemma reply_stream:
  assumes "supply_reach req x"
  defines "out \<equiv> sp_out (sy_supply x)"
  shows "(\<exists>rest. en_msgs (sy_entry x) = out @ rest) \<and> distinct (map rep_ReplicaID out) \<and>
    (\<forall>m \<in> set out. rep_Sequence m = req_Sequence (en_request (sy_entry x))) \<and>
    (sp_pc (sy_supply x) = SSending [] \<and> out \<noteq> en_msgs (sy_entry x) \<longrightarrow> en_newAdded (sy_entry x))"
proof -
  have inv: "supply_inv x" by (rule reach_supply [OF assms(1)])
  then obtain ms where o: "out @ ms = take (sp_next (sy_supply x)) (en_msgs (sy_entry x))"
    by (auto simp: supply_inv_def Let_def out_def split: supply_pc.splits)
  then have rest: "en_msgs (sy_entry x) = out @ (ms @ drop (sp_next (sy_supply x)) (en_msgs (sy_entry x)))"
    by (metis append.assoc append_take_drop_id)
  then have "set out \<subseteq> set (en_msgs (sy_entry x))" "distinct (map rep_ReplicaID out)"
    using inv by (metis Un_upper1 set_append, metis distinct_append entry_inv_def map_append supply_inv_def)
  with inv rest show ?thesis
    by (auto simp: supply_inv_def entry_inv_def Let_def out_def)
qed

text \<open>
  After the client was stopped, adding a request never waits: the request in progress is
  removed, and the new one is taken or rejected at once.
\<close>

lemma stopped_never_waits:
  assumes "rstream_reach x"
  shows "snd (AddRequest True msg (ss_buf x)) \<noteq> AddWait i"
proof -
  have "buffer_inv (ss_buf x)" using reach_streams [OF assms] by (simp add: streams_inv_def)
  from RemoveRequest_last [OF this] show ?thesis
    by (auto simp: AddRequest_def try_AddRequest_def split: option.splits)
qed

end
