(* ===== verification/Protobuf.thy ===== *)
theory Protobuf
  imports Messages
begin

text \<open>
  Packages \<open>messages/protobuf\<close> and \<open>messages/protobuf/pb\<close>: the message objects that implement the
  interfaces of \<open>messages\<close>, and their conversion from and to Protocol Buffers structures. An object
  keeps the structure it is marshalled from (\<open>pbMsg\<close>) beside the decoded parts, so the two have to
  agree; \<open>view_of\<close> maps an object to the message that its accessors show. \<open>proto.Marshal\<close> and
  \<open>proto.Unmarshal\<close> of the Protocol Buffers library are parameters.
\<close>

section \<open>Protocol Buffers structures\<close>

text \<open>
  The structures declared in \<open>messages.proto\<close>. A singular message field is a pointer, which is
  nil when the field is absent; \<open>Message_nil\<close> is a wrapper in which no alternative is set.
\<close>

record pb_hello =
  pb_hello_ReplicaId :: u32

record pb_request =
  pb_req_ClientId :: u32
  pb_req_Seq :: u64
  pb_req_Operation :: bytes
  pb_req_Signature :: bytes

record pb_reply =
  pb_rep_ReplicaId :: u32
  pb_rep_ClientId :: u32
  pb_rep_Seq :: u64
  pb_rep_Result :: bytes
  pb_rep_Signature :: bytes

record pb_prepare =
  pb_prep_ReplicaId :: u32
  pb_prep_View :: u64
  pb_prep_Request :: "pb_request option"
  pb_prep_Ui :: bytes

record pb_rvc =
  pb_rvc_ReplicaId :: u32
  pb_rvc_NewView :: u64
  pb_rvc_Signature :: bytes

datatype pb_message =
    Message_Hello pb_hello
  | Message_Request "pb_request option"
  | Message_Reply pb_reply
  | Message_Prepare pb_prepare
  | Message_Commit pb_commit
  | Message_ReqViewChange pb_rvc
  | Message_ViewChange pb_view_change
  | Message_NewView pb_new_view
  | Message_nil
and pb_commit =
    PbCommit (pb_comm_ReplicaId: u32) (pb_comm_Proposal: "pb_message option") (pb_comm_Ui: bytes)
and pb_view_change =
    PbViewChange (pb_vc_ReplicaId: u32) (pb_vc_NewView: u64) (pb_vc_Log: "pb_message list")
      (pb_vc_VcCert: "pb_rvc list") (pb_vc_Ui: bytes)
and pb_new_view =
    PbNewView (pb_nv_ReplicaId: u32) (pb_nv_NewView: u64) (pb_nv_NvCert: "pb_view_change list")
      (pb_nv_Ui: bytes)

text \<open>A \<open>proto.Message\<close> value, by its dynamic type.\<close>

datatype proto_message =
    PHello pb_hello
  | PRequest "pb_request option"
  | PReply pb_reply
  | PPrepare pb_prepare
  | PCommit pb_commit
  | PReqViewChange pb_rvc
  | PViewChange pb_view_change
  | PNewView pb_new_view

fun WrapMessage :: "proto_message \<Rightarrow> pb_message" where
  "WrapMessage (PHello m) = Message_Hello m"
| "WrapMessage (PRequest m) = Message_Request m"
| "WrapMessage (PReply m) = Message_Reply m"
| "WrapMessage (PPrepare m) = Message_Prepare m"
| "WrapMessage (PCommit m) = Message_Commit m"
| "WrapMessage (PReqViewChange m) = Message_ReqViewChange m"
| "WrapMessage (PViewChange m) = Message_ViewChange m"
| "WrapMessage (PNewView m) = Message_NewView m"

section \<open>Structures of messages of any implementation\<close>

text \<open>\<open>pb/utils.go\<close>: a structure is built from what the accessors of a message return.\<close>

definition HelloFromAPI :: "u32 \<Rightarrow> pb_hello" where
  "HelloFromAPI r = \<lparr>pb_hello_ReplicaId = r\<rparr>"

definition RequestFromAPI :: "request \<Rightarrow> pb_request" where
  "RequestFromAPI req =
     \<lparr>pb_req_ClientId = req_ClientID req, pb_req_Seq = req_Sequence req,
      pb_req_Operation = req_Operation req, pb_req_Signature = req_Signature req\<rparr>"

definition ReplyFromAPI :: "reply \<Rightarrow> pb_reply" where
  "ReplyFromAPI rep =
     \<lparr>pb_rep_ReplicaId = rep_ReplicaID rep, pb_rep_ClientId = rep_ClientID rep,
      pb_rep_Seq = rep_Sequence rep, pb_rep_Result = rep_Result rep,
      pb_rep_Signature = rep_Signature rep\<rparr>"

definition PrepareFromAPI :: "u32 \<Rightarrow> u64 \<Rightarrow> request \<Rightarrow> ui \<Rightarrow> pb_prepare" where
  "PrepareFromAPI r v req u =
     \<lparr>pb_prep_ReplicaId = r, pb_prep_View = v, pb_prep_Request = Some (RequestFromAPI req),
      pb_prep_Ui = MarshalBinary u\<rparr>"

definition ReqViewChangeFromAPI :: "req_view_change \<Rightarrow> pb_rvc" where
  "ReqViewChangeFromAPI rvc =
     \<lparr>pb_rvc_ReplicaId = rvc_ReplicaID rvc, pb_rvc_NewView = rvc_NewView rvc,
      pb_rvc_Signature = rvc_Signature rvc\<rparr>"

definition viewChangeCertFromAPI :: "view_change_cert \<Rightarrow> pb_rvc list" where
  "viewChangeCertFromAPI cert = map ReqViewChangeFromAPI cert"

fun CertifiedFromAPI :: "certified \<Rightarrow> proto_message"
  and ViewChangeFromAPI :: "view_change \<Rightarrow> pb_view_change" where
  "CertifiedFromAPI (Prepare r v req u) = PPrepare (PrepareFromAPI r v req u)"
| "CertifiedFromAPI (Commit r prop u) =
     PCommit (PbCommit r (Some (WrapMessage (CertifiedFromAPI prop))) (MarshalBinary u))"
| "CertifiedFromAPI (CViewChange vc) = PViewChange (ViewChangeFromAPI vc)"
| "CertifiedFromAPI (NewView r nv cert u) =
     PNewView (PbNewView r nv (map ViewChangeFromAPI cert) (MarshalBinary u))"
| "ViewChangeFromAPI (ViewChange r nv ml cert u) =
     PbViewChange r nv (map (\<lambda>m. WrapMessage (CertifiedFromAPI m)) ml) (viewChangeCertFromAPI cert)
       (MarshalBinary u)"

definition MessageFromAPI :: "message \<Rightarrow> proto_message result" where
  "MessageFromAPI m =
     (case m of
        MRequest r \<Rightarrow> Inr (PRequest (Some (RequestFromAPI r)))
      | MReply r \<Rightarrow> Inr (PReply (ReplyFromAPI r))
      | MReqViewChange r \<Rightarrow> Inr (PReqViewChange (ReqViewChangeFromAPI r))
      | MCertified x \<Rightarrow> Inr (CertifiedFromAPI x)
      | MHello r \<Rightarrow> Inl (Panic ''unknown message type''))"

section \<open>Message objects\<close>

text \<open>
  The objects of package \<open>protobuf\<close>. The structure of a request object is a pointer, which is nil
  for the request of a Prepare that was received without one. The UI is a pointer, nil until
  \<open>SetUI\<close>.
\<close>

type_synonym request_obj = "pb_request option"

datatype cert_obj =
    OPrepare pb_prepare request_obj "ui option"
  | OCommit pb_commit cert_obj "ui option"
  | OViewChange vc_obj
  | ONewView pb_new_view "vc_obj list" "ui option"
and vc_obj =
    VcObj (vo_pb: pb_view_change) (vo_log: "cert_obj list") (vo_cert: "pb_rvc list") (vo_ui: "ui option")

datatype msg_obj =
    OHello pb_hello
  | ORequest request_obj
  | OReply pb_reply
  | OReqViewChange pb_rvc
  | OCertified cert_obj

text \<open>The structure that an object keeps, as \<open>pbMessageFromAPI\<close> returns it for objects of the package.\<close>

fun pbMsg :: "cert_obj \<Rightarrow> proto_message" where
  "pbMsg (OPrepare p r u) = PPrepare p"
| "pbMsg (OCommit p prop u) = PCommit p"
| "pbMsg (OViewChange v) = PViewChange (vo_pb v)"
| "pbMsg (ONewView p cert u) = PNewView p"

definition newRequest :: "u32 \<Rightarrow> u64 \<Rightarrow> bytes \<Rightarrow> request_obj" where
  "newRequest cl seq op =
     Some \<lparr>pb_req_ClientId = cl, pb_req_Seq = seq, pb_req_Operation = op, pb_req_Signature = []\<rparr>"

definition newReply :: "u32 \<Rightarrow> u32 \<Rightarrow> u64 \<Rightarrow> bytes \<Rightarrow> pb_reply" where
  "newReply r cl seq res =
     \<lparr>pb_rep_ReplicaId = r, pb_rep_ClientId = cl, pb_rep_Seq = seq, pb_rep_Result = res,
      pb_rep_Signature = []\<rparr>"

definition newReqViewChange :: "u32 \<Rightarrow> u64 \<Rightarrow> pb_rvc" where
  "newReqViewChange r nv = \<lparr>pb_rvc_ReplicaId = r, pb_rvc_NewView = nv, pb_rvc_Signature = []\<rparr>"

definition newHello :: "u32 \<Rightarrow> pb_hello" where
  "newHello r = \<lparr>pb_hello_ReplicaId = r\<rparr>"

definition newPrepare :: "u32 \<Rightarrow> u64 \<Rightarrow> request_obj \<Rightarrow> cert_obj" where
  "newPrepare r v req =
     OPrepare \<lparr>pb_prep_ReplicaId = r, pb_prep_View = v, pb_prep_Request = req, pb_prep_Ui = []\<rparr> req None"

definition newCommit :: "u32 \<Rightarrow> cert_obj \<Rightarrow> cert_obj" where
  "newCommit r prop = OCommit (PbCommit r (Some (WrapMessage (pbMsg prop))) []) prop None"

definition newViewChange :: "u32 \<Rightarrow> u64 \<Rightarrow> cert_obj list \<Rightarrow> pb_rvc list \<Rightarrow> vc_obj" where
  "newViewChange r nv ml vcCert =
     VcObj (PbViewChange r nv (map (\<lambda>m. WrapMessage (pbMsg m)) ml) vcCert []) ml vcCert None"

definition newNewView :: "u32 \<Rightarrow> u64 \<Rightarrow> vc_obj list \<Rightarrow> cert_obj" where
  "newNewView r nv nvCert = ONewView (PbNewView r nv (map vo_pb nvCert) []) nvCert None"

definition set_vc_ui :: "ui \<Rightarrow> vc_obj \<Rightarrow> vc_obj" where
  "set_vc_ui u v =
     (case vo_pb v of
        PbViewChange r nv ml cert _ \<Rightarrow>
          VcObj (PbViewChange r nv ml cert (MarshalBinary u)) (vo_log v) (vo_cert v) (Some u))"

fun set_ui :: "ui \<Rightarrow> cert_obj \<Rightarrow> cert_obj" where
  "set_ui u (OPrepare p r _) = OPrepare (p\<lparr>pb_prep_Ui := MarshalBinary u\<rparr>) r (Some u)"
| "set_ui u (OCommit (PbCommit r prop _) obj _) = OCommit (PbCommit r prop (MarshalBinary u)) obj (Some u)"
| "set_ui u (OViewChange v) = OViewChange (set_vc_ui u v)"
| "set_ui u (ONewView (PbNewView r nv cert _) objs _) = ONewView (PbNewView r nv cert (MarshalBinary u)) objs (Some u)"

definition set_request_signature :: "bytes \<Rightarrow> request_obj \<Rightarrow> request_obj result" where
  "set_request_signature sig r =
     (case r of
        None \<Rightarrow> Inl (Panic ''nil pointer dereference'')
      | Some p \<Rightarrow> Inr (Some (p\<lparr>pb_req_Signature := sig\<rparr>)))"

definition request_Signature :: "request_obj \<Rightarrow> bytes result" where
  "request_Signature r =
     (case r of None \<Rightarrow> Inl (Panic ''nil pointer dereference'') | Some p \<Rightarrow> Inr (pb_req_Signature p))"

section \<open>Objects of received structures\<close>

text \<open>\<open>wrap e\<close> is \<open>xerrors.Errorf\<close> with \<open>e\<close> before the wrapped error; a panic passes through.\<close>

definition wrap :: "string \<Rightarrow> 'a result \<Rightarrow> 'a result" where
  "wrap e r = (case r of Inl (Error e') \<Rightarrow> Inl (Error (e @ '': '' @ e')) | _ \<Rightarrow> r)"

definition ui_from_pb :: "bytes \<Rightarrow> ui result" where
  "ui_from_pb bs = wrap ''cannot unmarshal UI'' (UnmarshalBinary bs)"

definition newRequestFromPb :: "pb_request option \<Rightarrow> request_obj result" where
  "newRequestFromPb p = Inr p"

definition newPrepareFromPb :: "pb_prepare \<Rightarrow> cert_obj result" where
  "newPrepareFromPb p =
     (case newRequestFromPb (pb_prep_Request p) of
        Inl e \<Rightarrow> Inl e
      | Inr req \<Rightarrow>
          (case ui_from_pb (pb_prep_Ui p) of
             Inl e \<Rightarrow> Inl e
           | Inr u \<Rightarrow> Inr (OPrepare p req (Some u))))"

definition newHelloFromPb :: "pb_hello \<Rightarrow> pb_hello result" where
  "newHelloFromPb p = Inr p"

definition newReplyFromPb :: "pb_reply \<Rightarrow> pb_reply result" where
  "newReplyFromPb p = Inr p"

definition newReqViewChangeFromPb :: "pb_rvc \<Rightarrow> pb_rvc result" where
  "newReqViewChangeFromPb p = Inr p"

fun viewChangeCertFromPb :: "pb_rvc list \<Rightarrow> pb_rvc list result" where
  "viewChangeCertFromPb [] = Inr []"
| "viewChangeCertFromPb (p # ps) =
     (case newReqViewChangeFromPb p of
        Inl e \<Rightarrow> Inl e
      | Inr r \<Rightarrow> (case viewChangeCertFromPb ps of Inl e \<Rightarrow> Inl e | Inr rs \<Rightarrow> Inr (r # rs)))"

definition certified_of :: "string \<Rightarrow> msg_obj \<Rightarrow> cert_obj result" where
  "certified_of e m = (case m of OCertified x \<Rightarrow> Inr x | _ \<Rightarrow> Inl (Error e))"

fun typedMessageFromPb :: "pb_message \<Rightarrow> msg_obj result"
  and newCommitFromPb :: "pb_commit \<Rightarrow> cert_obj result"
  and newViewChangeFromPb :: "pb_view_change \<Rightarrow> vc_obj result"
  and newNewViewFromPb :: "pb_new_view \<Rightarrow> cert_obj result"
  and messageLogFromPb :: "pb_message list \<Rightarrow> cert_obj list result"
  and newViewCertFromPb :: "pb_view_change list \<Rightarrow> vc_obj list result" where
  "typedMessageFromPb (Message_Hello p) =
     (case newHelloFromPb p of Inl e \<Rightarrow> Inl e | Inr h \<Rightarrow> Inr (OHello h))"
| "typedMessageFromPb (Message_Request p) =
     (case newRequestFromPb p of Inl e \<Rightarrow> Inl e | Inr r \<Rightarrow> Inr (ORequest r))"
| "typedMessageFromPb (Message_Reply p) =
     (case newReplyFromPb p of Inl e \<Rightarrow> Inl e | Inr r \<Rightarrow> Inr (OReply r))"
| "typedMessageFromPb (Message_Prepare p) =
     (case newPrepareFromPb p of Inl e \<Rightarrow> Inl e | Inr x \<Rightarrow> Inr (OCertified x))"
| "typedMessageFromPb (Message_Commit p) =
     (case newCommitFromPb p of Inl e \<Rightarrow> Inl e | Inr x \<Rightarrow> Inr (OCertified x))"
| "typedMessageFromPb (Message_ReqViewChange p) =
     (case newReqViewChangeFromPb p of Inl e \<Rightarrow> Inl e | Inr r \<Rightarrow> Inr (OReqViewChange r))"
| "typedMessageFromPb (Message_ViewChange p) =
     (case newViewChangeFromPb p of Inl e \<Rightarrow> Inl e | Inr v \<Rightarrow> Inr (OCertified (OViewChange v)))"
| "typedMessageFromPb (Message_NewView p) =
     (case newNewViewFromPb p of Inl e \<Rightarrow> Inl e | Inr x \<Rightarrow> Inr (OCertified x))"
| "typedMessageFromPb Message_nil = Inl (Error ''unknown message type'')"
| "newCommitFromPb (PbCommit r prop uib) =
     (case (case prop of
              None \<Rightarrow> Inl (Panic ''nil pointer dereference'')
            | Some p \<Rightarrow> wrap ''cannot unmarshal embedded proposal'' (typedMessageFromPb p)) of
        Inl e \<Rightarrow> Inl e
      | Inr m \<Rightarrow>
          (case certified_of ''unexpected proposal message type'' m of
             Inl e \<Rightarrow> Inl e
           | Inr x \<Rightarrow>
               (case ui_from_pb uib of
                  Inl e \<Rightarrow> Inl e
                | Inr u \<Rightarrow> Inr (OCommit (PbCommit r prop uib) x (Some u)))))"
| "newViewChangeFromPb (PbViewChange r nv ml cert uib) =
     (case ui_from_pb uib of
        Inl e \<Rightarrow> Inl e
      | Inr u \<Rightarrow>
          (case wrap ''cannot unmarshal message log'' (messageLogFromPb ml) of
             Inl e \<Rightarrow> Inl e
           | Inr os \<Rightarrow>
               (case wrap ''cannot unmarshal view-change certificate'' (viewChangeCertFromPb cert) of
                  Inl e \<Rightarrow> Inl e
                | Inr rs \<Rightarrow> Inr (VcObj (PbViewChange r nv ml cert uib) os rs (Some u)))))"
| "newNewViewFromPb (PbNewView r nv cert uib) =
     (case ui_from_pb uib of
        Inl e \<Rightarrow> Inl e
      | Inr u \<Rightarrow>
          (case wrap ''cannot unmarshal new-view certificate'' (newViewCertFromPb cert) of
             Inl e \<Rightarrow> Inl e
           | Inr vs \<Rightarrow> Inr (ONewView (PbNewView r nv cert uib) vs (Some u))))"
| "messageLogFromPb [] = Inr []"
| "messageLogFromPb (p # ps) =
     (case typedMessageFromPb p of
        Inl e \<Rightarrow> Inl e
      | Inr m \<Rightarrow>
          (case certified_of ''unexpected message type'' m of
             Inl e \<Rightarrow> Inl e
           | Inr x \<Rightarrow> (case messageLogFromPb ps of Inl e \<Rightarrow> Inl e | Inr os \<Rightarrow> Inr (x # os))))"
| "newViewCertFromPb [] = Inr []"
| "newViewCertFromPb (p # ps) =
     (case newViewChangeFromPb p of
        Inl e \<Rightarrow> Inl e
      | Inr v \<Rightarrow> (case newViewCertFromPb ps of Inl e \<Rightarrow> Inl e | Inr vs \<Rightarrow> Inr (v # vs)))"

section \<open>The binary form\<close>

text \<open>
  The structure that \<open>MarshalBinary\<close> of an object marshals, and the same for an object that is
  embedded into another; \<open>marshal\<close> is \<open>proto.Marshal\<close> and \<open>unmarshal\<close> is \<open>proto.Unmarshal\<close> into
  a wrapper.
\<close>

fun obj_pb :: "msg_obj \<Rightarrow> proto_message" where
  "obj_pb (OHello p) = PHello p"
| "obj_pb (ORequest r) = PRequest r"
| "obj_pb (OReply p) = PReply p"
| "obj_pb (OReqViewChange p) = PReqViewChange p"
| "obj_pb (OCertified x) = pbMsg x"

definition pbMessageFromAPI :: "msg_obj \<Rightarrow> proto_message result" where
  "pbMessageFromAPI m =
     (case m of OHello p \<Rightarrow> Inl (Panic ''unknown message type'') | _ \<Rightarrow> Inr (obj_pb m))"

definition marshalMessage :: "(pb_message \<Rightarrow> bytes result) \<Rightarrow> proto_message \<Rightarrow> bytes result" where
  "marshalMessage marshal m = marshal (WrapMessage m)"

definition MarshalObject :: "(pb_message \<Rightarrow> bytes result) \<Rightarrow> msg_obj \<Rightarrow> bytes result" where
  "MarshalObject marshal m = marshalMessage marshal (obj_pb m)"

definition NewFromBinary :: "(bytes \<Rightarrow> pb_message result) \<Rightarrow> bytes \<Rightarrow> msg_obj result" where
  "NewFromBinary unmarshal data =
     (case wrap ''failed to unmarshal message wrapper'' (unmarshal data) of
        Inl e \<Rightarrow> Inl e
      | Inr p \<Rightarrow> typedMessageFromPb p)"

section \<open>What the accessors show\<close>

definition view_ui :: "ui option \<Rightarrow> ui" where
  "view_ui u = (case u of None \<Rightarrow> no_ui | Some w \<Rightarrow> w)"

definition view_request :: "request_obj \<Rightarrow> request" where
  "view_request r =
     (case r of
        None \<Rightarrow> \<lparr>req_ClientID = 0, req_Sequence = 0, req_Operation = [], req_Signature = []\<rparr>
      | Some p \<Rightarrow> \<lparr>req_ClientID = pb_req_ClientId p, req_Sequence = pb_req_Seq p,
                    req_Operation = pb_req_Operation p, req_Signature = pb_req_Signature p\<rparr>)"

definition view_reply :: "pb_reply \<Rightarrow> reply" where
  "view_reply p =
     \<lparr>rep_ReplicaID = pb_rep_ReplicaId p, rep_ClientID = pb_rep_ClientId p, rep_Sequence = pb_rep_Seq p,
      rep_Result = pb_rep_Result p, rep_Signature = pb_rep_Signature p\<rparr>"

definition view_rvc :: "pb_rvc \<Rightarrow> req_view_change" where
  "view_rvc p =
     \<lparr>rvc_ReplicaID = pb_rvc_ReplicaId p, rvc_NewView = pb_rvc_NewView p, rvc_Signature = pb_rvc_Signature p\<rparr>"

fun view_cert :: "cert_obj \<Rightarrow> certified" and view_vc :: "vc_obj \<Rightarrow> view_change" where
  "view_cert (OPrepare p r u) = Prepare (pb_prep_ReplicaId p) (pb_prep_View p) (view_request r) (view_ui u)"
| "view_cert (OCommit p prop u) = Commit (pb_comm_ReplicaId p) (view_cert prop) (view_ui u)"
| "view_cert (OViewChange v) = CViewChange (view_vc v)"
| "view_cert (ONewView p vs u) = NewView (pb_nv_ReplicaId p) (pb_nv_NewView p) (map view_vc vs) (view_ui u)"
| "view_vc (VcObj p xs rs u) =
     ViewChange (pb_vc_ReplicaId p) (pb_vc_NewView p) (map view_cert xs) (map view_rvc rs) (view_ui u)"

fun view_msg :: "msg_obj \<Rightarrow> message" where
  "view_msg (OHello p) = MHello (pb_hello_ReplicaId p)"
| "view_msg (ORequest r) = MRequest (view_request r)"
| "view_msg (OReply p) = MReply (view_reply p)"
| "view_msg (OReqViewChange p) = MReqViewChange (view_rvc p)"
| "view_msg (OCertified x) = MCertified (view_cert x)"

section \<open>Coherent objects\<close>

text \<open>
  An object is coherent if its structure is the one of its parts, at every level, and its UI is
  set. An object is whole if the requests in it have a structure.
\<close>

definition ui_matches :: "bytes \<Rightarrow> ui option \<Rightarrow> bool" where
  "ui_matches bs u = (case u of None \<Rightarrow> False | Some w \<Rightarrow> bs = MarshalBinary w)"

fun coherent :: "cert_obj \<Rightarrow> bool" and coherent_vc :: "vc_obj \<Rightarrow> bool" where
  "coherent (OPrepare p r u) = (pb_prep_Request p = r \<and> ui_matches (pb_prep_Ui p) u)"
| "coherent (OCommit p prop u) =
     (pb_comm_Proposal p = Some (WrapMessage (pbMsg prop)) \<and> coherent prop \<and> ui_matches (pb_comm_Ui p) u)"
| "coherent (OViewChange v) = coherent_vc v"
| "coherent (ONewView p vs u) =
     (pb_nv_NvCert p = map vo_pb vs \<and> list_all coherent_vc vs \<and> ui_matches (pb_nv_Ui p) u)"
| "coherent_vc (VcObj p xs rs u) =
     (pb_vc_Log p = map (\<lambda>x. WrapMessage (pbMsg x)) xs \<and> pb_vc_VcCert p = rs \<and> list_all coherent xs \<and>
      ui_matches (pb_vc_Ui p) u)"

fun coherent_msg :: "msg_obj \<Rightarrow> bool" where
  "coherent_msg (OCertified x) = coherent x"
| "coherent_msg _ = True"

fun whole :: "cert_obj \<Rightarrow> bool" and whole_vc :: "vc_obj \<Rightarrow> bool" where
  "whole (OPrepare p r u) = (r \<noteq> None)"
| "whole (OCommit p prop u) = whole prop"
| "whole (OViewChange v) = whole_vc v"
| "whole (ONewView p vs u) = list_all whole_vc vs"
| "whole_vc (VcObj p xs rs u) = list_all whole xs"

text \<open>The object of a message, made by the constructors and setters of the package.\<close>

fun cert_obj_of :: "certified \<Rightarrow> cert_obj" and vc_obj_of :: "view_change \<Rightarrow> vc_obj" where
  "cert_obj_of (Prepare r v req u) = set_ui u (newPrepare r v (Some (RequestFromAPI req)))"
| "cert_obj_of (Commit r prop u) = set_ui u (newCommit r (cert_obj_of prop))"
| "cert_obj_of (CViewChange vc) = OViewChange (vc_obj_of vc)"
| "cert_obj_of (NewView r nv cert u) = set_ui u (newNewView r nv (map vc_obj_of cert))"
| "vc_obj_of (ViewChange r nv xs rs u) =
     set_vc_ui u (newViewChange r nv (map cert_obj_of xs) (map ReqViewChangeFromAPI rs))"

text \<open>Structures in which some Commit has no proposal.\<close>

fun lacks_proposal :: "pb_message \<Rightarrow> bool" and lacks_proposal_vc :: "pb_view_change \<Rightarrow> bool" where
  "lacks_proposal (Message_Commit (PbCommit r x uib)) = (case x of None \<Rightarrow> True | Some p \<Rightarrow> lacks_proposal p)"
| "lacks_proposal (Message_ViewChange v) = lacks_proposal_vc v"
| "lacks_proposal (Message_NewView (PbNewView r nv vs uib)) = list_ex lacks_proposal_vc vs"
| "lacks_proposal _ = False"
| "lacks_proposal_vc (PbViewChange r nv ps rs uib) = list_ex lacks_proposal ps"

section \<open>Structures and objects correspond\<close>

lemma ui_from_pb_marshal [simp]: "ui_from_pb (MarshalBinary u) = Inr u"
  by (simp add: ui_from_pb_def wrap_def)

lemma wrap_Inr [simp]: "(wrap e r = Inr x) = (r = Inr x)" "wrap e (Inr x) = Inr x"
  by (auto simp: wrap_def split: sum.splits go_error.splits)

lemma wrap_Panic [simp]: "(wrap e r = Inl (Panic p)) = (r = Inl (Panic p))" "(wrap e r = Inl Blocked) = (r = Inl Blocked)"
  by (auto simp: wrap_def split: sum.splits go_error.splits)

lemma ui_from_pb_matches: "ui_from_pb bs = Inr u \<Longrightarrow> ui_matches bs (Some u)"
  by (auto simp: ui_from_pb_def ui_matches_def dest: marshal_unmarshal)

lemma certified_of_Inr [simp]: "(certified_of e m = Inr x) = (m = OCertified x)"
  by (cases m) (auto simp: certified_of_def)

lemma viewChangeCertFromPb_id [simp]: "viewChangeCertFromPb ps = Inr ps"
  by (induction ps) (simp_all add: newReqViewChangeFromPb_def)

lemmas from_pb_defs = newHelloFromPb_def newReplyFromPb_def newReqViewChangeFromPb_def
  newRequestFromPb_def newPrepareFromPb_def

lemma certified_of_OCertified [simp]: "certified_of e (OCertified x) = Inr x"
  by simp

lemma decode_coherent:
  "typedMessageFromPb p = Inr m \<Longrightarrow> WrapMessage (obj_pb m) = p \<and> coherent_msg m"
  "newCommitFromPb pc = Inr x \<Longrightarrow> pbMsg x = PCommit pc \<and> coherent x"
  "newViewChangeFromPb pv = Inr v \<Longrightarrow> vo_pb v = pv \<and> coherent_vc v"
  "newNewViewFromPb pn = Inr x \<Longrightarrow> pbMsg x = PNewView pn \<and> coherent x"
  "messageLogFromPb ps = Inr xs \<Longrightarrow> map (\<lambda>x. WrapMessage (pbMsg x)) xs = ps \<and> list_all coherent xs"
  "newViewCertFromPb pvs = Inr vs \<Longrightarrow> map vo_pb vs = pvs \<and> list_all coherent_vc vs"
  by (induction p and pc and pv and pn and ps and pvs
      arbitrary: m and x and v and x and xs and vs rule:
      typedMessageFromPb_newCommitFromPb_newViewChangeFromPb_newNewViewFromPb_messageLogFromPb_newViewCertFromPb.induct)
    (fastforce simp: from_pb_defs split: sum.splits option.splits dest!: ui_from_pb_matches)+

lemma coherent_decode:
  "coherent x \<Longrightarrow> typedMessageFromPb (WrapMessage (pbMsg x)) = Inr (OCertified x)"
  "coherent_vc v \<Longrightarrow> newViewChangeFromPb (vo_pb v) = Inr v"
proof (induction x and v rule: coherent_coherent_vc.induct)
  case (1 p r u)
  then show ?case by (auto simp: from_pb_defs ui_matches_def split: option.splits)
next
  case (2 p x u)
  then show ?case by (cases p) (auto simp: ui_matches_def split: option.splits)
next
  case (3 v)
  then show ?case by simp
next
  case (4 p vs u)
  have "newViewCertFromPb (map vo_pb ws) = Inr ws" if "set ws \<subseteq> set vs" for ws
    using that 4 by (induction ws) (auto simp: list_all_iff)
  with 4 show ?case by (cases p) (auto simp: ui_matches_def split: option.splits)
next
  case (5 p xs rs u)
  have "messageLogFromPb (map (\<lambda>x. WrapMessage (pbMsg x)) ys) = Inr ys" if "set ys \<subseteq> set xs" for ys
    using that 5 by (induction ys) (auto simp: list_all_iff)
  with 5 show ?case by (cases p) (auto simp: ui_matches_def split: option.splits)
qed


lemma coherent_msg_decode: "coherent_msg m \<Longrightarrow> typedMessageFromPb (WrapMessage (obj_pb m)) = Inr m"
  by (cases m) (auto simp: from_pb_defs coherent_decode)

section \<open>Constructors and setters\<close>

lemma view_request_FromAPI [simp]: "view_request (Some (RequestFromAPI r)) = r"
  by (simp add: view_request_def RequestFromAPI_def)

lemma view_rvc_FromAPI [simp]: "view_rvc (ReqViewChangeFromAPI r) = r"
  by (simp add: view_rvc_def ReqViewChangeFromAPI_def)

lemma view_reply_FromAPI [simp]: "view_reply (ReplyFromAPI r) = r"
  by (simp add: view_reply_def ReplyFromAPI_def)

lemma FromAPI_view [simp]:
  "RequestFromAPI (view_request (Some p)) = p" "ReqViewChangeFromAPI (view_rvc q) = q"
  "ReplyFromAPI (view_reply z) = z"
  by (simp_all add: view_request_def RequestFromAPI_def view_rvc_def ReqViewChangeFromAPI_def
      view_reply_def ReplyFromAPI_def)

lemma view_set_vc_ui: "CViewChange (view_vc (set_vc_ui u v)) = SetUI u (CViewChange (view_vc v))"
  by (cases v; cases "vo_pb v") (auto simp: set_vc_ui_def view_ui_def)

lemma view_set_ui: "view_cert (set_ui u x) = SetUI u (view_cert x)"
  by (induction u x rule: set_ui.induct) (simp_all add: view_ui_def view_set_vc_ui)

lemma view_new:
  "view_cert (newPrepare r v req) = NewPrepare r v (view_request req)"
  "view_cert (newCommit r x) = NewCommit r (view_cert x)"
  "view_cert (OViewChange (newViewChange r nv xs rs)) = NewViewChange r nv (map view_cert xs) (map view_rvc rs)"
  "view_cert (newNewView r nv vs) = NewNewView r nv (map view_vc vs)"
  by (simp_all add: newPrepare_def NewPrepare_def newCommit_def NewCommit_def newViewChange_def
      NewViewChange_def newNewView_def NewNewView_def view_ui_def)

lemma coherent_new:
  "coherent (set_ui u (newPrepare r v req))"
  "coherent x \<Longrightarrow> coherent (set_ui u (newCommit r x))"
  "list_all coherent xs \<Longrightarrow> coherent_vc (set_vc_ui u (newViewChange r nv xs rs))"
  "list_all coherent_vc vs \<Longrightarrow> coherent (set_ui u (newNewView r nv vs))"
  by (simp_all add: newPrepare_def newCommit_def newViewChange_def newNewView_def ui_matches_def
      set_vc_ui_def)

lemma view_vc_set: "view_vc (set_vc_ui u (newViewChange r nv xs rs)) =
    ViewChange r nv (map view_cert xs) (map view_rvc rs) u"
  by (simp add: set_vc_ui_def newViewChange_def view_ui_def)

lemma obj_of:
  "view_cert (cert_obj_of m) = m \<and> coherent (cert_obj_of m) \<and> whole (cert_obj_of m)"
  "view_vc (vc_obj_of vc) = vc \<and> coherent_vc (vc_obj_of vc) \<and> whole_vc (vc_obj_of vc)"
proof (induction m and vc rule: cert_obj_of_vc_obj_of.induct)
  case (1 r v req u)
  then show ?case by (simp add: view_set_ui view_new coherent_new NewPrepare_def) (simp add: newPrepare_def)
next
  case (2 r x u)
  then show ?case by (simp add: view_set_ui view_new coherent_new NewCommit_def) (simp add: newCommit_def)
next
  case (3 vc)
  then show ?case by simp
next
  case (4 r nv cert u)
  then have "map (view_vc \<circ> vc_obj_of) cert = cert" by (simp add: map_idI)
  with 4 show ?case
    by (simp add: view_set_ui view_new coherent_new NewNewView_def list_all_iff)
      (simp add: newNewView_def list_all_iff)
next
  case (5 r nv xs rs u)
  then have "map (view_cert \<circ> cert_obj_of) xs = xs" "map (view_rvc \<circ> ReqViewChangeFromAPI) rs = rs"
    by (simp_all add: map_idI)
  with 5 show ?case
    by (simp add: view_vc_set coherent_new list_all_iff)
      (simp add: newViewChange_def set_vc_ui_def list_all_iff)
qed

lemma pbMsg_rebuilt:
  "coherent x \<Longrightarrow> whole x \<Longrightarrow> pbMsg x = CertifiedFromAPI (view_cert x)"
  "coherent_vc v \<Longrightarrow> whole_vc v \<Longrightarrow> vo_pb v = ViewChangeFromAPI (view_vc v)"
proof (induction x and v rule: coherent_coherent_vc.induct)
  case (1 p r u)
  then show ?case
    by (cases p) (auto simp: PrepareFromAPI_def ui_matches_def view_ui_def split: option.splits)
next
  case (2 p x u)
  then show ?case by (cases p) (auto simp: ui_matches_def view_ui_def split: option.splits)
next
  case (3 v)
  then show ?case by simp
next
  case (4 p vs u)
  then show ?case by (cases p) (auto simp: ui_matches_def view_ui_def list_all_iff split: option.splits)
next
  case (5 p xs rs u)
  then show ?case
    by (cases p) (auto simp: ui_matches_def view_ui_def list_all_iff viewChangeCertFromAPI_def map_idI split: option.splits)
qed

section \<open>Panics of the decoder\<close>

lemma ui_from_pb_error: "ui_from_pb bs = Inl e \<Longrightarrow> \<exists>x. e = Error x"
  by (cases e) (auto simp: ui_from_pb_def UnmarshalBinary_def read_be64_def wrap_def split: sum.splits if_splits)

lemma certified_of_error: "certified_of t m = Inl e \<Longrightarrow> e = Error t"
  by (auto simp: certified_of_def split: msg_obj.splits)

lemma decode_error:
  "typedMessageFromPb p = Inl e \<Longrightarrow> \<not> lacks_proposal p \<Longrightarrow> \<exists>x. e = Error x"
  "newCommitFromPb pc = Inl e \<Longrightarrow> \<not> lacks_proposal (Message_Commit pc) \<Longrightarrow> \<exists>x. e = Error x"
  "newViewChangeFromPb pv = Inl e \<Longrightarrow> \<not> lacks_proposal_vc pv \<Longrightarrow> \<exists>x. e = Error x"
  "newNewViewFromPb pn = Inl e \<Longrightarrow> \<not> lacks_proposal (Message_NewView pn) \<Longrightarrow> \<exists>x. e = Error x"
  "messageLogFromPb ps = Inl e \<Longrightarrow> \<not> list_ex lacks_proposal ps \<Longrightarrow> \<exists>x. e = Error x"
  "newViewCertFromPb pvs = Inl e \<Longrightarrow> \<not> list_ex lacks_proposal_vc pvs \<Longrightarrow> \<exists>x. e = Error x"
  by (induction p and pc and pv and pn and ps and pvs
      arbitrary: e and e and e and e and e and e rule:
      typedMessageFromPb_newCommitFromPb_newViewChangeFromPb_newNewViewFromPb_messageLogFromPb_newViewCertFromPb.induct)
    (auto simp: from_pb_defs wrap_def split: sum.splits option.splits go_error.splits
      dest: ui_from_pb_error certified_of_error)

section \<open>The message implementation as its clients see it\<close>

text \<open>
  What the core relies on when it builds a certified message around another one: the accessors
  show what the constructor was given, \<open>SetUI\<close> changes the UI only, and a message whose UI is set
  arrives at a peer as it was sent.
\<close>

locale certified_impl =
  fixes view :: "'o \<Rightarrow> certified" and ok :: "'o \<Rightarrow> bool"
    and mk_commit :: "u32 \<Rightarrow> 'o \<Rightarrow> 'o" and set_id :: "ui \<Rightarrow> 'o \<Rightarrow> 'o"
    and send :: "'o \<Rightarrow> 'p" and receive :: "'p \<Rightarrow> 'o result"
  assumes commit_view: "view (mk_commit r x) = NewCommit r (view x)"
    and set_view: "view (set_id u x) = SetUI u (view x)"
    and commit_ok: "ok x \<Longrightarrow> ok (set_id u (mk_commit r x))"
    and receive_send: "ok x \<Longrightarrow> receive (send x) = Inr x"
begin

lemma commit_travels:
  "ok x \<Longrightarrow> \<exists>y. receive (send (set_id u (mk_commit r x))) = Inr y \<and> ok y \<and> view y = Commit r (view x) u"
  by (auto simp: receive_send commit_ok commit_view set_view NewCommit_def)

lemma relayed_commit:
  assumes "ok x" and "receive (send x) = Inr y"
  shows "\<exists>z. receive (send (set_id u (mk_commit r y))) = Inr z \<and> view z = Commit r (view x) u"
  using commit_travels [of y u r] assms by (auto simp: receive_send)

end

lemma certified_decodes:
  "\<exists>x. typedMessageFromPb (WrapMessage (CertifiedFromAPI m)) = Inr (OCertified x) \<and> view_cert x = m"
  using obj_of(1) [of m] coherent_decode(1) [of "cert_obj_of m"] pbMsg_rebuilt(1) [of "cert_obj_of m"]
  by auto

definition receive_certified :: "pb_message \<Rightarrow> cert_obj result" where
  "receive_certified p =
     (case typedMessageFromPb p of Inl e \<Rightarrow> Inl e | Inr m \<Rightarrow> certified_of ''unexpected message type'' m)"

interpretation pbi: certified_impl view_cert coherent newCommit set_ui "\<lambda>x. WrapMessage (pbMsg x)" receive_certified
  by unfold_locales (simp_all add: view_new view_set_ui coherent_new receive_certified_def coherent_decode)

section \<open>Properties\<close>

text \<open>
  C24: encoding and decoding of certified messages are inverse: the structure that is built from the
  accessors of a certified message, whatever is nested in it, is accepted by a receiver, whose
  object shows the same message.
\<close>

theorem certified_round_trip:
  "\<exists>x. typedMessageFromPb (WrapMessage (CertifiedFromAPI m)) = Inr (OCertified x) \<and> view_cert x = m"
  by (rule certified_decodes)

text \<open>
  C25: a received structure is accepted exactly with the coherent object whose structure it is; so
  an object that was received is marshalled again into the structure it came from, and a coherent
  object is not changed by being sent.
\<close>

theorem decoded_iff_coherent:
  "typedMessageFromPb p = Inr m \<longleftrightarrow> coherent_msg m \<and> WrapMessage (obj_pb m) = p"
  using decode_coherent(1) coherent_msg_decode by blast

text \<open>
  The structure that an object caches is the one that would be built anew from its accessors,
  so the shortcut of \<open>pbMessageFromAPI\<close> is equivalent to the conversion of package \<open>pb\<close>. This holds
  for coherent objects in which every Prepare has a request.
\<close>

lemma cached_structure:
  assumes "coherent x" and "whole x"
  shows "pbMessageFromAPI (OCertified x) = MessageFromAPI (view_msg (OCertified x))"
  using pbMsg_rebuilt(1) [OF assms] by (simp add: pbMessageFromAPI_def MessageFromAPI_def)

text \<open>
  A coherent message is read back from its binary form as it was, provided that Protocol
  Buffers unmarshals what it has marshalled.
\<close>

lemma binary_round_trip:
  assumes "\<And>p bs. marshal p = Inr bs \<Longrightarrow> unmarshal bs = Inr p"
    and "coherent_msg m" and "MarshalObject marshal m = Inr bs"
  shows "NewFromBinary unmarshal bs = Inr m"
  using assms coherent_msg_decode [of m]
  by (simp add: NewFromBinary_def MarshalObject_def marshalMessage_def)

text \<open>
  Decoding a received structure panics only if some Commit in it has no proposal; every other
  defect is reported as an error.
\<close>

lemma decode_panics_only:
  assumes "typedMessageFromPb p = Inl e" and "\<not> lacks_proposal p"
  shows "\<exists>x. e = Error x"
  using decode_error(1) [OF assms] .


end
