(* ===== verification/Client.thy ===== *)
theory Client
  imports RequestBuffer Protobuf
begin

text \<open>
  Package \<open>client\<close>: \<open>client.go\<close>, \<open>request.go\<close> and \<open>message-handling.go\<close>. A client is a transition
  system: its calls, the replies that arrive and its termination interleave. The Authenticator and
  the Protocol Buffers library are parameters. The connections are in \<open>ClientConnections\<close>.
\<close>

section \<open>Configuration and state\<close>

record client_config =
  cc_id :: u32
  cc_n :: u32
  cc_f :: u32
  cc_hash :: "bytes \<Rightarrow> bytes"
  cc_verify :: "u32 \<Rightarrow> bytes \<Rightarrow> bytes \<Rightarrow> bool"
  cc_sign :: "bytes \<Rightarrow> bytes result"
  cc_unmarshal :: "bytes \<Rightarrow> pb_message result"

text \<open>
  A call of \<open>Request\<close>: the request is signed; then it is in the buffer, with the number of replies
  collected and the table of matching results; then the result channel is closed, with a result
  or without one.
\<close>

datatype call =
    Signed request
  | Collecting nat nat "bytes \<Rightarrow> u32"
  | Finished nat "bytes option"

record client =
  cl_nextSeq :: u64
  cl_buf :: buffer
  cl_calls :: "call list"
  cl_stopped :: bool

type_synonym 'a client_op = "(client, 'a) handler"

text \<open>\<open>now\<close> is the time at which the sequence generator is made.\<close>

definition new_client :: "client_config \<Rightarrow> u64 \<Rightarrow> client result" where
  "new_client c now =
     (if cc_n c < cc_f c * 2 + 1 then Inl (Error ''insufficient number of replica nodes'')
      else Inr \<lparr>cl_nextSeq = now, cl_buf = new_buffer, cl_calls = [], cl_stopped = False\<rparr>)"

section \<open>Requests\<close>

definition nextSequence :: "u64 client_op" where
  "nextSequence s = (s\<lparr>cl_nextSeq := cl_nextSeq s + 1\<rparr>, Inr (cl_nextSeq s))"

definition signRequest :: "client_config \<Rightarrow> request \<Rightarrow> request result" where
  "signRequest c req =
     (case cc_sign c (authen_request (cc_hash c) req) of
        Inl e \<Rightarrow> Inl e
      | Inr sig \<Rightarrow> Inr (req\<lparr>req_Signature := sig\<rparr>))"

definition constructRequest :: "client_config \<Rightarrow> bytes \<Rightarrow> request client_op" where
  "constructRequest c operation = bindM nextSequence (\<lambda>seq. ret (NewRequest (cc_id c) seq operation))"

text \<open>Failing to sign is fatal: the logger ends the process.\<close>

definition prepareRequest :: "client_config \<Rightarrow> bytes \<Rightarrow> request client_op" where
  "prepareRequest c operation =
     bindM (constructRequest c operation) (\<lambda>request.
       case signRequest c request of
         Inl e \<Rightarrow> throw (Panic ''Failed to sign request message'')
       | Inr req \<Rightarrow> ret req)"

definition beginCall :: "client_config \<Rightarrow> bytes \<Rightarrow> unit client_op" where
  "beginCall c operation =
     bindM (prepareRequest c operation) (\<lambda>req. modify (\<lambda>s. s\<lparr>cl_calls := cl_calls s @ [Signed req]\<rparr>))"

text \<open>\<open>submitRequest\<close>, one attempt to add the request to the buffer.\<close>

definition submitRequest :: "nat \<Rightarrow> unit client_op" where
  "submitRequest k s =
     (if k \<ge> length (cl_calls s) then (s, Inr ())
      else case cl_calls s ! k of
        Signed req \<Rightarrow>
          (case AddRequest (cl_stopped s) req (cl_buf s) of
             (rb, AddWait i) \<Rightarrow> (s, Inr ())
           | (rb, AddRejected) \<Rightarrow> (s\<lparr>cl_buf := rb\<rparr>, Inl (Panic ''Request message rejected''))
           | (rb, AddAccepted i) \<Rightarrow>
               (s\<lparr>cl_buf := rb, cl_calls := (cl_calls s)[k := Collecting i 0 (\<lambda>_. 0)]\<rparr>, Inr ()))
      | _ \<Rightarrow> (s, Inr ()))"

section \<open>Replies\<close>

definition authenticateReply :: "client_config \<Rightarrow> reply \<Rightarrow> unit result" where
  "authenticateReply c rep =
     (if rep_ClientID rep \<noteq> cc_id c then Inl (Error ''client ID mismatch'')
      else guard_err (cc_verify c (rep_ReplicaID rep) (authen_reply (cc_hash c) rep) (rep_Signature rep))
             ''authentication'')"

definition handleReply :: "client_config \<Rightarrow> reply \<Rightarrow> unit client_op" where
  "handleReply c rep s =
     (case authenticateReply c rep of
        Inl e \<Rightarrow> (s, Inr ())
      | Inr _ \<Rightarrow> (s\<lparr>cl_buf := fst (rb_AddReply rep (cl_buf s))\<rparr>, Inr ()))"

text \<open>A message that cannot be decoded, or is not a Reply, is logged and dropped.\<close>

definition handleIncoming :: "client_config \<Rightarrow> bytes \<Rightarrow> unit client_op" where
  "handleIncoming c msgBytes s =
     (case NewFromBinary (cc_unmarshal c) msgBytes of
        Inl (Error e) \<Rightarrow> (s, Inr ())
      | Inl e \<Rightarrow> (s, Inl e)
      | Inr (OReply p) \<Rightarrow> handleReply c (view_reply p) s
      | Inr _ \<Rightarrow> (s, Inr ()))"

section \<open>Results\<close>

text \<open>The body of the loop of \<open>collectReplies\<close>: count the result, and return it if it has more than \<open>f\<close> votes.\<close>

definition countReply :: "(bytes \<Rightarrow> bytes) \<Rightarrow> u32 \<Rightarrow> (bytes \<Rightarrow> u32) \<Rightarrow> reply \<Rightarrow> (bytes \<Rightarrow> u32) \<times> bytes option" where
  "countReply H f matching rep =
     (let hash = H (rep_Result rep); matching' = matching(hash := matching hash + 1)
      in (matching', if matching' hash > f then Some (rep_Result rep) else None))"

fun collectReplies :: "(bytes \<Rightarrow> bytes) \<Rightarrow> u32 \<Rightarrow> (bytes \<Rightarrow> u32) \<Rightarrow> reply list \<Rightarrow> bytes option" where
  "collectReplies H f matching [] = None"
| "collectReplies H f matching (rep # reps) =
     (case countReply H f matching rep of
        (_, Some res) \<Rightarrow> Some res
      | (matching', None) \<Rightarrow> collectReplies H f matching' reps)"

text \<open>The collector of call \<open>k\<close> receives the next reply.\<close>

definition collectNext :: "client_config \<Rightarrow> nat \<Rightarrow> unit client_op" where
  "collectNext c k s =
     (if k \<ge> length (cl_calls s) then (s, Inr ())
      else case cl_calls s ! k of
        Collecting i n matching \<Rightarrow>
          if n \<ge> length (rb_answers (cl_buf s) i) then (s, Inr ())
          else let rep = rb_answers (cl_buf s) i ! n
               in (case countReply (cc_hash c) (cc_f c) matching rep of
                     (_, Some res) \<Rightarrow>
                       (s\<lparr>cl_buf := RemoveRequest (rep_Sequence rep) (cl_buf s),
                          cl_calls := (cl_calls s)[k := Finished i (Some res)]\<rparr>, Inr ())
                   | (matching', None) \<Rightarrow>
                       (s\<lparr>cl_calls := (cl_calls s)[k := Collecting i (Suc n) matching']\<rparr>, Inr ()))
      | _ \<Rightarrow> (s, Inr ()))"

text \<open>The stream of replies ends when the request was removed or the client stopped.\<close>

definition closeReplies :: "nat \<Rightarrow> unit client_op" where
  "closeReplies k s =
     (if k \<ge> length (cl_calls s) then (s, Inr ())
      else case cl_calls s ! k of
        Collecting i n matching \<Rightarrow>
          if cl_stopped s \<or> en_removed (rb_entries (cl_buf s) ! i)
          then (s\<lparr>cl_calls := (cl_calls s)[k := Finished i None]\<rparr>, Inr ()) else (s, Inr ())
      | _ \<Rightarrow> (s, Inr ()))"

definition Terminate :: "unit client_op" where
  "Terminate s =
     (if cl_stopped s then (s, Inl (Panic ''close of closed channel'')) else (s\<lparr>cl_stopped := True\<rparr>, Inr ()))"

section \<open>The client as a transition system\<close>

datatype client_event =
    CCall bytes
  | CSubmit nat
  | CReceive bytes
  | CCollect nat
  | CClose nat
  | CTerminate

fun client_handle :: "client_config \<Rightarrow> client_event \<Rightarrow> unit client_op" where
  "client_handle c (CCall operation) = beginCall c operation"
| "client_handle c (CSubmit k) = submitRequest k"
| "client_handle c (CReceive bs) = handleIncoming c bs"
| "client_handle c (CCollect k) = collectNext c k"
| "client_handle c (CClose k) = closeReplies k"
| "client_handle c CTerminate = Terminate"

inductive client_reach :: "client_config \<Rightarrow> client \<Rightarrow> bool" for c where
  cl_start: "new_client c now = Inr s \<Longrightarrow> client_reach c s"
| cl_event: "client_reach c s \<Longrightarrow> client_handle c e s = (s', Inr ()) \<Longrightarrow> client_reach c s'"

fun run_client :: "client_config \<Rightarrow> client_event list \<Rightarrow> client \<Rightarrow> client result" where
  "run_client c [] s = Inr s"
| "run_client c (e # es) s =
     (case client_handle c e s of (s', Inl err) \<Rightarrow> Inl err | (s', Inr _) \<Rightarrow> run_client c es s')"

section \<open>Counting\<close>

definition votes :: "(bytes \<Rightarrow> bytes) \<Rightarrow> bytes \<Rightarrow> reply list \<Rightarrow> nat" where
  "votes H h ms = length (filter (\<lambda>m. H (rep_Result m) = h) ms)"

definition counted :: "(bytes \<Rightarrow> bytes) \<Rightarrow> u32 \<Rightarrow> reply list \<Rightarrow> (bytes \<Rightarrow> u32) \<Rightarrow> bool" where
  "counted H f ms matching \<longleftrightarrow>
     (\<forall>h. matching h = of_nat (votes H h ms) \<and> (f \<noteq> - 1 \<longrightarrow> votes H h ms \<le> unat f))"

lemma counted_Nil: "counted H f [] (\<lambda>_. 0)"
  by (simp add: counted_def votes_def)

lemma max_word_unat: "unat (f :: u32) < 2 ^ 32 - 1" if "f \<noteq> - 1"
proof -
  have "f < - 1" using that by (simp add: word_order.not_eq_extremum)
  then show ?thesis by (simp add: word_less_nat_alt unsigned_minus_1_eq_mask mask_eq_exp_minus_1)
qed

lemma votes_snoc: "votes H h (ms @ [m]) = votes H h ms + (if H (rep_Result m) = h then 1 else 0)"
  by (simp add: votes_def)

lemma counted_less:
  assumes "counted H f ms matching" and "f \<noteq> - 1"
  shows "unat (matching h + 1) = Suc (votes H h ms)"
proof -
  have "Suc (votes H h ms) < 2 ^ 32" "matching h + 1 = of_nat (Suc (votes H h ms))"
    using assms max_word_unat [of f] by (auto simp: counted_def dest!: spec [of _ h])
  then show ?thesis by (simp add: unsigned_of_nat take_bit_nat_eq_self del: of_nat_Suc)
qed

lemma countReply_None:
  assumes "counted H f ms matching" and "countReply H f matching rep = (matching', None)"
  shows "counted H f (ms @ [rep]) matching'"
proof -
  have m': "matching' = matching(H (rep_Result rep) := matching (H (rep_Result rep)) + 1)"
    and le: "\<not> matching (H (rep_Result rep)) + 1 > f"
    using assms(2) by (auto simp: countReply_def Let_def split: if_splits)
  have "f \<noteq> - 1 \<Longrightarrow> Suc (votes H (H (rep_Result rep)) ms) \<le> unat f"
    using le counted_less [OF assms(1), of "H (rep_Result rep)"] by (simp add: word_less_nat_alt)
  then show ?thesis using assms(1) by (auto simp: counted_def m' votes_snoc)
qed

lemma countReply_Some:
  assumes "counted H f ms matching" and "countReply H f matching rep = (matching', Some res)"
  shows "res = rep_Result rep \<and> votes H (H res) (ms @ [rep]) = Suc (unat f)"
proof -
  have gt: "matching (H (rep_Result rep)) + 1 > f" and res: "res = rep_Result rep"
    using assms(2) by (auto simp: countReply_def Let_def split: if_splits)
  have f: "f \<noteq> - 1" using gt word_order.extremum_strict by blast
  have "unat f < Suc (votes H (H res) ms)"
    using gt counted_less [OF assms(1) f, of "H res"] by (simp add: word_less_nat_alt res)
  moreover have "votes H (H res) ms \<le> unat f" using assms(1) f by (simp add: counted_def)
  ultimately show ?thesis by (simp add: votes_snoc res)
qed


text \<open>The result is that of the first reply with which some result has more than \<open>f\<close> votes.\<close>

lemma collectReplies_counted:
  assumes "counted H f ms matching" and "f \<noteq> - 1"
  shows "(collectReplies H f matching reps = None \<longleftrightarrow> (\<forall>h. votes H h (ms @ reps) \<le> unat f)) \<and>
    (collectReplies H f matching reps = Some res \<longrightarrow>
       (\<exists>xs m ys. reps = xs @ m # ys \<and> res = rep_Result m \<and> votes H (H res) (ms @ xs @ [m]) = Suc (unat f) \<and>
          (\<forall>h. votes H h (ms @ xs) \<le> unat f)))"
  using assms(1)
proof (induction reps arbitrary: ms matching)
  case Nil
  then show ?case using assms(2) by (simp add: counted_def)
next
  case (Cons m reps)
  obtain matching' r where r: "countReply H f matching m = (matching', r)" by fastforce
  show ?case
  proof (cases r)
    case None
    with Cons.IH [OF countReply_None [OF Cons.prems]] r show ?thesis
      by simp (metis append_Cons)
  next
    case (Some x)
    have x: "x = rep_Result m" "votes H (H x) (ms @ [m]) = Suc (unat f)"
      using countReply_Some [OF Cons.prems, of m matching' x] r Some by auto
    then have "unat f < votes H (H x) (ms @ m # reps)" by (simp add: votes_def)
    then have "\<not> (\<forall>h. votes H h (ms @ m # reps) \<le> unat f)" by (meson not_le)
    moreover have "\<forall>h. votes H h ms \<le> unat f" using Cons.prems assms(2) by (simp add: counted_def)
    ultimately show ?thesis using Some r x
      by simp (metis append_Nil append_Nil2)
  qed
qed

lemma collectReplies_append: "collectReplies H f matching xs = Some r \<Longrightarrow> collectReplies H f matching (xs @ ys) = Some r"
  by (induction xs arbitrary: matching) (auto split: prod.splits option.splits)

lemma collectReplies_most: "collectReplies H (- 1) matching reps = None"
  by (induction reps arbitrary: matching) (simp_all add: countReply_def Let_def)

lemma collectReplies_votes:
  assumes "collectReplies H f (\<lambda>_. 0) reps = Some res"
  shows "unat f < votes H (H res) reps"
proof -
  have f: "f \<noteq> - 1" using assms collectReplies_most by fastforce
  from collectReplies_counted [OF counted_Nil f, of H reps res] assms
  obtain xs m ys where "reps = (xs @ [m]) @ ys" "votes H (H res) (xs @ [m]) = Suc (unat f)" by auto
  moreover have "votes H h (as @ bs) = votes H h as + votes H h bs" for h as bs by (simp add: votes_def)
  ultimately have "votes H (H res) reps = Suc (unat f) + votes H (H res) ys" by metis
  then show ?thesis by simp
qed

section \<open>What the result of a call rests on\<close>

text \<open>\<open>answers\<close> are the replies to the \<open>n\<close> requests of a buffer.\<close>

fun call_ok :: "client_config \<Rightarrow> nat \<Rightarrow> (nat \<Rightarrow> reply list) \<Rightarrow> call \<Rightarrow> bool" where
  "call_ok c len answers (Signed r) = True"
| "call_ok c len answers (Collecting i n matching) =
     (i < len \<and> n \<le> length (answers i) \<and>
      (\<forall>reps. collectReplies (cc_hash c) (cc_f c) (\<lambda>_. 0) (take n (answers i) @ reps) =
               collectReplies (cc_hash c) (cc_f c) matching reps))"
| "call_ok c len answers (Finished i res) =
     (i < len \<and> (res \<noteq> None \<longrightarrow> collectReplies (cc_hash c) (cc_f c) (\<lambda>_. 0) (answers i) = res))"

lemma call_ok_grows:
  assumes "call_ok c len answers x" and "len \<le> len'" and "\<And>i. i < len \<Longrightarrow> \<exists>ms. answers' i = answers i @ ms"
  shows "call_ok c len' answers' x"
proof (cases x)
  case (Collecting i n matching)
  with assms(1) obtain ms where "answers' i = answers i @ ms" using assms(3) [of i] by auto
  with Collecting assms(1,2) show ?thesis by auto
next
  case (Finished i res)
  with assms(1) obtain ms where "answers' i = answers i @ ms" using assms(3) [of i] by auto
  with Finished assms(1,2) show ?thesis by (auto intro: collectReplies_append)
qed simp

definition caller_inv :: "client_config \<Rightarrow> client \<Rightarrow> bool" where
  "caller_inv c s \<longleftrightarrow> buffer_inv (cl_buf s) \<and>
     (\<forall>i < length (rb_asked (cl_buf s)). \<forall>m \<in> set (rb_answers (cl_buf s) i). authenticateReply c m = Inr ()) \<and>
     list_all (call_ok c (length (rb_asked (cl_buf s))) (rb_answers (cl_buf s))) (cl_calls s)"

context reply_store
begin

text \<open>An operation of the buffer keeps what the calls rest on, and adds only what it was given.\<close>

lemma calls_put:
  "list_all (call_ok c (length (asked b)) (answers b)) xs \<Longrightarrow>
   list_all (call_ok c (length (asked (put s r b))) (answers (put s r b))) xs"
proof -
  have "length (asked b) \<le> length (asked (put s r b))" using asked_put [of s r b] by auto
  then show "list_all (call_ok c (length (asked b)) (answers b)) xs \<Longrightarrow> ?thesis"
    by (elim list.pred_mono_strong, elim call_ok_grows) (simp_all add: answers_put)
qed

lemma calls_answer:
  "good b \<Longrightarrow> list_all (call_ok c (length (asked b)) (answers b)) xs \<Longrightarrow>
   list_all (call_ok c (length (asked (answer m b))) (answers (answer m b))) xs"
proof (elim list.pred_mono_strong, elim call_ok_grows)
  show "\<exists>ms. answers (answer m b) i = answers b i @ ms" if "good b" for i
    using answers_answer [OF that, of m i] by (metis append_Nil2)
qed (simp_all add: asked_kept)

lemma calls_retract:
  "list_all (call_ok c (length (asked b)) (answers b)) xs \<Longrightarrow>
   list_all (call_ok c (length (asked (retract q b))) (answers (retract q b))) xs"
  by (elim list.pred_mono_strong, elim call_ok_grows) (simp_all add: asked_kept answers_retract)

lemma replies_kept:
  assumes "\<forall>i < length (asked b). \<forall>m \<in> set (answers b i). P m"
  shows "\<forall>i < length (asked (put s r b)). \<forall>m \<in> set (answers (put s r b) i). P m"
    and "\<forall>i < length (asked (retract q b)). \<forall>m \<in> set (answers (retract q b) i). P m"
    and "good b \<Longrightarrow> P m \<Longrightarrow> \<forall>i < length (asked (answer m b)). \<forall>m \<in> set (answers (answer m b) i). P m"
proof -
  show "\<forall>i < length (asked (put s r b)). \<forall>m \<in> set (answers (put s r b) i). P m"
    using assms by (metis answers_new answers_put empty_iff empty_set)
  show "\<forall>i < length (asked (retract q b)). \<forall>m \<in> set (answers (retract q b) i). P m"
    using assms by (simp add: asked_kept answers_retract)
  show "\<forall>i < length (asked (answer m b)). \<forall>m \<in> set (answers (answer m b) i). P m" if "good b" "P m"
  proof (intro allI impI ballI)
    fix i x assume "i < length (asked (answer m b))" "x \<in> set (answers (answer m b) i)"
    then show "P x" using assms answers_answer [OF that(1), of m i] that(2) by (auto simp: asked_kept)
  qed
qed

text \<open>Votes are votes of distinct replicas.\<close>

lemma votes_distinct:
  assumes "good b" and "i < length (asked b)"
  shows "votes H h (answers b i) = card (rep_ReplicaID ` {m \<in> set (answers b i). H (rep_Result m) = h})"
proof -
  have "distinct (map rep_ReplicaID (filter (\<lambda>m. H (rep_Result m) = h) (answers b i)))"
    using answers_distinct [OF assms] by (simp add: distinct_map_filter)
  from distinct_card [OF this] show ?thesis by (simp add: votes_def)
qed

end


section \<open>Invariant\<close>

lemma caller_inv_call:
  assumes "caller_inv c s" and "call_ok c (length (rb_asked (cl_buf s))) (rb_answers (cl_buf s)) x"
  shows "caller_inv c (s\<lparr>cl_calls := (cl_calls s)[k := x]\<rparr>)"
  using assms by (auto simp: caller_inv_def list_all_iff dest!: set_update_subset_insert [THEN subsetD])

lemma caller_inv_put: "caller_inv c s \<Longrightarrow> caller_inv c (s\<lparr>cl_buf := fst (AddRequest b r (cl_buf s))\<rparr>)"
  using rb.calls_put [of c "cl_buf s" "cl_calls s" b r]
    rb.replies_kept(1) [of "cl_buf s" "\<lambda>m. authenticateReply c m = Inr ()" b r]
  by (simp add: caller_inv_def AddRequest_inv)

lemma caller_inv_retract: "caller_inv c s \<Longrightarrow> caller_inv c (s\<lparr>cl_buf := RemoveRequest q (cl_buf s)\<rparr>)"
  using rb.calls_retract [of c "cl_buf s" "cl_calls s" q]
    rb.replies_kept(2) [of "cl_buf s" "\<lambda>m. authenticateReply c m = Inr ()" q]
  by (simp add: caller_inv_def RemoveRequest_inv)

lemma caller_inv_answer:
  "caller_inv c s \<Longrightarrow> authenticateReply c m = Inr () \<Longrightarrow> caller_inv c (s\<lparr>cl_buf := fst (rb_AddReply m (cl_buf s))\<rparr>)"
  using rb.calls_answer [of "cl_buf s" c "cl_calls s" m]
    rb.replies_kept(3) [of "cl_buf s" "\<lambda>m. authenticateReply c m = Inr ()" m]
  by (simp add: caller_inv_def rb_AddReply_inv)

lemma AddAccepted_asked: "AddRequest b r rb = (rb', AddAccepted i) \<Longrightarrow> i < length (rb_asked rb')"
  by (auto simp: AddRequest_def try_AddRequest_def rb_asked_def split: option.splits if_splits prod.splits added.splits)

lemma caller_inv_begin: "caller_inv c s \<Longrightarrow> beginCall c op s = (s', Inr ()) \<Longrightarrow> caller_inv c s'"
  by (auto simp: beginCall_def prepareRequest_def constructRequest_def nextSequence_def bindM_def modify_def ret_def throw_def
      caller_inv_def split: sum.splits)

lemma caller_inv_submit:
  assumes "caller_inv c s" and "submitRequest k s = (s', Inr ())"
  shows "caller_inv c s'"
proof (cases "k < length (cl_calls s) \<and> (\<exists>r rb i. cl_calls s ! k = Signed r \<and> AddRequest (cl_stopped s) r (cl_buf s) = (rb, AddAccepted i))")
  case True
  then obtain r rb i where "cl_calls s ! k = Signed r" and a: "AddRequest (cl_stopped s) r (cl_buf s) = (rb, AddAccepted i)" by auto
  then have s': "s' = s\<lparr>cl_buf := rb, cl_calls := (cl_calls s)[k := Collecting i 0 (\<lambda>_. 0)]\<rparr>"
    using assms(2) True by (auto simp: submitRequest_def)
  have "caller_inv c (s\<lparr>cl_buf := rb\<rparr>)" using caller_inv_put [OF assms(1), of "cl_stopped s" r] a by simp
  from caller_inv_call [OF this, of "Collecting i 0 (\<lambda>_. 0)" k] AddAccepted_asked [OF a] show ?thesis
    by (simp add: s')
qed (use assms in \<open>auto simp: submitRequest_def split: if_splits call.splits prod.splits added.splits\<close>)

lemma caller_inv_receive: "caller_inv c s \<Longrightarrow> handleIncoming c bs s = (s', Inr ()) \<Longrightarrow> caller_inv c s'"
  by (auto simp: handleIncoming_def handleReply_def caller_inv_answer
      split: sum.splits go_error.splits msg_obj.splits)

text \<open>One step of the collector, and what it leaves of the invariant.\<close>

lemma collectNext_eq:
  assumes "k < length (cl_calls s)" "cl_calls s ! k = Collecting i n m" "n < length (rb_answers (cl_buf s) i)"
  shows "collectNext c k s = (case countReply (cc_hash c) (cc_f c) m (rb_answers (cl_buf s) i ! n) of
      (_, Some res) \<Rightarrow>
        (s\<lparr>cl_buf := RemoveRequest (rep_Sequence (rb_answers (cl_buf s) i ! n)) (cl_buf s),
           cl_calls := (cl_calls s)[k := Finished i (Some res)]\<rparr>, Inr ())
    | (m', None) \<Rightarrow> (s\<lparr>cl_calls := (cl_calls s)[k := Collecting i (Suc n) m']\<rparr>, Inr ()))"
  using assms by (simp add: collectNext_def Let_def)

lemma call_ok_collect:
  assumes "call_ok c len answers (Collecting i n m)" and n: "n < length (answers i)"
    and r: "countReply (cc_hash c) (cc_f c) m (answers i ! n) = (m', r)"
  shows "call_ok c len answers (case r of None \<Rightarrow> Collecting i (Suc n) m' | Some res \<Rightarrow> Finished i (Some res))"
proof -
  have ok: "i < len" "collectReplies (cc_hash c) (cc_f c) (\<lambda>_. 0) (take n (answers i) @ reps) =
      collectReplies (cc_hash c) (cc_f c) m reps" for reps using assms(1) by simp_all
  have "collectReplies (cc_hash c) (cc_f c) (\<lambda>_. 0) (take (Suc n) (answers i) @ reps) =
      (case r of None \<Rightarrow> collectReplies (cc_hash c) (cc_f c) m' reps | Some res \<Rightarrow> Some res)" for reps
    using ok(2) [of "answers i ! n # reps"] r n by (simp add: take_Suc_conv_app_nth split: option.splits)
  from this this [of "drop (Suc n) (answers i)"] show ?thesis
    using n ok(1) unfolding append_take_drop_id by (auto split: option.splits)
qed

lemma caller_inv_collect:
  assumes inv: "caller_inv c s" and h: "collectNext c k s = (s', Inr ())"
  shows "caller_inv c s'"
proof (cases "k < length (cl_calls s) \<and> (\<exists>i n m. cl_calls s ! k = Collecting i n m \<and> n < length (rb_answers (cl_buf s) i))")
  case True
  then obtain i n m where c: "k < length (cl_calls s)" "cl_calls s ! k = Collecting i n m"
    and n: "n < length (rb_answers (cl_buf s) i)" by auto
  obtain m' r where r: "countReply (cc_hash c) (cc_f c) m (rb_answers (cl_buf s) i ! n) = (m', r)" by fastforce
  have "call_ok c (length (rb_asked (cl_buf s))) (rb_answers (cl_buf s)) (Collecting i n m)"
    using inv c by (metis caller_inv_def list_all_length)
  from caller_inv_call [OF inv call_ok_collect [OF this n r], of k] show ?thesis
  proof (cases r)
    case (Some res)
    assume "caller_inv c (s\<lparr>cl_calls := (cl_calls s)[k := case r of None \<Rightarrow> Collecting i (Suc n) m'
      | Some res \<Rightarrow> Finished i (Some res)]\<rparr>)"
    from caller_inv_retract [OF this, of "rep_Sequence (rb_answers (cl_buf s) i ! n)"] Some r h show ?thesis
      by (auto simp: collectNext_eq [OF c n] caller_inv_def)
  qed (use r h in \<open>auto simp: collectNext_eq [OF c n]\<close>)
qed (use assms in \<open>auto simp: collectNext_def split: if_splits call.splits\<close>)

lemma caller_inv_close:
  assumes inv: "caller_inv c s" and h: "closeReplies k s = (s', Inr ())"
  shows "caller_inv c s'"
proof -
  have "i < length (rb_asked (cl_buf s))" if "k < length (cl_calls s)" "cl_calls s ! k = Collecting i n m" for i n m
    using inv that by (auto simp: caller_inv_def list_all_length dest!: spec [of _ k])
  with assms show ?thesis
    by (auto simp: closeReplies_def intro!: caller_inv_call split: if_splits call.splits)
qed

lemma client_handle_inv:
  assumes inv: "caller_inv c s" and h: "client_handle c e s = (s', Inr ())"
  shows "caller_inv c s'"
proof (cases e)
  case CTerminate
  with assms show ?thesis by (auto simp: Terminate_def caller_inv_def split: if_splits)
qed (use h in \<open>auto dest: caller_inv_begin [OF inv] caller_inv_submit [OF inv] caller_inv_receive [OF inv]
      caller_inv_collect [OF inv] caller_inv_close [OF inv]\<close>)

lemma reach_client: "client_reach c s \<Longrightarrow> caller_inv c s"
proof (induction rule: client_reach.induct)
  case (cl_start now s)
  then show ?case
    by (auto simp: new_client_def caller_inv_def buffer_inv_new split: if_splits) (simp add: rb_asked_def new_buffer_def)
qed (rule client_handle_inv)


text \<open>The replies to the request of a call whose result has the hash of \<open>res\<close>.\<close>

definition matching :: "client_config \<Rightarrow> client \<Rightarrow> nat \<Rightarrow> bytes \<Rightarrow> reply set" where
  "matching c s i res = {m \<in> set (rb_answers (cl_buf s) i). cc_hash c (rep_Result m) = cc_hash c res}"

lemma finished_votes:
  assumes "client_reach c s" and "Finished i (Some res) \<in> set (cl_calls s)"
  shows "unat (cc_f c) < card (rep_ReplicaID ` matching c s i res)"
    and "\<forall>m \<in> matching c s i res. authenticateReply c m = Inr () \<and> rep_Sequence m = req_Sequence (rb_asked (cl_buf s) ! i)"
proof -
  have inv: "caller_inv c s" by (rule reach_client [OF assms(1)])
  then have ok: "call_ok c (length (rb_asked (cl_buf s))) (rb_answers (cl_buf s)) (Finished i (Some res))"
    and b: "buffer_inv (cl_buf s)"
    using assms(2) by (auto simp: caller_inv_def list_all_iff)
  then show "unat (cc_f c) < card (rep_ReplicaID ` matching c s i res)"
    using collectReplies_votes [of "cc_hash c" "cc_f c" _ res] rb.votes_distinct [of "cl_buf s" i, symmetric]
    by (simp add: matching_def)
  show "\<forall>m \<in> matching c s i res. authenticateReply c m = Inr () \<and> rep_Sequence m = req_Sequence (rb_asked (cl_buf s) ! i)"
    using inv ok rb.answers_match [OF b] by (auto simp: matching_def caller_inv_def)
qed

lemma finished_correct:
  assumes "client_reach c s" and "Finished i (Some res) \<in> set (cl_calls s)" and "card faulty \<le> unat (cc_f c)"
  shows "\<exists>m \<in> matching c s i res. rep_ReplicaID m \<notin> faulty"
proof (rule ccontr)
  assume "\<not> ?thesis"
  then have "rep_ReplicaID ` matching c s i res \<subseteq> faulty" by blast
  from card_mono [OF finite this] assms(3) finished_votes(1) [OF assms(1,2)] show False by simp
qed

lemma collector_runs:
  assumes "caller_inv c s" "k < length (cl_calls s)" "cl_calls s ! k = Collecting i n m"
    and "collectReplies (cc_hash c) (cc_f c) (\<lambda>_. 0) (rb_answers (cl_buf s) i) = Some res"
  shows "\<exists>j s'. run_client c (replicate j (CCollect k)) s = Inr s' \<and> cl_calls s' ! k = Finished i (Some res)"
  using assms
proof (induction "length (rb_answers (cl_buf s) i) - n" arbitrary: s n m rule: less_induct)
  case less
  have ok: "call_ok c (length (rb_asked (cl_buf s))) (rb_answers (cl_buf s)) (Collecting i n m)"
    using less.prems(1-3) by (metis caller_inv_def list_all_length)
  have n: "n < length (rb_answers (cl_buf s) i)"
    using ok less.prems(4) by (cases "n = length (rb_answers (cl_buf s) i)") (auto dest: spec [of _ "[]"])
  obtain m' r where r: "countReply (cc_hash c) (cc_f c) m (rb_answers (cl_buf s) i ! n) = (m', r)" by fastforce
  show ?case
  proof (cases r)
    case (Some x)
    have "x = res" using call_ok_collect [OF ok n r] Some less.prems(4) by simp
    with Some r less.prems(2) show ?thesis
      by (intro exI [of _ 1]) (simp add: collectNext_eq [OF less.prems(2,3) n])
  next
    case None
    let ?s = "s\<lparr>cl_calls := (cl_calls s)[k := Collecting i (Suc n) m']\<rparr>"
    have step: "collectNext c k s = (?s, Inr ())" using None r by (simp add: collectNext_eq [OF less.prems(2,3) n])
    from less.hyps [of ?s "Suc n" m'] caller_inv_collect [OF less.prems(1) step] less.prems(2,4) diff_less_mono2 [OF lessI n]
    obtain j s' where "run_client c (replicate j (CCollect k)) ?s = Inr s'" "cl_calls s' ! k = Finished i (Some res)"
      by auto
    with step show ?thesis by (intro exI [of _ "Suc j"]) simp
  qed
qed

lemma run_client_reach: "client_reach c s \<Longrightarrow> run_client c es s = Inr s' \<Longrightarrow> client_reach c s'"
proof (induction es arbitrary: s)
  case (Cons e es)
  then show ?case by (cases "client_handle c e s") (auto split: sum.splits intro: cl_event)
qed simp

section \<open>Example\<close>

text \<open>A client of three replicas, one of which may be faulty, whose Authenticator accepts everything.\<close>

definition demo_client :: client_config where
  "demo_client = \<lparr>cc_id = 0, cc_n = 3, cc_f = 1, cc_hash = id, cc_verify = (\<lambda>_ _ _. True), cc_sign = (\<lambda>_. Inr []),
     cc_unmarshal = (\<lambda>bs. case bs of
        [r, q, x] \<Rightarrow> Inr (Message_Reply \<lparr>pb_rep_ReplicaId = ucast r, pb_rep_ClientId = 0, pb_rep_Seq = ucast q,
          pb_rep_Result = [x], pb_rep_Signature = []\<rparr>)
      | _ \<Rightarrow> Inl (Error ''malformed''))\<rparr>"

definition demo_start :: client where
  "demo_start = \<lparr>cl_nextSeq = 5, cl_buf = new_buffer, cl_calls = [], cl_stopped = False\<rparr>"

lemma demo_reach: "run_client demo_client es demo_start = Inr s \<Longrightarrow> client_reach demo_client s"
  by (rule run_client_reach [OF cl_start [of _ 5]]) (simp_all add: new_client_def demo_client_def demo_start_def)

definition demo_answered :: "client_event list" where
  "demo_answered = [CCall [7], CSubmit 0, CReceive [0, 5, 9], CReceive [2, 5, 8], CReceive [1, 5, 9]]"

lemma demo_run:
  "case run_client demo_client demo_answered demo_start of
     Inr s \<Rightarrow> length (cl_calls s) = 1 \<and> (case cl_calls s ! 0 of
       Collecting i n m \<Rightarrow> i = 0 \<and> n = 0 \<and> map rep_Result (rb_answers (cl_buf s) 0) = [[9], [8], [9]] | _ \<Rightarrow> False)
   | Inl e \<Rightarrow> False"
  by code_simp

lemma demo_result:
  "case run_client demo_client (demo_answered @ replicate 3 (CCollect 0)) demo_start of
     Inr s \<Rightarrow> length (cl_calls s) = 1 \<and> (case cl_calls s ! 0 of Finished i res \<Rightarrow> i = 0 \<and> res = Some [9] | _ \<Rightarrow> False)
   | Inl e \<Rightarrow> False"
  by code_simp

section \<open>Properties\<close>

text \<open>
  C19: a client returns a result of a request only if more than \<open>f\<close> replicas signed replies to the
  request with it, so that, with at most \<open>f\<close> faulty replicas, a correct replica did.
\<close>

theorem client_result:
  assumes "client_reach c s" and "Finished i (Some res) \<in> set (cl_calls s)"
  shows "unat (cc_f c) < card (rep_ReplicaID ` matching c s i res) \<and>
    (\<forall>m \<in> matching c s i res. authenticateReply c m = Inr () \<and>
       rep_Sequence m = req_Sequence (rb_asked (cl_buf s) ! i)) \<and>
    (card faulty \<le> unat (cc_f c) \<longrightarrow> (\<exists>m \<in> matching c s i res. rep_ReplicaID m \<notin> faulty))"
  using finished_votes [OF assms] finished_correct [OF assms] by blast

theorem client_result_witness:
  "\<exists>s m. run_client demo_client (demo_answered @ replicate 3 (CCollect 0)) demo_start = Inr s \<and>
     m \<in> set (rb_answers (cl_buf s) 0) \<and> rep_Result m = [9] \<and> rep_ReplicaID m \<notin> {0}"
proof -
  obtain s where s: "run_client demo_client (demo_answered @ replicate 3 (CCollect 0)) demo_start = Inr s"
    and "length (cl_calls s) = 1" "cl_calls s ! 0 = Finished 0 (Some [9])"
    using demo_result by (auto split: sum.splits call.splits)
  then have f: "Finished 0 (Some [9]) \<in> set (cl_calls s)" by (metis less_one nth_mem)
  from client_result [OF demo_reach [OF s] f, of "{0}"] s show ?thesis
    by (auto simp: demo_client_def matching_def)
qed

text \<open>
  C20: however a collector is interleaved with other work, once a result has more than \<open>f\<close>
  matching replies the collector returns, with what \<open>collectReplies\<close> computes from the replies.
\<close>

theorem collector_returns:
  assumes "client_reach c s" and "k < length (cl_calls s)" and "cl_calls s ! k = Collecting i n m"
    and "cc_f c \<noteq> - 1" and "unat (cc_f c) < votes (cc_hash c) h (rb_answers (cl_buf s) i)"
  shows "\<exists>j s' res. run_client c (replicate j (CCollect k)) s = Inr s' \<and> cl_calls s' ! k = Finished i (Some res) \<and>
    collectReplies (cc_hash c) (cc_f c) (\<lambda>_. 0) (rb_answers (cl_buf s) i) = Some res"
proof -
  obtain res where "collectReplies (cc_hash c) (cc_f c) (\<lambda>_. 0) (rb_answers (cl_buf s) i) = Some res"
    using conjunct1 [OF collectReplies_counted [OF counted_Nil assms(4)], of "cc_hash c" "rb_answers (cl_buf s) i"]
      assms(5) by (metis append_Nil not_le option.exhaust)
  with collector_runs [OF reach_client [OF assms(1)] assms(2,3)] show ?thesis by blast
qed

theorem collector_returns_witness:
  "\<exists>j s s'. run_client demo_client demo_answered demo_start = Inr s \<and>
     run_client demo_client (replicate j (CCollect 0)) s = Inr s' \<and> cl_calls s' ! 0 = Finished 0 (Some [9])"
proof -
  obtain s m where s: "run_client demo_client demo_answered demo_start = Inr s" "length (cl_calls s) = 1"
    "cl_calls s ! 0 = Collecting 0 0 m" and r: "map rep_Result (rb_answers (cl_buf s) 0) = [[9], [8], [9]]"
    using demo_run by (auto simp del: map_eq_Cons_conv split: sum.splits call.splits)
  have c: "cc_f demo_client = 1" "cc_hash demo_client = id" by (simp_all add: demo_client_def)
  obtain x y z where xs: "rb_answers (cl_buf s) 0 = [x, y, z]" "rep_Result x = [9]" "rep_Result y = [8]" "rep_Result z = [9]"
    using r by (auto simp: map_eq_Cons_conv)
  have "unat (cc_f demo_client) < votes (cc_hash demo_client) [9] (rb_answers (cl_buf s) 0)"
    by (simp add: c xs votes_def)
  from collector_returns [OF demo_reach [OF s(1)] _ s(3) _ this] s(2) c s(1) show ?thesis
    by (auto simp: xs countReply_def Let_def)
qed


end
