(* ===== verification/Scenarios.thy ===== *)
theory Scenarios
  imports CommitHistory
begin

text \<open>
  Concrete configurations, messages and executions of the model: they show that the hypotheses of
  the properties can hold, and one of them is an execution in which a correct replica crashes.
\<close>

section \<open>Executions\<close>

fun run_events :: "config \<Rightarrow> event list \<Rightarrow> node \<Rightarrow> node result" where
  "run_events c [] x = Inr x"
| "run_events c (e # es) x =
     (case handle_event c e x of
        (x', r) \<Rightarrow> if is_panic r then Inl (projl r) else run_events c es x')"

lemma run_events_reach: "run_events c es x = Inr y \<Longrightarrow> node_reach c x \<Longrightarrow> node_reach c y"
  by (induction c es x rule: run_events.induct)
    (auto split: prod.splits if_splits intro: reach_step node_step)

definition node_after :: "config \<Rightarrow> event list \<Rightarrow> node" where
  "node_after c es = (case run_events c es (new_node c) of Inr x \<Rightarrow> x | Inl e \<Rightarrow> new_node c)"

lemma node_after_reach: "node_reach c (node_after c es)"
  unfolding node_after_def
  by (cases "run_events c es (new_node c)") (auto intro: reach_init run_events_reach)

text \<open>
  An Authenticator that accepts every tag, signs with empty signatures, and whose USIG counts.
\<close>

definition demo_config :: "u32 \<Rightarrow> u32 \<Rightarrow> u32 \<Rightarrow> config" where
  "demo_config i n f =
     \<lparr>cfg_id = i, cfg_n = n, cfg_f = f, cfg_timeoutRequest = 5, cfg_timeoutPrepare = 3,
      cfg_timeoutViewChange = 8, cfg_hash = (\<lambda>_. replicate 32 0),
      cfg_verify = (\<lambda>_ _ _ _. True), cfg_sign = (\<lambda>_. Inr []),
      cfg_usig = (\<lambda>k _. Inr (MarshalBinary \<lparr>Counter = k + 1, Cert = []\<rparr>)), cfg_order = id\<rparr>"

lemma demo_order [simp]: "iter_order (cfg_order (demo_config i n f))"
  by (simp add: demo_config_def iter_order_def)

lemma demo_usig [simp]: "usig_ok (demo_config i n f)"
  by (auto simp: demo_config_def usig_ok_def)

lemma demo_authen [simp]: "authen_total (demo_config i n f)"
  by (auto simp: demo_config_def authen_total_def)

definition demo_request :: "u64 \<Rightarrow> request" where
  "demo_request q = \<lparr>req_ClientID = 7, req_Sequence = q, req_Operation = [], req_Signature = []\<rparr>"

definition ui_at :: "u64 \<Rightarrow> ui" where
  "ui_at k = \<lparr>Counter = k, Cert = []\<rparr>"

text \<open>A replica on its own executes two requests of a client, the second one sent twice.\<close>

definition solo :: config where
  "solo = demo_config 0 1 0"

definition solo_events :: "event list" where
  "solo_events =
     [EvClient (MRequest (demo_request 1)), EvStream, EvOwn, EvExecuted 0 [1],
      EvClient (MRequest (demo_request 2)), EvClient (MRequest (demo_request 2)), EvStream, EvStream, EvOwn]"

text \<open>Three replicas: the backup 1 receives the Prepare of the primary 0 and commits to it itself.\<close>

definition trio :: config where
  "trio = demo_config 1 3 1"

definition trio_prepare :: certified where
  "trio_prepare = Prepare 0 0 (demo_request 1) (ui_at 1)"

definition trio_events :: "event list" where
  "trio_events = [EvPeer (MCertified trio_prepare), EvStream, EvOwn]"

definition trio_accepted :: message_log where
  "trio_accepted = [trio_prepare, Commit 1 trio_prepare (ui_at 1)]"

lemma trio_accepted: "rs_accepted (nd_replica (node_after trio trio_events)) = trio_accepted"
  by code_simp

lemma trio_genuine: "genuine trio_accepted"
  by (simp add: genuine_def one_new_view_def trio_accepted_def trio_prepare_def commitments_of_def
      commitment_of_def proposal_of_def ui_at_def)

text \<open>The primary of the same replicas, which gets the Commit of the backup.\<close>

definition trio_primary :: config where
  "trio_primary = demo_config 0 3 1"

definition trio_primary_events :: "event list" where
  "trio_primary_events = [EvClient (MRequest (demo_request 1)), EvStream, EvOwn,
     EvPeer (MCertified (Commit 1 trio_prepare (ui_at 1)))]"

lemma trio_primary_accepted: "rs_accepted (nd_replica (node_after trio_primary trio_primary_events)) = trio_accepted"
  by code_simp

text \<open>The two other replicas ask for view 1, so that the backup starts the view change.\<close>

definition trio_rvc :: "u32 \<Rightarrow> req_view_change" where
  "trio_rvc r = \<lparr>rvc_ReplicaID = r, rvc_NewView = 1, rvc_Signature = []\<rparr>"

definition trio_vc_events :: "event list" where
  "trio_vc_events = trio_events @ [EvPeer (MReqViewChange (trio_rvc 0)), EvPeer (MReqViewChange (trio_rvc 2))]"

definition trio_vc :: view_change where
  "trio_vc = ViewChange 1 1 [Commit 1 trio_prepare (ui_at 1)] [trio_rvc 0, trio_rvc 2] (ui_at 2)"

lemma trio_vc_log: "Messages (rs_log (nd_replica (node_after trio trio_vc_events))) = [MCertified (CViewChange trio_vc)]"
  by code_simp

section \<open>A replica that lags behind\<close>

text \<open>
  Five replicas, two of which may be faulty; all of them are correct. Replica 3 has received
  nothing while the others prepared a request in view 0 and then went through view changes
  up to view 4, whose primary is replica 4. \<open>lag_vc r k\<close> is the ViewChange of replica \<open>r\<close> for
  view \<open>k + 1\<close>, with the log that replica \<open>r\<close> keeps of its own messages.
\<close>

definition lag_prepare :: certified where
  "lag_prepare = Prepare 0 0 (demo_request 1) (ui_at 1)"

definition lag_rvcs :: "u64 \<Rightarrow> view_change_cert" where
  "lag_rvcs v = map (\<lambda>r. \<lparr>rvc_ReplicaID = r, rvc_NewView = v, rvc_Signature = []\<rparr>) [0, 1, 2]"

fun lag_vc :: "u32 \<Rightarrow> nat \<Rightarrow> view_change" where
  "lag_vc r 0 =
     ViewChange r 1 [if r = 0 then lag_prepare else Commit r lag_prepare (ui_at 1)] (lag_rvcs 1) (ui_at 2)"
| "lag_vc r (Suc k) =
     ViewChange r (of_nat (k + 2)) [CViewChange (lag_vc r k)] (lag_rvcs (of_nat (k + 2))) (ui_at (of_nat (k + 3)))"

definition lag_nv :: certified where
  "lag_nv = NewView 4 4 [lag_vc 4 3, lag_vc 0 3, lag_vc 1 3] (ui_at 6)"

definition lag_messages :: "certified list" where
  "lag_messages = [lag_nv, CViewChange (lag_vc 2 3), Commit 0 lag_nv (ui_at 6), Commit 1 lag_nv (ui_at 6),
     Commit 2 lag_nv (ui_at 6)]"

section \<open>Histories of commitments\<close>

fun run_commitments :: "commitments \<Rightarrow> commitment list \<Rightarrow> commitments" where
  "run_commitments s [] = s"
| "run_commitments s ((r, nv, v, cv, rcv) # h) = run_commitments (fst (commitment_done r nv v cv rcv s)) h"

fun accepts_all :: "commitments \<Rightarrow> commitment list \<Rightarrow> bool" where
  "accepts_all s [] = True"
| "accepts_all s ((r, nv, v, cv, rcv) # h) =
     (cv \<noteq> 0 \<and> (case commitment_done r nv v cv rcv s of (s', Inl e) \<Rightarrow> False | (s', Inr d) \<Rightarrow> accepts_all s' h))"

lemma accepts_trace: "commit_trace sz g s \<Longrightarrow> accepts_all s h \<Longrightarrow> commit_trace sz (g @ h) (run_commitments s h)"
proof (induction s h arbitrary: g rule: run_commitments.induct)
  case (2 s r nv v cv rcv h)
  then obtain s' d where d: "commitment_done r nv v cv rcv s = (s', Inr d)" "accepts_all s' h" "cv \<noteq> 0"
    by (auto split: prod.splits sum.splits)
  from "2.IH" [of "g @ [(r, nv, v, cv, rcv)]"] trace_accept [OF "2.prems"(1) d(3,1)] d(1,2) show ?case by simp
qed simp

definition split_history :: "commitment list" where
  "split_history = [(0, True, 1, 5, 5), (1, True, 1, 6, 1), (2, True, 1, 6, 1), (3, True, 1, 5, 1)]"

section \<open>Two ViewChange messages with the same identifier\<close>

text \<open>An Authenticator that accepts one message only, and ViewChange messages for which it is asked.\<close>

definition strict :: config where
  "strict = trio\<lparr>cfg_hash := id, cfg_verify := (\<lambda>role i msg tag. msg = authen_certified id (Commit 1 trio_prepare (ui_at 1)))\<rparr>"

text \<open>A faulty replica may still vary what the UI does not cover, here the signature of the request.\<close>

definition strict_vc :: "bytes \<Rightarrow> view_change" where
  "strict_vc sig = ViewChange 1 1 [Commit 1 (Prepare 0 0 ((demo_request 1)\<lparr>req_Signature := sig\<rparr>) (ui_at 1)) (ui_at 1)]
     [trio_rvc 0, trio_rvc 2] (ui_at 2)"

end
