(* ===== verification/EndToEnd.thy ===== *)
theory EndToEnd
  imports Authentic Client Scenarios
begin

text \<open>
  A client together with the replicas that serve it: what a result of \<open>Request\<close> says about the
  requests that correct replicas have executed.
\<close>

section \<open>Signed replies\<close>

text \<open>
  \<open>replied c m\<close>: the replica with configuration \<open>c\<close> has, in some reachable state, a reply for a client
  with the authenticated contents of \<open>m\<close>. Signatures of a correct replica are unforgeable if its tag
  for a reply is accepted only in this case.
\<close>

definition replied :: "config \<Rightarrow> reply \<Rightarrow> bool" where
  "replied c m \<longleftrightarrow> (\<exists>x cid rep. node_reach c x \<and> reply_to cid (nd_replica x) = Some rep \<and>
     authen_reply (cfg_hash c) rep = authen_reply (cfg_hash c) m)"

lemma replied_executed:
  assumes "replied c m" and "iter_order (cfg_order c)"
  shows "\<exists>x req rep. node_reach c x \<and> req \<in> set (rs_delivered (nd_replica x)) \<and> signed_request c req \<and>
    req_ClientID req = rep_ClientID m \<and> req_Sequence req = rep_Sequence m \<and>
    reply_to (rep_ClientID m) (nd_replica x) = Some rep \<and> cfg_hash c (rep_Result rep) = cfg_hash c (rep_Result m)"
proof -
  obtain x cid rep where x: "node_reach c x" "reply_to cid (nd_replica x) = Some rep"
    and "authen_reply (cfg_hash c) rep = authen_reply (cfg_hash c) m" using assms(1) by (auto simp: replied_def)
  then have m: "rep_ClientID rep = rep_ClientID m" "rep_Sequence rep = rep_Sequence m"
      "cfg_hash c (rep_Result rep) = cfg_hash c (rep_Result m)"
    by (simp_all add: authen_reply_def)
  have "rep_ClientID rep = cid" "(cid, rep_Sequence rep) \<in> delivered_ids (nd_replica x)"
    using reach_replies [OF x(1)] x(2) by (auto simp: replies_inv_def)
  moreover have "set (rs_delivered (nd_replica x)) \<subseteq> authentic c" by (rule reach_authentic [OF x(1) assms(2)])
  ultimately show ?thesis using x m by (fastforce simp: delivered_ids_def authentic_def)
qed

section \<open>Example\<close>

text \<open>A client of the replica of the first scenario, which accepts the reply to its first request only.\<close>

definition solo_answer :: "event list" where
  "solo_answer = [EvClient (MRequest (demo_request 1)), EvStream, EvOwn, EvExecuted 0 [1]]"

definition solo_reply :: reply where
  "solo_reply = \<lparr>rep_ReplicaID = 0, rep_ClientID = 7, rep_Sequence = 1, rep_Result = [1], rep_Signature = []\<rparr>"

definition solo_client :: client_config where
  "solo_client = \<lparr>cc_id = 7, cc_n = 1, cc_f = 0, cc_hash = (\<lambda>_. replicate 32 0),
     cc_verify = (\<lambda>r bs sig. bs = authen_reply (\<lambda>_. replicate 32 0) solo_reply), cc_sign = (\<lambda>_. Inr []),
     cc_unmarshal = (\<lambda>bs. Inr (Message_Reply (ReplyFromAPI solo_reply)))\<rparr>"

definition solo_start :: client where
  "solo_start = \<lparr>cl_nextSeq = 1, cl_buf = new_buffer, cl_calls = [], cl_stopped = False\<rparr>"

lemma solo_replied: "reply_to 7 (nd_replica (node_after solo solo_answer)) = Some solo_reply"
  by code_simp

definition solo_calls :: "client_event list" where
  "solo_calls = [CCall [], CSubmit 0, CReceive [], CCollect 0]"

lemma solo_finished:
  "case run_client solo_client solo_calls solo_start of
     Inr s \<Rightarrow> length (cl_calls s) = 1 \<and> (case cl_calls s ! 0 of Finished i res \<Rightarrow> i = 0 \<and> res = Some [1] | _ \<Rightarrow> False) \<and>
       req_Sequence (rb_asked (cl_buf s) ! 0) = 1
   | Inl e \<Rightarrow> False"
  by code_simp

lemma solo_run:
  obtains s where "client_reach solo_client s" "cl_calls s = [Finished 0 (Some [1])]"
    "req_Sequence (rb_asked (cl_buf s) ! 0) = 1"
proof -
  obtain s where r: "run_client solo_client solo_calls solo_start = Inr s" and s: "length (cl_calls s) = 1"
    "cl_calls s ! 0 = Finished 0 (Some [1])" "req_Sequence (rb_asked (cl_buf s) ! 0) = 1"
    using solo_finished by (auto split: sum.splits call.splits)
  have "new_client solo_client 1 = Inr solo_start" by (simp add: new_client_def solo_client_def solo_start_def)
  from run_client_reach [OF cl_start [OF this] r] s that [of s] show thesis
    by (cases "cl_calls s") auto
qed

section \<open>Properties\<close>



end
