(* ===== verification/Connections.thy ===== *)
theory Connections
  imports Scenarios Protobuf "HOL-Library.Sublist"
begin

text \<open>
  The connections of a replica: the stream handlers of \<open>core/message-handling.go\<close>, which decode the
  bytes that arrive and hand the messages to the handlers, the Hello handler that streams the logs
  to a peer, the start of the connections to peers, and \<open>core/replica.go\<close>. A replica with its
  connections is a transition system on top of the one of \<open>Replica\<close>: every receipt, every send and
  every look at a channel is an event. The Protocol Buffers library and the connector are parameters.
\<close>

section \<open>Handling of decoded messages\<close>

text \<open>
  \<open>handlePeerMessage\<close> on the objects of the message implementation. It does what the handler of
  \<open>Replica\<close> does with what the accessors show, except that a Prepare may lack its request: reading
  the signature of the absent request panics.
\<close>

definition nil_request :: "'a op" where
  "nil_request = throw (Panic ''nil pointer dereference'')"

function (sequential) handlePeerObject :: "config \<Rightarrow> cert_obj \<Rightarrow> bool op" where
  "handlePeerObject c (OPrepare p r u) =
     (let m = MCertified (view_cert (OPrepare p r u))
      in seqM (check (validateMessage c m))
         (seqM (case r of None \<Rightarrow> nil_request
                | Some q \<Rightarrow> ignore (handle_leaf (validateMessage c) c (MRequest (view_request r))))
           (processMessage c m)))"
| "handlePeerObject c (OCommit p prop u) =
     (let m = MCertified (view_cert (OCommit p prop u))
      in seqM (check (validateMessage c m))
         (seqM (ignore (handlePeerObject c prop)) (processMessage c m)))"
| "handlePeerObject c (OViewChange (VcObj p xs rs u)) =
     (let m = MCertified (view_cert (OViewChange (VcObj p xs rs u)))
      in seqM (check (validateMessage c m))
         (seqM (forM (\<lambda>r. ignore (handle_leaf (validateMessage c) c (MReqViewChange (view_rvc r)))) rs)
         (seqM (forM (\<lambda>x. ignore (handlePeerObject c x)) xs)
           (processMessage c m))))"
| "handlePeerObject c (ONewView p vs u) =
     (let m = MCertified (view_cert (ONewView p vs u))
      in seqM (check (validateMessage c m))
         (seqM (forM (\<lambda>v. ignore (handlePeerObject c (OViewChange v))) vs)
           (processMessage c m)))"
  by pat_completeness auto

termination
  by (relation "measure (\<lambda>(_, m). size m)") (auto dest: size_in_list simp: less_Suc_eq_le)

definition handlePeerMsg :: "config \<Rightarrow> msg_obj \<Rightarrow> bool op" where
  "handlePeerMsg c obj =
     (case obj of
        OCertified x \<Rightarrow> handlePeerObject c x
      | ORequest None \<Rightarrow> nil_request
      | _ \<Rightarrow> handlePeerMessage c (view_msg obj))"

definition handleClientMsg :: "config \<Rightarrow> msg_obj \<Rightarrow> (bool \<times> reply_poll) op" where
  "handleClientMsg c obj =
     (case obj of
        ORequest None \<Rightarrow> nil_request
      | _ \<Rightarrow> handleClientMessage c (view_msg obj))"


text \<open>\<open>unless_panic m k\<close>: \<open>m\<close> does what \<open>k\<close> does, unless it panics.\<close>

definition unless_panic :: "('s, 'a) handler \<Rightarrow> ('s, 'a) handler \<Rightarrow> bool" where
  "unless_panic m k \<longleftrightarrow> (\<forall>s. is_panic (snd (m s)) \<or> k s = m s)"

lemma unless_refl: "unless_panic m m"
  by (simp add: unless_panic_def)

lemma unless_nil: "unless_panic nil_request k"
  by (simp add: unless_panic_def nil_request_def throw_def)

lemma unless_bindM:
  assumes "unless_panic m k" and "\<And>x. unless_panic (f x) (g x)"
  shows "unless_panic (bindM m f) (bindM k g)"
  unfolding unless_panic_def
proof
  fix s
  obtain s' r where m: "m s = (s', r)" by fastforce
  show "is_panic (snd (bindM m f s)) \<or> bindM k g s = bindM m f s"
  proof (cases "is_panic r")
    case True
    then obtain e where "r = Inl e" by (cases r) auto
    with True m is_panic_Inl_cast [of e] show ?thesis by (auto simp: bindM_def)
  next
    case False
    with assms(1) m have "k s = (s', r)" by (auto simp: unless_panic_def dest: spec [of _ s])
    with m assms(2) show ?thesis by (cases r) (auto simp: bindM_def unless_panic_def)
  qed
qed

lemma unless_seqM: "unless_panic m k \<Longrightarrow> unless_panic m' k' \<Longrightarrow> unless_panic (seqM m m') (seqM k k')"
  unfolding seqM_def by (rule unless_bindM)

lemma unless_ignore: "unless_panic m k \<Longrightarrow> unless_panic (ignore m) (ignore k)"
  unfolding ignore_def by (intro unless_bindM unless_refl)

lemma unless_forM:
  "(\<And>x. x \<in> set xs \<Longrightarrow> unless_panic (f x) (g (h x))) \<Longrightarrow> unless_panic (forM f xs) (forM g (map h xs))"
  by (induction xs) (auto intro: unless_refl unless_seqM)

lemmas unless_intros = unless_refl unless_nil unless_seqM unless_ignore unless_forM

lemma peer_object: "unless_panic (handlePeerObject c x) (handleCertified (validateMessage c) c (view_cert x))"
proof (induction c x rule: handlePeerObject.induct)
  case (1 c p r u)
  then show ?case by (cases r) (auto simp: Let_def intro!: unless_intros)
qed (auto simp: Let_def intro!: unless_intros)

lemma peer_msg: "unless_panic (handlePeerMsg c obj) (handlePeerMessage c (view_msg obj))"
  using peer_object [of c]
  by (auto simp: handlePeerMsg_def handlePeerMessage_def handleMessage_def split: msg_obj.splits option.splits
      intro: unless_intros)

lemma client_msg: "unless_panic (handleClientMsg c obj) (handleClientMessage c (view_msg obj))"
  by (auto simp: handleClientMsg_def split: msg_obj.splits option.splits intro: unless_intros)

section \<open>Message streams\<close>

text \<open>
  The goroutine of a stream handler: it waits for a message, or serves the reply channel of the
  message it has handled last, or has returned. A message that cannot be decoded or that its handler
  rejects ends the stream. \<open>frame\<close> is the next message of the connection, None when it was closed.
\<close>

datatype 'r conn = Reading | Replying 'r | Returned

definition receive_frame ::
    "(bytes \<Rightarrow> pb_message result) \<Rightarrow> (msg_obj \<Rightarrow> ('s, 'r option) handler) \<Rightarrow> bytes option \<Rightarrow> ('s, 'r conn) handler" where
  "receive_frame unmarshal handle frame s =
     (case frame of
        None \<Rightarrow> (s, Inr Returned)
      | Some msgBytes \<Rightarrow>
          (case NewFromBinary unmarshal msgBytes of
             Inl (Error e) \<Rightarrow> (s, Inr Returned)
           | Inl e \<Rightarrow> (s, Inl e)
           | Inr msg \<Rightarrow>
               (case handle msg s of
                  (s', Inl (Error e)) \<Rightarrow> (s', Inr Returned)
                | (s', Inl e) \<Rightarrow> (s', Inl e)
                | (s', Inr None) \<Rightarrow> (s', Inr Reading)
                | (s', Inr (Some reply)) \<Rightarrow> (s', Inr (Replying reply)))))"

text \<open>The Protocol Buffers library. A message to send that cannot be marshalled panics.\<close>

record codec =
  cd_marshal :: "pb_message \<Rightarrow> bytes result"
  cd_unmarshal :: "bytes \<Rightarrow> pb_message result"

definition marshal_hello :: "codec \<Rightarrow> u32 \<Rightarrow> bytes result" where
  "marshal_hello cd r =
     (case MarshalObject (cd_marshal cd) (OHello (newHello r)) of Inl e \<Rightarrow> Inl (Panic ''marshal'') | Inr bs \<Rightarrow> Inr bs)"

definition marshal_message :: "codec \<Rightarrow> message \<Rightarrow> bytes result" where
  "marshal_message cd m =
     (case MessageFromAPI m of
        Inl e \<Rightarrow> Inl e
      | Inr p \<Rightarrow> (case marshalMessage (cd_marshal cd) p of Inl e \<Rightarrow> Inl (Panic ''marshal'') | Inr bs \<Rightarrow> Inr bs))"

text \<open>Connections that the replica has opened to a peer: messages of the peer, no replies.\<close>

definition peer_frame :: "config \<Rightarrow> codec \<Rightarrow> bytes option \<Rightarrow> (replica, unit conn) handler" where
  "peer_frame c cd = receive_frame (cd_unmarshal cd) (\<lambda>msg. bindM (handlePeerMsg c msg) (\<lambda>new. ret None))"

text \<open>
  Connections that a client has opened. The handler waits for the reply, so the reply channel of a
  request is empty or holds its reply.
\<close>

datatype client_reply = Awaiting request | SendingReply bytes

definition offer_reply :: "codec \<Rightarrow> request \<Rightarrow> reply_poll \<Rightarrow> client_reply option result" where
  "offer_reply cd req poll =
     (case poll of
        AwaitReply \<Rightarrow> Inr (Some (Awaiting req))
      | CloseEmpty \<Rightarrow> Inr None
      | SendReply rep \<Rightarrow>
          (case marshal_message cd (MReply rep) of Inl e \<Rightarrow> Inl e | Inr bs \<Rightarrow> Inr (Some (SendingReply bs))))"

definition client_frame :: "config \<Rightarrow> codec \<Rightarrow> bytes option \<Rightarrow> (replica, client_reply conn) handler" where
  "client_frame c cd =
     receive_frame (cd_unmarshal cd) (\<lambda>msg.
       bindM (handleClientMsg c msg) (\<lambda>(new, poll).
         case view_msg msg of
           MRequest req \<Rightarrow> check (offer_reply cd req poll)
         | _ \<Rightarrow> ret None))"

text \<open>
  Connections that a peer has opened. After the Hello of the peer, a goroutine takes messages from
  the stream of the broadcast log and from that of the unicast log of the peer, and the handler
  sends them. \<open>hr_held\<close> is the message that the goroutine holds, \<open>hr_out\<close> the bytes that the handler
  holds. The other fields are histories, which no operation reads: \<open>su_out\<close> is what was taken
  from a stream since it adopted its generation of the log, \<open>hr_taken\<close> and \<open>hr_sent\<close> what was taken
  and sent altogether.
\<close>

record log_supply =
  su_stream :: stream
  su_out :: "message list"

record hello_reply =
  hr_peer :: u32
  hr_bc :: log_supply
  hr_uc :: "log_supply option"
  hr_held :: "message option"
  hr_out :: "bytes option"
  hr_taken :: "message list"
  hr_sent :: "bytes list"

definition open_supply :: "log_state \<Rightarrow> log_supply" where
  "open_supply l = \<lparr>su_stream = open_stream l, su_out = []\<rparr>"

definition serve_hello :: "u32 \<Rightarrow> (replica, hello_reply option) handler" where
  "serve_hello peerID s =
     (s, Inr (Some \<lparr>hr_peer = peerID, hr_bc = open_supply (rs_log s),
        hr_uc = map_option open_supply (rs_unicast s peerID),
        hr_held = None, hr_out = None, hr_taken = [], hr_sent = []\<rparr>))"

definition hello_frame :: "config \<Rightarrow> codec \<Rightarrow> bytes option \<Rightarrow> (replica, hello_reply conn) handler" where
  "hello_frame c cd =
     receive_frame (cd_unmarshal cd) (\<lambda>msg. bindM (check (handleHello c (view_msg msg))) serve_hello)"

text \<open>One step of the stream of a log, and the receipt of its next message.\<close>

definition supply_advance :: "log_state \<Rightarrow> log_supply \<Rightarrow> log_supply result" where
  "supply_advance l su =
     (case advance l (su_stream su) of
        Inl e \<Rightarrow> Inl e
      | Inr st \<Rightarrow> Inr \<lparr>su_stream = st, su_out = (if st_gen st \<noteq> st_gen (su_stream su) then [] else su_out su)\<rparr>)"

definition supply_take :: "log_supply \<Rightarrow> (message \<times> log_supply) option" where
  "supply_take su =
     (case (st_pc (su_stream su), st_buf (su_stream su)) of
        (Sending, m # rest) \<Rightarrow>
          Some (m, \<lparr>su_stream = (su_stream su)\<lparr>st_buf := rest\<rparr>, su_out = su_out su @ [m]\<rparr>)
      | _ \<Rightarrow> None)"

datatype hello_move = AdvanceBroadcast | AdvanceUnicast | TakeBroadcast | TakeUnicast | Relay | SendOut

text \<open>A move that is not possible now leaves the state alone.\<close>

fun hello_next :: "codec \<Rightarrow> replica \<Rightarrow> hello_move \<Rightarrow> hello_reply \<Rightarrow> hello_reply result" where
  "hello_next cd s AdvanceBroadcast h =
     (case supply_advance (rs_log s) (hr_bc h) of Inl e \<Rightarrow> Inl e | Inr su \<Rightarrow> Inr (h\<lparr>hr_bc := su\<rparr>))"
| "hello_next cd s AdvanceUnicast h =
     (case (rs_unicast s (hr_peer h), hr_uc h) of
        (Some l, Some su) \<Rightarrow>
          (case supply_advance l su of Inl e \<Rightarrow> Inl e | Inr su' \<Rightarrow> Inr (h\<lparr>hr_uc := Some su'\<rparr>))
      | _ \<Rightarrow> Inr h)"
| "hello_next cd s TakeBroadcast h =
     (case (hr_held h, supply_take (hr_bc h)) of
        (None, Some (m, su)) \<Rightarrow> Inr (h\<lparr>hr_bc := su, hr_held := Some m, hr_taken := hr_taken h @ [m]\<rparr>)
      | _ \<Rightarrow> Inr h)"
| "hello_next cd s TakeUnicast h =
     (case (hr_held h, Option.bind (hr_uc h) supply_take) of
        (None, Some (m, su)) \<Rightarrow> Inr (h\<lparr>hr_uc := Some su, hr_held := Some m, hr_taken := hr_taken h @ [m]\<rparr>)
      | _ \<Rightarrow> Inr h)"
| "hello_next cd s Relay h =
     (case (hr_held h, hr_out h) of
        (Some m, None) \<Rightarrow>
          (case marshal_message cd m of Inl e \<Rightarrow> Inl e | Inr bs \<Rightarrow> Inr (h\<lparr>hr_held := None, hr_out := Some bs\<rparr>))
      | _ \<Rightarrow> Inr h)"
| "hello_next cd s SendOut h =
     (case hr_out h of None \<Rightarrow> Inr h | Some bs \<Rightarrow> Inr (h\<lparr>hr_out := None, hr_sent := hr_sent h @ [bs]\<rparr>))"

section \<open>Starting the connections\<close>

text \<open>
  The loop of \<open>startPeerConnections\<close>; \<open>connects p\<close> tells if the connector has a stream handler for
  replica \<open>p\<close>. When one is missing, the connections started before stay.
\<close>

definition makePeerConnector :: "(u32 \<Rightarrow> bool) \<Rightarrow> u32 \<Rightarrow> unit result" where
  "makePeerConnector connects peerID =
     (if connects peerID then Inr () else Inl (Error ''connection not possible''))"

definition startPeerConnection :: "(u32 \<Rightarrow> bool) \<Rightarrow> u32 \<Rightarrow> u32 list \<Rightarrow> u32 list \<times> unit result" where
  "startPeerConnection connects peerID started =
     (case makePeerConnector connects peerID of
        Inl e \<Rightarrow> (started, Inl e)
      | Inr _ \<Rightarrow> (started @ [peerID], Inr ()))"

function startPeerConnections :: "u32 \<Rightarrow> u32 \<Rightarrow> (u32 \<Rightarrow> bool) \<Rightarrow> u32 \<Rightarrow> u32 list \<Rightarrow> u32 list \<times> unit result" where
  "startPeerConnections ownID n connects peerID started =
     (if \<not> peerID < n then (started, Inr ())
      else if peerID = ownID then startPeerConnections ownID n connects (peerID + 1) started
      else case startPeerConnection connects peerID started of
             (started', Inl e) \<Rightarrow> (started', Inl e)
           | (started', Inr _) \<Rightarrow> startPeerConnections ownID n connects (peerID + 1) started')"
  by auto

termination
  by (relation "measure (\<lambda>(_, n, _, p, _). unat n - unat p)") (simp_all add: loop_measure)

text \<open>What the loop computes: the other replicas in order, up to the first that cannot be connected to.\<close>

definition peers_from :: "u32 \<Rightarrow> u32 \<Rightarrow> u32 \<Rightarrow> u32 list" where
  "peers_from ownID p n = filter (\<lambda>q. q \<noteq> ownID) (map of_nat [unat p..<unat n])"

declare startPeerConnections.simps [simp del]

lemma peers_from_step:
  "peers_from i p n = (if p < n then (if p = i then [] else [p]) @ peers_from i (p + 1) n else [])"
  by (simp add: peers_from_def word_less_nat_alt unat_Suc_less upt_conv_Cons)

lemma startPeerConnections_eq:
  "startPeerConnections i n connects p started =
     (started @ takeWhile connects (peers_from i p n),
      if list_all connects (peers_from i p n) then Inr () else Inl (Error ''connection not possible''))"
proof (induction i n connects p started rule: startPeerConnections.induct)
  case (1 i n connects p started)
  then show ?case
    by (subst startPeerConnections.simps, subst (1 2) peers_from_step)
      (auto simp: startPeerConnection_def makePeerConnector_def)
qed

lemma peers_from_distinct: "distinct (peers_from i p n)"
proof -
  have "inj_on (of_nat :: nat \<Rightarrow> u32) (set [unat p..<unat n])"
    by (rule inj_onI) (metis atLeastLessThan_iff atLeastLessThan_upt unat_below)
  then show ?thesis by (simp add: peers_from_def distinct_map)
qed

lemma peers_from_set: "set (peers_from i 0 n) = {q. q < n \<and> q \<noteq> i}"
proof -
  have "(of_nat :: nat \<Rightarrow> u32) ` {0..<unat n} = {q. q < n}"
  proof (rule set_eqI)
    fix q :: u32
    show "q \<in> of_nat ` {0..<unat n} \<longleftrightarrow> q \<in> {q. q < n}"
      by (auto simp: word_less_nat_alt unat_below intro!: image_eqI [of _ _ "unat q"])
  qed
  then show ?thesis by (auto simp: peers_from_def)
qed

lemma peers_from_sorted: "sorted (peers_from i 0 n)"
proof -
  have "sorted_wrt (\<lambda>a b. of_nat a \<le> (of_nat b :: u32)) [0..<unat n]"
    by (rule sorted_wrt_mono_rel [where P = "(\<le>)"]) (auto simp: word_le_nat_alt unat_below [of _ n])
  then show ?thesis by (simp add: peers_from_def sorted_map sorted_wrt_filter)
qed

section \<open>A replica with its connections\<close>

text \<open>The goroutine of a connection to a peer first sends the Hello.\<close>

datatype peer_conn = Greeting | Greeted "unit conn"

record server =
  sv_node :: node
  sv_peers :: "(u32 \<times> peer_conn) list"
  sv_hellos :: "hello_reply conn list"
  sv_clients :: "client_reply conn list"
  sv_stopped :: bool

type_synonym 'a server_op = "(server, 'a) handler"

definition new_server :: "config \<Rightarrow> (u32 \<Rightarrow> bool) \<Rightarrow> server result" where
  "new_server c connects =
     (case config_check c of
        Inl e \<Rightarrow> Inl e
      | Inr _ \<Rightarrow>
          (case startPeerConnections (cfg_id c) (cfg_n c) connects 0 [] of
             (_, Inl e) \<Rightarrow> Inl e
           | (ps, Inr _) \<Rightarrow>
               Inr \<lparr>sv_node = new_node c, sv_peers = map (\<lambda>p. (p, Greeting)) ps, sv_hellos = [], sv_clients = [],
                    sv_stopped = False\<rparr>))"

definition at_replica :: "(replica, 'a) handler \<Rightarrow> 'a server_op" where
  "at_replica m x =
     (case m (nd_replica (sv_node x)) of
        (s, r) \<Rightarrow> (x\<lparr>sv_node := (sv_node x)\<lparr>nd_replica := s\<rparr>\<rparr>, r))"

text \<open>
  \<open>SvInternal\<close> is an event of the replica that no connection causes. \<open>SvQuit\<close> events are what a
  goroutine does when it sees that the replica was terminated; it may still do something else
  first, because Go chooses among the ready cases of a select.
\<close>

datatype server_event =
    SvInternal event
  | SvGreet u32
  | SvPeer u32 "bytes option"
  | SvAcceptPeer
  | SvHello nat "bytes option"
  | SvHelloMove nat hello_move
  | SvAcceptClient
  | SvClient nat "bytes option"
  | SvPoll nat
  | SvSendReply nat
  | SvTerminate
  | SvStopTimers
  | SvQuitPeer u32
  | SvQuitHello nat
  | SvQuitClient nat

fun internal :: "event \<Rightarrow> bool" where
  "internal (EvPeer m) = False"
| "internal (EvClient m) = False"
| "internal EvStop = False"
| "internal e = True"

definition set_peer :: "u32 \<Rightarrow> peer_conn \<Rightarrow> unit server_op" where
  "set_peer p pc = modify (\<lambda>x. x\<lparr>sv_peers := AList.update p pc (sv_peers x)\<rparr>)"

definition set_hello :: "nat \<Rightarrow> hello_reply conn \<Rightarrow> unit server_op" where
  "set_hello k pc = modify (\<lambda>x. x\<lparr>sv_hellos := (sv_hellos x)[k := pc]\<rparr>)"

definition set_client :: "nat \<Rightarrow> client_reply conn \<Rightarrow> unit server_op" where
  "set_client k pc = modify (\<lambda>x. x\<lparr>sv_clients := (sv_clients x)[k := pc]\<rparr>)"

definition nth_conn :: "nat \<Rightarrow> 'r conn list \<Rightarrow> 'r conn" where
  "nth_conn k xs = (if k < length xs then xs ! k else Returned)"

fun resume :: "'r option \<Rightarrow> 'r conn" where
  "resume None = Reading"
| "resume (Some r) = Replying r"

text \<open>
  A stream handler that sees the stop channel closed while it serves a reply channel goes back to its
  outer loop, and returns from there.
\<close>

fun quit_conn :: "'r conn \<Rightarrow> 'r conn" where
  "quit_conn (Replying r) = Reading"
| "quit_conn pc = Returned"

fun server_handle :: "config \<Rightarrow> codec \<Rightarrow> server_event \<Rightarrow> unit server_op" where
  "server_handle c cd (SvInternal e) =
     (if internal e
      then (\<lambda>x. case handle_event c e (sv_node x) of (y, r) \<Rightarrow> (x\<lparr>sv_node := y\<rparr>, r)) else ret ())"
| "server_handle c cd (SvGreet p) =
     bindM (gets (\<lambda>x. map_of (sv_peers x) p)) (\<lambda>pc.
       if pc \<noteq> Some Greeting then ret ()
       else bindM (check (marshal_hello cd (cfg_id c))) (\<lambda>_. set_peer p (Greeted Reading)))"
| "server_handle c cd (SvPeer p frame) =
     bindM (gets (\<lambda>x. map_of (sv_peers x) p)) (\<lambda>pc.
       if pc \<noteq> Some (Greeted Reading) then ret ()
       else bindM (at_replica (peer_frame c cd frame)) (\<lambda>pc'. set_peer p (Greeted pc')))"
| "server_handle c cd SvAcceptPeer = modify (\<lambda>x. x\<lparr>sv_hellos := sv_hellos x @ [Reading]\<rparr>)"
| "server_handle c cd (SvHello k frame) =
     bindM (gets (\<lambda>x. nth_conn k (sv_hellos x))) (\<lambda>pc.
       case pc of
         Reading \<Rightarrow> bindM (at_replica (hello_frame c cd frame)) (set_hello k)
       | _ \<Rightarrow> ret ())"
| "server_handle c cd (SvHelloMove k mv) =
     bindM (gets (\<lambda>x. nth_conn k (sv_hellos x))) (\<lambda>pc.
       case pc of
         Replying h \<Rightarrow>
           bindM (gets (\<lambda>x. hello_next cd (nd_replica (sv_node x)) mv h)) (\<lambda>r.
           bindM (check r) (\<lambda>h'. set_hello k (Replying h')))
       | _ \<Rightarrow> ret ())"
| "server_handle c cd SvAcceptClient = modify (\<lambda>x. x\<lparr>sv_clients := sv_clients x @ [Reading]\<rparr>)"
| "server_handle c cd (SvClient k frame) =
     bindM (gets (\<lambda>x. nth_conn k (sv_clients x))) (\<lambda>pc.
       case pc of
         Reading \<Rightarrow> bindM (at_replica (client_frame c cd frame)) (set_client k)
       | _ \<Rightarrow> ret ())"
| "server_handle c cd (SvPoll k) =
     bindM (gets (\<lambda>x. nth_conn k (sv_clients x))) (\<lambda>pc.
       case pc of
         Replying (Awaiting req) \<Rightarrow>
           bindM (at_replica (replyRequest req)) (\<lambda>poll.
           bindM (check (offer_reply cd req poll)) (\<lambda>r. set_client k (resume r)))
       | _ \<Rightarrow> ret ())"
| "server_handle c cd (SvSendReply k) =
     bindM (gets (\<lambda>x. nth_conn k (sv_clients x))) (\<lambda>pc.
       case pc of
         Replying (SendingReply bs) \<Rightarrow> set_client k Reading
       | _ \<Rightarrow> ret ())"
| "server_handle c cd SvTerminate =
     bindM (gets sv_stopped) (\<lambda>stopped.
       if stopped then throw (Panic ''close of closed channel'')
       else modify (\<lambda>x. x\<lparr>sv_stopped := True\<rparr>))"
| "server_handle c cd SvStopTimers =
     bindM (gets sv_stopped) (\<lambda>stopped. if stopped then at_replica stopTimers else ret ())"
| "server_handle c cd (SvQuitPeer p) =
     bindM (gets (\<lambda>x. sv_stopped x \<and> map_of (sv_peers x) p \<noteq> None)) (\<lambda>quit.
       if quit then set_peer p (Greeted Returned) else ret ())"
| "server_handle c cd (SvQuitHello k) =
     bindM (gets (\<lambda>x. (sv_stopped x, nth_conn k (sv_hellos x)))) (\<lambda>(stopped, pc).
       if stopped then set_hello k (quit_conn pc) else ret ())"
| "server_handle c cd (SvQuitClient k) =
     bindM (gets (\<lambda>x. (sv_stopped x, nth_conn k (sv_clients x)))) (\<lambda>(stopped, pc).
       if stopped then set_client k (quit_conn pc) else ret ())"

inductive server_reach :: "config \<Rightarrow> codec \<Rightarrow> (u32 \<Rightarrow> bool) \<Rightarrow> server \<Rightarrow> bool" for c cd connects where
  server_new: "new_server c connects = Inr x \<Longrightarrow> server_reach c cd connects x"
| server_more: "server_reach c cd connects x \<Longrightarrow> server_handle c cd e x = (x', r) \<Longrightarrow> \<not> is_panic r \<Longrightarrow>
    server_reach c cd connects x'"

section \<open>The connections refine the events of the replica\<close>

text \<open>What happens to the node of a replica: nothing, or one of its events.\<close>

definition node_moves :: "config \<Rightarrow> node \<Rightarrow> node \<Rightarrow> bool" where
  "node_moves c y y' \<longleftrightarrow> y' = y \<or> (\<exists>e. node_step c y e y')"

lemma node_moves_refl [simp]: "node_moves c y y" "node_moves c y (y\<lparr>nd_replica := nd_replica y\<rparr>)"
  by (simp_all add: node_moves_def)

lemma handled_moves:
  assumes "m (nd_replica y) = (s', r)" and "\<not> is_panic r"
    and "unless_panic m k" and "handle_event c e = run_on k"
  shows "node_moves c y (y\<lparr>nd_replica := s'\<rparr>)"
proof -
  have "k (nd_replica y) = (s', r)" using assms(1-3) unfolding unless_panic_def by (metis snd_conv)
  then obtain r' where "handle_event c e y = (y\<lparr>nd_replica := s'\<rparr>, r')" "\<not> is_panic r'"
    using assms(2,4) is_panic_Inl_cast by (cases r) (auto simp: run_on_def)
  then show ?thesis unfolding node_moves_def by (blast intro: node_step)
qed

lemma receive_frame_moves:
  assumes f: "receive_frame u h frame (nd_replica y) = (s', r)" "\<not> is_panic r"
    and h: "\<And>msg s' r. h msg (nd_replica y) = (s', r) \<Longrightarrow> \<not> is_panic r \<Longrightarrow> node_moves c y (y\<lparr>nd_replica := s'\<rparr>)"
  shows "node_moves c y (y\<lparr>nd_replica := s'\<rparr>)"
proof (cases "\<exists>bs msg. frame = Some bs \<and> NewFromBinary u bs = Inr msg")
  case True
  then obtain bs msg where m: "frame = Some bs" "NewFromBinary u bs = Inr msg" by blast
  obtain s1 r1 where run: "h msg (nd_replica y) = (s1, r1)" by fastforce
  have "s' = s1 \<and> \<not> is_panic r1"
    using f m run by (cases r1; cases "projl r1") (auto simp: receive_frame_def split: option.splits)
  with h [OF run] show ?thesis by simp
next
  case False
  then have "s' = nd_replica y"
    using f by (auto simp: receive_frame_def split: option.splits sum.splits go_error.splits)
  then show ?thesis by simp
qed

lemma bindM_state:
  assumes "bindM m f s = (s', r)" and "\<not> is_panic r" and "\<And>x s1. fst (f x s1) = s1"
  shows "\<exists>r'. m s = (s', r') \<and> \<not> is_panic r'"
proof -
  obtain s1 r1 where m: "m s = (s1, r1)" by fastforce
  show ?thesis
  proof (cases r1)
    case (Inl e)
    with m assms(1,2) is_panic_Inl_cast [of e] show ?thesis by (auto simp: bindM_def)
  next
    case (Inr x)
    with m assms(1) assms(3) [of x s1] show ?thesis by (auto simp: bindM_def)
  qed
qed

lemma peer_frame_moves:
  assumes "peer_frame c cd frame (nd_replica y) = (s', r)" and "\<not> is_panic r"
  shows "node_moves c y (y\<lparr>nd_replica := s'\<rparr>)"
  using assms unfolding peer_frame_def
proof (rule receive_frame_moves)
  fix msg s' and r :: "unit option result"
  assume run: "bindM (handlePeerMsg c msg) (\<lambda>new. ret None) (nd_replica y) = (s', r)" "\<not> is_panic r"
  from bindM_state [OF run] obtain r' where "handlePeerMsg c msg (nd_replica y) = (s', r')" "\<not> is_panic r'"
    by (auto simp: ret_def)
  from handled_moves [OF this peer_msg, of c "EvPeer (view_msg msg)"]
  show "node_moves c y (y\<lparr>nd_replica := s'\<rparr>)" by simp
qed

lemma client_frame_moves:
  assumes "client_frame c cd frame (nd_replica y) = (s', r)" and "\<not> is_panic r"
  shows "node_moves c y (y\<lparr>nd_replica := s'\<rparr>)"
  using assms unfolding client_frame_def
proof (rule receive_frame_moves)
  fix msg s' and r :: "client_reply option result"
  let ?f = "\<lambda>(new, poll). case view_msg msg of MRequest req \<Rightarrow> check (offer_reply cd req poll) | _ \<Rightarrow> ret None"
  assume run: "bindM (handleClientMsg c msg) ?f (nd_replica y) = (s', r)" "\<not> is_panic r"
  have "fst (?f x s1) = s1" for x and s1 :: replica
    by (cases x) (auto simp: check_def ret_def split: message.splits)
  from bindM_state [OF run this] obtain r' where "handleClientMsg c msg (nd_replica y) = (s', r')" "\<not> is_panic r'"
    by auto
  from handled_moves [OF this client_msg, of c "EvClient (view_msg msg)"]
  show "node_moves c y (y\<lparr>nd_replica := s'\<rparr>)" by simp
qed

lemma hello_frame_reads: "hello_frame c cd frame s = (s', r) \<Longrightarrow> s' = s"
  unfolding hello_frame_def receive_frame_def
  by (auto simp: bindM_def check_def serve_hello_def split: option.splits sum.splits go_error.splits prod.splits)

lemma at_replica_node: "at_replica m x = (x', r) \<Longrightarrow> \<exists>s'. m (nd_replica (sv_node x)) = (s', r) \<and>
    x' = x\<lparr>sv_node := (sv_node x)\<lparr>nd_replica := s'\<rparr>\<rparr>"
  by (auto simp: at_replica_def split: prod.splits)

text \<open>\<open>moves c m\<close>: the operation \<open>m\<close> of the server does at most one event of the replica.\<close>

definition moves :: "config \<Rightarrow> 'a server_op \<Rightarrow> bool" where
  "moves c m \<longleftrightarrow> (\<forall>x x' r. m x = (x', r) \<longrightarrow> \<not> is_panic r \<longrightarrow> node_moves c (sv_node x) (sv_node x'))"

text \<open>\<open>stays m\<close>: it leaves the replica alone.\<close>

definition stays :: "'a server_op \<Rightarrow> bool" where
  "stays m \<longleftrightarrow> (\<forall>x. sv_node (fst (m x)) = sv_node x)"

lemma stays_moves: "stays m \<Longrightarrow> moves c m"
  unfolding stays_def moves_def by (metis fst_conv node_moves_refl(1))

lemma stays_basic:
  "stays (ret v)" "stays (gets f)" "stays (check res)" "stays (throw e)" "stays (set_peer p pc)"
  "stays (set_hello k hc)" "stays (set_client k cc)"
  by (simp_all add: stays_def ret_def gets_def check_def throw_def modify_def set_peer_def set_hello_def set_client_def)

lemma moves_then: "moves c m \<Longrightarrow> (\<And>v. stays (f v)) \<Longrightarrow> moves c (bindM m f)"
  unfolding moves_def
proof (intro allI impI)
  fix x x' and r :: "'b result"
  assume m: "\<forall>x x' r. m x = (x', r) \<longrightarrow> \<not> is_panic r \<longrightarrow> node_moves c (sv_node x) (sv_node x')"
    and f: "\<And>v. stays (f v)" and run: "bindM m f x = (x', r)" "\<not> is_panic r"
  obtain x1 r1 where 1: "m x = (x1, r1)" by fastforce
  have "sv_node x' = sv_node x1 \<and> \<not> is_panic r1"
    using run 1 f is_panic_Inl_cast by (cases r1) (auto simp: bindM_def stays_def, metis fst_conv)
  with m 1 show "node_moves c (sv_node x) (sv_node x')" by metis
qed

lemma stays_then: "stays m \<Longrightarrow> (\<And>v. moves c (f v)) \<Longrightarrow> moves c (bindM m f)"
  unfolding moves_def stays_def
proof (intro allI impI)
  fix x x' and r :: "'b result"
  assume m: "\<forall>x. sv_node (fst (m x)) = sv_node x"
    and f: "\<And>v. \<forall>x x' r. f v x = (x', r) \<longrightarrow> \<not> is_panic r \<longrightarrow> node_moves c (sv_node x) (sv_node x')"
    and run: "bindM m f x = (x', r)" "\<not> is_panic r"
  obtain x1 r1 where 1: "m x = (x1, r1)" by fastforce
  then have "sv_node x1 = sv_node x" using m by (metis fst_conv)
  with 1 run f show "node_moves c (sv_node x) (sv_node x')" by (cases r1) (auto simp: bindM_def, metis)
qed

lemma moves_at:
  "(\<And>y s' r. m (nd_replica y) = (s', r) \<Longrightarrow> \<not> is_panic r \<Longrightarrow> node_moves c y (y\<lparr>nd_replica := s'\<rparr>)) \<Longrightarrow>
   moves c (at_replica m)"
  unfolding moves_def by (auto dest!: at_replica_node)

lemma moves_parts:
  "moves c (at_replica (peer_frame c cd frame))" "moves c (at_replica (client_frame c cd frame))"
  "moves c (at_replica (hello_frame c cd frame))" "moves c (at_replica (replyRequest req))" "moves c (at_replica stopTimers)"
proof -
  show "moves c (at_replica (peer_frame c cd frame))" by (rule moves_at) (rule peer_frame_moves)
  show "moves c (at_replica (client_frame c cd frame))" by (rule moves_at) (rule client_frame_moves)
  show "moves c (at_replica (hello_frame c cd frame))" by (rule moves_at) (auto dest!: hello_frame_reads)
  show "moves c (at_replica (replyRequest req))"
    by (rule moves_at) (auto simp: replyRequest_def bindM_def gets_def check_def)
  show "moves c (at_replica stopTimers)"
    by (rule moves_at) (rule handled_moves [OF _ _ unless_refl, where e = EvStop], simp_all)
qed

lemma stays_modify: "(\<And>x. sv_node (f x) = sv_node x) \<Longrightarrow> stays (modify f)"
  by (simp add: stays_def modify_def)

lemma stays_bindM: "stays m \<Longrightarrow> (\<And>v. stays (f v)) \<Longrightarrow> stays (bindM m f)"
  by (auto simp: stays_def bindM_def split: prod.splits sum.splits) (metis fst_conv)+

lemmas stays_intros = stays_basic stays_modify stays_bindM

lemma server_moves: "moves c (server_handle c cd e)"
proof (cases e)
  case (SvInternal i)
  then show ?thesis
    by (auto simp: moves_def node_moves_def ret_def split: prod.splits intro: node_step)
next
  case (SvPeer p frame)
  show ?thesis unfolding SvPeer server_handle.simps
    by (rule stays_then [OF stays_basic(2)])
      (auto intro!: moves_then moves_parts stays_basic stays_moves [OF stays_basic(1)])
next
  case (SvHello k frame)
  show ?thesis unfolding SvHello server_handle.simps
    by (rule stays_then [OF stays_basic(2)])
      (auto intro!: moves_then moves_parts stays_basic stays_moves [OF stays_basic(1)] split: conn.splits)
next
  case (SvClient k frame)
  show ?thesis unfolding SvClient server_handle.simps
    by (rule stays_then [OF stays_basic(2)])
      (auto intro!: moves_then moves_parts stays_basic stays_moves [OF stays_basic(1)] split: conn.splits)
next
  case (SvPoll k)
  show ?thesis unfolding SvPoll server_handle.simps
    by (rule stays_then [OF stays_basic(2)])
      (auto intro!: moves_then moves_parts stays_intros stays_moves [OF stays_basic(1)]
        split: conn.splits client_reply.splits)
next
  case SvStopTimers
  show ?thesis unfolding SvStopTimers server_handle.simps
    by (rule stays_then [OF stays_basic(2)]) (auto intro!: moves_parts stays_moves [OF stays_basic(1)])
qed (rule stays_moves, auto intro!: stays_intros split: conn.splits client_reply.splits)+

lemma server_node_reach: "server_reach c cd connects x \<Longrightarrow> node_reach c (sv_node x)"
proof (induction rule: server_reach.induct)
  case (server_new x)
  then show ?case
    by (auto simp: new_server_def split: sum.splits prod.splits intro: reach_init)
next
  case (server_more x e x' r)
  then have "node_moves c (sv_node x) (sv_node x')" using server_moves [of c cd e] by (auto simp: moves_def)
  with server_more.IH show ?case by (auto simp: node_moves_def intro: reach_step)
qed

section \<open>What a peer is sent\<close>

text \<open>
  A stream has sent, of its generation of the log, the messages before those it has fetched. What a
  stream of an older generation has sent is of no further use to the peer.
\<close>

definition supply_ok :: "log_state \<Rightarrow> log_supply \<Rightarrow> bool" where
  "supply_ok l su \<longleftrightarrow>
     (let st = su_stream su in
        st_pc st \<noteq> Closed \<and> st_gen st \<le> resets l \<and>
        (st_gen st = resets l \<longrightarrow>
           st_next st \<le> length (msgs l) \<and> su_out su @ st_buf st = take (st_next st) (msgs l) \<and>
           (st_pc st = AtTop \<longrightarrow> st_buf st = [])))"

text \<open>A stream that can do nothing until the log changes.\<close>

definition supply_idle :: "log_state \<Rightarrow> log_supply \<Rightarrow> bool" where
  "supply_idle l su \<longleftrightarrow>
     (let st = su_stream su in
        st_pc st = Sending \<and> st_gen st = resets l \<and> st_buf st = [] \<and> st_next st = length (msgs l))"

lemma supply_open: "supply_ok l (open_supply l)"
  by (simp add: supply_ok_def open_supply_def open_stream_def)

lemma supply_idle_out: "supply_ok l su \<Longrightarrow> supply_idle l su \<Longrightarrow> su_out su = Messages l"
  by (simp add: supply_ok_def supply_idle_def Let_def Messages_def)

lemma supply_grows: "supply_ok l su \<Longrightarrow> log_grows l l' \<Longrightarrow> supply_ok l' su"
  by (auto simp: supply_ok_def log_grows_def Let_def)

lemma supply_advance_ok: "supply_ok l su \<Longrightarrow> \<exists>su'. supply_advance l su = Inr su' \<and> supply_ok l su'"
  by (auto simp: supply_ok_def supply_advance_def advance_def fetch_def Let_def split: stream_pc.splits)

lemma supply_take_ok: "supply_ok l su \<Longrightarrow> supply_take su = Some (m, su') \<Longrightarrow> supply_ok l su'"
  by (auto simp: supply_ok_def supply_take_def Let_def split: stream_pc.splits list.splits)

text \<open>What was taken is what was sent, followed by what is on its way.\<close>

definition sent_ok :: "codec \<Rightarrow> hello_reply \<Rightarrow> bool" where
  "sent_ok cd h \<longleftrightarrow>
     (\<exists>ms. hr_taken h = ms @ (case hr_held h of None \<Rightarrow> [] | Some m \<Rightarrow> [m]) \<and>
       map (marshal_message cd) ms = map Inr (hr_sent h @ (case hr_out h of None \<Rightarrow> [] | Some bs \<Rightarrow> [bs])))"

definition hello_ok :: "codec \<Rightarrow> replica \<Rightarrow> hello_reply \<Rightarrow> bool" where
  "hello_ok cd s h \<longleftrightarrow>
     supply_ok (rs_log s) (hr_bc h) \<and> subseq (su_out (hr_bc h)) (hr_taken h) \<and> sent_ok cd h \<and>
     (\<forall>su. hr_uc h = Some su \<longrightarrow> subseq (su_out su) (hr_taken h) \<and>
        (\<exists>l. rs_unicast s (hr_peer h) = Some l \<and> supply_ok l su))"

lemma hello_ok_grows: "hello_ok cd s h \<Longrightarrow> logs_from (rs_log s) (rs_unicast s) s' \<Longrightarrow> hello_ok cd s' h"
  unfolding hello_ok_def logs_from_def using supply_grows by metis

lemma hello_ok_serve: "serve_hello p s = (s', Inr (Some h)) \<Longrightarrow> hello_ok cd s h"
  by (auto simp: serve_hello_def hello_ok_def sent_ok_def supply_open) (simp_all add: open_supply_def)

lemma supply_advance_out:
  "supply_advance l su = Inr su' \<Longrightarrow> su_out su' = [] \<or> su_out su' = su_out su"
  by (auto simp: supply_advance_def split: sum.splits if_splits)

lemma supply_take_out: "supply_take su = Some (m, su') \<Longrightarrow> su_out su' = su_out su @ [m]"
  by (auto simp: supply_take_def split: stream_pc.splits list.splits)

lemma sent_take: "sent_ok cd h \<Longrightarrow> hr_held h = None \<Longrightarrow> sent_ok cd (h\<lparr>hr_held := Some m, hr_taken := hr_taken h @ [m]\<rparr>)"
  by (auto simp: sent_ok_def)

lemma subseq_taken: "subseq xs ys \<Longrightarrow> subseq (xs @ [m]) (ys @ [m]) \<and> subseq xs (ys @ [m])"
  by (auto intro: list_emb_append_mono subseq_order.trans)

lemma hello_ok_takes:
  assumes h: "hello_ok cd s h" "hr_held h = None"
  shows hello_ok_bc: "supply_take (hr_bc h) = Some (m, su) \<Longrightarrow>
      hello_ok cd s (h\<lparr>hr_bc := su, hr_held := Some m, hr_taken := hr_taken h @ [m]\<rparr>)"
    and hello_ok_uc: "hr_uc h = Some su0 \<Longrightarrow> supply_take su0 = Some (m, su) \<Longrightarrow>
      hello_ok cd s (h\<lparr>hr_uc := Some su, hr_held := Some m, hr_taken := hr_taken h @ [m]\<rparr>)"
proof -
  have sent: "sent_ok cd (h\<lparr>hr_bc := su, hr_held := Some m, hr_taken := hr_taken h @ [m]\<rparr>)"
    "sent_ok cd (h\<lparr>hr_uc := Some su, hr_held := Some m, hr_taken := hr_taken h @ [m]\<rparr>)"
    using h by (simp_all add: hello_ok_def sent_ok_def)
  have sub: "subseq xs (hr_taken h) \<Longrightarrow> subseq xs (hr_taken h @ [m])" for xs using subseq_taken by blast
  show "hello_ok cd s (h\<lparr>hr_bc := su, hr_held := Some m, hr_taken := hr_taken h @ [m]\<rparr>)"
    if "supply_take (hr_bc h) = Some (m, su)"
    using h sent(1) sub supply_take_ok [OF _ that] supply_take_out [OF that] subseq_taken [of "su_out (hr_bc h)"]
    by (simp add: hello_ok_def)
  show "hello_ok cd s (h\<lparr>hr_uc := Some su, hr_held := Some m, hr_taken := hr_taken h @ [m]\<rparr>)"
    if "hr_uc h = Some su0" "supply_take su0 = Some (m, su)"
    using h sent(2) sub that(1) supply_take_ok [OF _ that(2)] supply_take_out [OF that(2)] subseq_taken [of "su_out su0"]
    by (auto simp: hello_ok_def)
qed

lemma hello_ok_next: "hello_ok cd s h \<Longrightarrow> hello_next cd s mv h = Inr h' \<Longrightarrow> hello_ok cd s h'"
proof (cases mv)
  case AdvanceBroadcast
  assume a: "hello_ok cd s h" "hello_next cd s mv h = Inr h'"
  then obtain su where "supply_advance (rs_log s) (hr_bc h) = Inr su" "supply_ok (rs_log s) su"
    using supply_advance_ok unfolding hello_ok_def by blast
  moreover from this have "su_out su = [] \<or> su_out su = su_out (hr_bc h)" using supply_advance_out by blast
  ultimately show ?thesis using a AdvanceBroadcast by (auto simp: hello_ok_def sent_ok_def)
next
  case AdvanceUnicast
  assume a: "hello_ok cd s h" "hello_next cd s mv h = Inr h'"
  show ?thesis
  proof (cases "hr_uc h")
    case None
    with a AdvanceUnicast show ?thesis by (auto split: option.splits)
  next
    case (Some su)
    with a(1) obtain l where l: "rs_unicast s (hr_peer h) = Some l" "supply_ok l su" "subseq (su_out su) (hr_taken h)"
      by (auto simp: hello_ok_def)
    from supply_advance_ok [OF l(2)] obtain su' where "supply_advance l su = Inr su'" "supply_ok l su'" by blast
    moreover from this have "su_out su' = [] \<or> su_out su' = su_out su" by (metis supply_advance_out)
    ultimately show ?thesis using a l Some AdvanceUnicast by (auto simp: hello_ok_def sent_ok_def)
  qed
next
  case TakeBroadcast
  assume "hello_ok cd s h" "hello_next cd s mv h = Inr h'"
  with TakeBroadcast show ?thesis by (auto split: option.splits intro: hello_ok_bc)
next
  case TakeUnicast
  assume "hello_ok cd s h" "hello_next cd s mv h = Inr h'"
  with TakeUnicast show ?thesis by (auto split: option.splits bind_splits intro: hello_ok_uc)
next
  case Relay
  assume "hello_ok cd s h" "hello_next cd s mv h = Inr h'"
  with Relay show ?thesis
    by (auto split: option.splits sum.splits simp: hello_ok_def sent_ok_def)
next
  case SendOut
  assume "hello_ok cd s h" "hello_next cd s mv h = Inr h'"
  with SendOut show ?thesis
    by (auto split: option.splits simp: hello_ok_def sent_ok_def)
qed

text \<open>A connection on which no move changes anything has sent everything.\<close>

lemma supply_stuck:
  assumes "supply_ok l su" and "supply_advance l su = Inr su" and "supply_take su = None"
  shows "su_out su = Messages l"
proof -
  have "supply_idle l su"
    using assms
    by (cases su, cases "su_stream su", cases "st_pc (su_stream su)")
      (auto simp: supply_ok_def supply_idle_def supply_advance_def advance_def fetch_def supply_take_def Let_def
        split: if_splits list.splits)
  with assms(1) show ?thesis by (rule supply_idle_out)
qed

lemma hello_advances: "hello_ok cd s h \<Longrightarrow>
    (\<exists>h'. hello_next cd s AdvanceBroadcast h = Inr h') \<and> (\<exists>h'. hello_next cd s AdvanceUnicast h = Inr h')"
proof
  assume ok: "hello_ok cd s h"
  then show "\<exists>h'. hello_next cd s AdvanceBroadcast h = Inr h'"
    using supply_advance_ok [of "rs_log s" "hr_bc h"] by (auto simp: hello_ok_def)
  show "\<exists>h'. hello_next cd s AdvanceUnicast h = Inr h'"
  proof (cases "hr_uc h")
    case (Some su)
    with ok obtain l where "rs_unicast s (hr_peer h) = Some l" "supply_ok l su" by (auto simp: hello_ok_def)
    with Some supply_advance_ok [of l su] show ?thesis by auto
  qed (simp split: option.split)
qed

lemma hello_stuck:
  assumes ok: "hello_ok cd s h" and stuck: "\<And>mv. hello_next cd s mv h = Inr h"
  shows "\<exists>ms. map (marshal_message cd) ms = map Inr (hr_sent h) \<and> subseq (Messages (rs_log s)) ms \<and>
    (\<forall>l. hr_uc h \<noteq> None \<longrightarrow> rs_unicast s (hr_peer h) = Some l \<longrightarrow> subseq (Messages l) ms)"
proof -
  have out: "hr_out h = None"
    using stuck [of SendOut] by (cases h) (auto split: option.splits)
  then have held: "hr_held h = None"
    using stuck [of Relay] by (cases h) (auto split: option.splits sum.splits)
  have bc: "su_out (hr_bc h) = Messages (rs_log s)"
  proof (rule supply_stuck)
    show "supply_ok (rs_log s) (hr_bc h)" using ok by (simp add: hello_ok_def)
    show "supply_advance (rs_log s) (hr_bc h) = Inr (hr_bc h)"
      using stuck [of AdvanceBroadcast] by (cases h) (auto split: sum.splits)
    show "supply_take (hr_bc h) = None"
      using stuck [of TakeBroadcast] held by (cases h) (auto split: option.splits)
  qed
  have uc: "subseq (Messages l) (hr_taken h)" if l: "hr_uc h = Some su" "rs_unicast s (hr_peer h) = Some l" for su l
  proof -
    have "su_out su = Messages l"
    proof (rule supply_stuck)
      show "supply_ok l su" using ok l by (simp add: hello_ok_def)
      show "supply_advance l su = Inr su"
        using stuck [of AdvanceUnicast] l by (cases h) (auto split: sum.splits)
      show "supply_take su = None"
        using stuck [of TakeUnicast] held l by (cases h) (auto split: option.splits)
    qed
    with ok l show ?thesis by (auto simp: hello_ok_def)
  qed
  have "subseq (Messages (rs_log s)) (hr_taken h)" using ok bc by (auto simp: hello_ok_def)
  moreover have "map (marshal_message cd) (hr_taken h) = map Inr (hr_sent h)"
    using ok out held by (auto simp: hello_ok_def sent_ok_def)
  ultimately show ?thesis using uc by (intro exI [of _ "hr_taken h"]) auto
qed

text \<open>The connections to peers after an event: those before it, a new one, or one that has moved.\<close>

lemma bindM_run: "bindM m f s = (s', r) \<Longrightarrow> m s = (s1, Inr v) \<Longrightarrow> f v s1 = (s', r)"
  by (simp add: bindM_def)

lemma bindM_fail: "bindM m f s = (s', r) \<Longrightarrow> m s = (s1, Inl e) \<Longrightarrow> s' = s1 \<and> r = Inl e"
  by (simp add: bindM_def)

definition hello_from :: "config \<Rightarrow> codec \<Rightarrow> server \<Rightarrow> hello_reply \<Rightarrow> bool" where
  "hello_from c cd x h \<longleftrightarrow> Replying h \<in> set (sv_hellos x) \<or>
     (\<exists>p. serve_hello p (nd_replica (sv_node x)) = (nd_replica (sv_node x), Inr (Some h))) \<or>
     (\<exists>mv h0. Replying h0 \<in> set (sv_hellos x) \<and> hello_next cd (nd_replica (sv_node x)) mv h0 = Inr h)"

definition keeps_hellos :: "'a server_op \<Rightarrow> bool" where
  "keeps_hellos m \<longleftrightarrow> (\<forall>x. set (sv_hellos (fst (m x))) \<subseteq> set (sv_hellos x) \<union> {Reading, Returned})"

lemma keeps_hellos_basic:
  "keeps_hellos (ret v)" "keeps_hellos (gets f)" "keeps_hellos (check res)" "keeps_hellos (throw e)" "keeps_hellos (set_peer p pc)"
  "keeps_hellos (set_client k cc)" "keeps_hellos (at_replica m)" "keeps_hellos (set_hello k (quit_conn pc'))"
  by (auto simp: keeps_hellos_def ret_def gets_def check_def throw_def modify_def set_peer_def set_client_def
      set_hello_def at_replica_def split: prod.splits dest!: set_update_subset_insert [THEN subsetD])
    (cases pc'; simp)

lemma keeps_hellos_modify:
  "(\<And>x. set (sv_hellos (f x)) \<subseteq> set (sv_hellos x) \<union> {Reading, Returned}) \<Longrightarrow> keeps_hellos (modify f)"
  by (simp add: keeps_hellos_def modify_def)

lemma keeps_hellos_bindM: "keeps_hellos m \<Longrightarrow> (\<And>v. keeps_hellos (f v)) \<Longrightarrow> keeps_hellos (bindM m f)"
  by (auto simp: keeps_hellos_def bindM_def split: prod.splits sum.splits) (metis (no_types, lifting) fst_conv insert_iff subsetD Un_iff)+

lemma keeps_hellos_from: "keeps_hellos m \<Longrightarrow> m x = (x', r) \<Longrightarrow> Replying h \<in> set (sv_hellos x') \<Longrightarrow>
    hello_from c cd x h"
  unfolding keeps_hellos_def hello_from_def by (metis (no_types, lifting) UnE conn.distinct(1,5) empty_iff fst_conv insert_iff subsetD)

lemma hello_frame_serves:
  "hello_frame c cd frame s = (s', Inr (Replying h)) \<Longrightarrow> \<exists>p. serve_hello p s = (s, Inr (Some h))"
  unfolding hello_frame_def receive_frame_def
  by (auto simp: bindM_def check_def serve_hello_def split: option.splits sum.splits go_error.splits prod.splits)

lemma nth_conn_mem: "nth_conn k xs \<noteq> Returned \<Longrightarrow> nth_conn k xs \<in> set xs"
  by (auto simp: nth_conn_def split: if_splits)

lemma set_hello_mem: "set_hello k pc x = (x', r) \<Longrightarrow> Replying h \<in> set (sv_hellos x') \<Longrightarrow>
    Replying h \<in> set (sv_hellos x) \<or> pc = Replying h"
  by (auto simp: set_hello_def modify_def dest!: set_update_subset_insert [THEN subsetD])

lemma server_hellos:
  assumes run: "server_handle c cd e x = (x', r)" and mem: "Replying h \<in> set (sv_hellos x')"
  shows "hello_from c cd x h"
proof (cases e)
  case (SvHello k frame)
  show ?thesis
  proof (cases "nth_conn k (sv_hellos x) = Reading")
    case True
    obtain s1 r1 where f: "hello_frame c cd frame (nd_replica (sv_node x)) = (s1, r1)" by fastforce
    have run': "bindM (at_replica (hello_frame c cd frame)) (set_hello k) x = (x', r)"
      using run SvHello True by (simp add: bindM_def gets_def)
    show ?thesis
    proof (cases r1)
      case (Inl err)
      with bindM_fail [OF run'] f mem show ?thesis by (auto simp: at_replica_def hello_from_def)
    next
      case (Inr pc)
      from bindM_run [OF run'] f Inr have set: "set_hello k pc (x\<lparr>sv_node := (sv_node x)\<lparr>nd_replica := s1\<rparr>\<rparr>) = (x', r)"
        by (simp add: at_replica_def)
      from set_hello_mem [OF this mem] f Inr hello_frame_serves show ?thesis by (fastforce simp: hello_from_def)
    qed
  next
    case False
    with run SvHello have "x' = x" by (auto simp: bindM_def gets_def ret_def split: conn.splits)
    with mem show ?thesis by (simp add: hello_from_def)
  qed
next
  case (SvHelloMove k mv)
  show ?thesis
  proof (cases "nth_conn k (sv_hellos x)")
    case (Replying h0)
    then have h0: "Replying h0 \<in> set (sv_hellos x)" using nth_conn_mem [of k "sv_hellos x"] by simp
    show ?thesis
    proof (cases "hello_next cd (nd_replica (sv_node x)) mv h0")
      case (Inl err)
      with run SvHelloMove Replying have "x' = x" by (auto simp: bindM_def gets_def check_def)
      with mem show ?thesis by (simp add: hello_from_def)
    next
      case (Inr h1)
      with run SvHelloMove Replying have "set_hello k (Replying h1) x = (x', r)"
        by (simp add: bindM_def gets_def check_def)
      from set_hello_mem [OF this mem] Inr h0 show ?thesis by (auto simp: hello_from_def)
    qed
  qed (use run mem SvHelloMove in \<open>auto simp: bindM_def gets_def ret_def hello_from_def\<close>)
qed (rule keeps_hellos_from [where m = "server_handle c cd e", OF _ run mem], auto intro!: keeps_hellos_basic keeps_hellos_modify keeps_hellos_bindM
    simp: keeps_hellos_def [of "\<lambda>x. case handle_event c _ (sv_node x) of (y, r) \<Rightarrow> (x\<lparr>sv_node := y\<rparr>, r)"]
    split: conn.splits client_reply.splits prod.splits)+

lemma node_moves_logs: "node_moves c y y' \<Longrightarrow>
    logs_from (rs_log (nd_replica y)) (rs_unicast (nd_replica y)) (nd_replica y')"
  by (auto simp: node_moves_def logs_from_refl step_logs)

lemma server_hello_ok:
  "server_reach c cd connects x \<Longrightarrow> Replying h \<in> set (sv_hellos x) \<Longrightarrow> hello_ok cd (nd_replica (sv_node x)) h"
proof (induction arbitrary: h rule: server_reach.induct)
  case (server_new x)
  then show ?case by (auto simp: new_server_def split: sum.splits prod.splits)
next
  case (server_more x e x' r)
  have "hello_ok cd (nd_replica (sv_node x)) h"
    using server_hellos [OF server_more.hyps(2) server_more.prems] server_more.IH hello_ok_serve hello_ok_next
    unfolding hello_from_def by metis
  moreover have "node_moves c (sv_node x) (sv_node x')"
    using server_moves [of c cd e] server_more.hyps(2,3) unfolding moves_def by blast
  ultimately show ?case by (blast intro: hello_ok_grows node_moves_logs)
qed

text \<open>What a peer reads is what was sent, if Protocol Buffers unmarshals what it has marshalled.\<close>

definition codec_ok :: "codec \<Rightarrow> bool" where
  "codec_ok cd \<longleftrightarrow> (\<forall>p bs. cd_marshal cd p = Inr bs \<longrightarrow> cd_unmarshal cd bs = Inr p)"

lemma sent_decodes:
  assumes "codec_ok cd" and "marshal_message cd m = Inr bs"
  shows "\<exists>obj. NewFromBinary (cd_unmarshal cd) bs = Inr obj \<and> view_msg obj = m"
proof -
  obtain p where p: "MessageFromAPI m = Inr p" "cd_marshal cd (WrapMessage p) = Inr bs"
    using assms(2) by (auto simp: marshal_message_def marshalMessage_def split: sum.splits)
  then have u: "cd_unmarshal cd bs = Inr (WrapMessage p)" using assms(1) by (simp add: codec_ok_def)
  have "\<exists>obj. typedMessageFromPb (WrapMessage p) = Inr obj \<and> view_msg obj = m"
  proof (cases m)
    case (MCertified x)
    with p(1) certified_decodes [of x] show ?thesis by (fastforce simp: MessageFromAPI_def)
  qed (use p(1) in \<open>auto simp: MessageFromAPI_def newRequestFromPb_def newReplyFromPb_def newReqViewChangeFromPb_def
      view_request_def view_reply_def view_rvc_def RequestFromAPI_def ReplyFromAPI_def ReqViewChangeFromAPI_def\<close>)
  with u show ?thesis by (simp add: NewFromBinary_def wrap_def)
qed

lemma all_sent_decode:
  assumes "codec_ok cd" and "map (marshal_message cd) ms = map Inr bss"
  shows "\<exists>objs. map (NewFromBinary (cd_unmarshal cd)) bss = map Inr objs \<and> map view_msg objs = ms"
  using assms(2)
proof (induction ms arbitrary: bss)
  case (Cons m ms)
  then obtain bs rest where b: "bss = bs # rest" "marshal_message cd m = Inr bs"
    "map (marshal_message cd) ms = map Inr rest" by (cases bss) auto
  from sent_decodes [OF assms(1) b(2)] Cons.IH [OF b(3)] b(1) obtain obj objs where
    "map (NewFromBinary (cd_unmarshal cd)) bss = map Inr (obj # objs)" "map view_msg (obj # objs) = m # ms" by auto
  then show ?case by (intro exI [of _ "obj # objs"] conjI)
qed simp

section \<open>Example\<close>

fun run_server :: "config \<Rightarrow> codec \<Rightarrow> server_event list \<Rightarrow> server \<Rightarrow> server result" where
  "run_server c cd [] x = Inr x"
| "run_server c cd (e # es) x =
     (case server_handle c cd e x of
        (x', r) \<Rightarrow> if is_panic r then Inl (projl r) else run_server c cd es x')"

lemma run_server_reach:
  "run_server c cd es x = Inr y \<Longrightarrow> server_reach c cd connects x \<Longrightarrow> server_reach c cd connects y"
  by (induction c cd es x rule: run_server.induct) (auto split: prod.splits if_splits intro: server_more)

text \<open>
  The primary of three replicas gets a request from a client; replica 1 opens a connection and is
  sent the Prepare for it. The messages of the example have one-byte encodings.
\<close>

definition demo_wire :: "(pb_message \<times> bytes) list" where
  "demo_wire =
     [(WrapMessage (PHello (newHello 1)), [1]), (WrapMessage (PRequest (Some (RequestFromAPI (demo_request 1)))), [2]),
      (WrapMessage (CertifiedFromAPI trio_prepare), [3])]"

definition demo_codec :: codec where
  "demo_codec =
     \<lparr>cd_marshal = (\<lambda>p. case map_of demo_wire p of None \<Rightarrow> Inl (Error ''unknown'') | Some bs \<Rightarrow> Inr bs),
      cd_unmarshal = (\<lambda>bs. case map_of (map prod.swap demo_wire) bs of None \<Rightarrow> Inl (Error ''unknown'') | Some p \<Rightarrow> Inr p)\<rparr>"

definition demo_session :: "server_event list" where
  "demo_session =
     [SvAcceptClient, SvClient 0 (Some [2]), SvAcceptPeer, SvHello 0 (Some [1]),
      SvHelloMove 0 AdvanceBroadcast, SvHelloMove 0 AdvanceUnicast, SvHelloMove 0 TakeBroadcast,
      SvHelloMove 0 Relay, SvHelloMove 0 SendOut]"

lemma demo_codec_ok: "codec_ok demo_codec"
  by (auto simp: codec_ok_def demo_codec_def demo_wire_def trio_prepare_def split: option.splits if_splits)

lemma demo_session_run:
  "case new_server trio_primary (\<lambda>_. True) of
     Inl e \<Rightarrow> False
   | Inr x0 \<Rightarrow>
     (case run_server trio_primary demo_codec demo_session x0 of
        Inl e \<Rightarrow> False
      | Inr x \<Rightarrow> map fst (sv_peers x) = [1, 2] \<and> length (sv_hellos x) = 1 \<and>
          Messages (rs_log (nd_replica (sv_node x))) = [MCertified trio_prepare] \<and>
          (case sv_hellos x ! 0 of
             Replying h \<Rightarrow> hr_sent h = [[3]] \<and>
               list_all (\<lambda>mv. hello_next demo_codec (nd_replica (sv_node x)) mv h = Inr h)
                 [AdvanceBroadcast, AdvanceUnicast, TakeBroadcast, TakeUnicast, Relay, SendOut]
           | _ \<Rightarrow> False))"
  by code_simp

lemma hello_session:
  obtains x h where "server_reach trio_primary demo_codec (\<lambda>_. True) x" "sv_hellos x = [Replying h]"
    "Messages (rs_log (nd_replica (sv_node x))) = [MCertified trio_prepare]" "hr_sent h = [[3]]"
    "\<forall>mv. hello_next demo_codec (nd_replica (sv_node x)) mv h = Inr h"
proof -
  from demo_session_run obtain x0 x h where x0: "new_server trio_primary (\<lambda>_. True) = Inr x0"
    and x: "run_server trio_primary demo_codec demo_session x0 = Inr x" and l: "length (sv_hellos x) = 1" "sv_hellos x ! 0 = Replying h"
    and rest: "Messages (rs_log (nd_replica (sv_node x))) = [MCertified trio_prepare]" "hr_sent h = [[3]]"
      "list_all (\<lambda>mv. hello_next demo_codec (nd_replica (sv_node x)) mv h = Inr h)
         [AdvanceBroadcast, AdvanceUnicast, TakeBroadcast, TakeUnicast, Relay, SendOut]"
    by (simp split: sum.splits conn.splits)
  have "hello_next demo_codec (nd_replica (sv_node x)) mv h = Inr h" for mv
    using rest(3) by (cases mv) (simp_all del: hello_next.simps)
  moreover have "sv_hellos x = [Replying h]" using l by (cases "sv_hellos x") auto
  ultimately show thesis using that run_server_reach [OF x server_new [OF x0]] rest(1,2) by blast
qed

section \<open>Properties\<close>





text \<open>
  C18: \<open>startPeerConnections\<close> ends for every number of replicas, although its loop counts in 32 bits.
  It connects in the order of the identifiers to every replica but itself, once each; if the connector has
  no stream for one of them it returns an error after those before it.
\<close>

theorem startPeerConnections_ends:
  "\<exists>ps. startPeerConnections i n connects 0 [] =
     (takeWhile connects ps, if list_all connects ps then Inr () else Inl (Error ''connection not possible'')) \<and>
     distinct ps \<and> sorted ps \<and> set ps = {p. p < n \<and> p \<noteq> i}"
  using startPeerConnections_eq [of i n connects 0 "[]"] peers_from_distinct [of i 0 n] peers_from_sorted [of i n]
    peers_from_set [of i n] by auto

end
