(* ===== verification/ClientConnections.thy ===== *)
theory ClientConnections
  imports EndToEnd Connections
begin

text \<open>
  The connections of a client to the replicas (\<open>client/message-handling.go\<close>): one goroutine per replica
  that writes the requests of the buffer to the connection, and one that reads the replies. The client
  with its connections is a transition system on top of the one of \<open>Client\<close> and of the streams of
  \<open>RequestBuffer\<close>.
\<close>

section \<open>Starting the connections\<close>

text \<open>\<open>connects i\<close> tells if the connector has a stream handler for replica \<open>i\<close>.\<close>

definition makeReplicaConnector :: "(u32 \<Rightarrow> bool) \<Rightarrow> u32 \<Rightarrow> unit result" where
  "makeReplicaConnector connects replicaID =
     (if connects replicaID then Inr () else Inl (Error ''connection not possible''))"

definition startReplicaConnection :: "(u32 \<Rightarrow> bool) \<Rightarrow> u32 \<Rightarrow> u32 list \<Rightarrow> u32 list \<times> unit result" where
  "startReplicaConnection connects replicaID started =
     (case makeReplicaConnector connects replicaID of
        Inl e \<Rightarrow> (started, Inl e)
      | Inr _ \<Rightarrow> (started @ [replicaID], Inr ()))"

function startReplicaConnections :: "u32 \<Rightarrow> (u32 \<Rightarrow> bool) \<Rightarrow> u32 \<Rightarrow> u32 list \<Rightarrow> u32 list \<times> unit result" where
  "startReplicaConnections n connects i started =
     (if \<not> i < n then (started, Inr ())
      else case startReplicaConnection connects i started of
             (started', Inl e) \<Rightarrow> (started', Inl e)
           | (started', Inr _) \<Rightarrow> startReplicaConnections n connects (i + 1) started')"
  by auto

termination
  by (relation "measure (\<lambda>(n, _, i, _). unat n - unat i)") (simp_all add: loop_measure)

declare startReplicaConnections.simps [simp del]

lemma startReplicaConnections_length:
  "startReplicaConnections n connects i started = (ps, Inr ()) \<Longrightarrow>
   length ps = length started + (unat n - unat i)"
proof (induction n connects i started rule: startReplicaConnections.induct)
  case (1 n connects i started)
  from 1 show ?case
    by (subst (asm) (2) startReplicaConnections.simps)
      (auto split: if_splits simp: startReplicaConnection_def makeReplicaConnector_def unat_Suc_less word_less_nat_alt)
qed

section \<open>State\<close>

text \<open>
  The goroutine that writes to a connection: its stream of requests (None until it has asked the buffer
  for one), the bytes it is about to write, and whether it has returned. \<open>oc_sent\<close> records what was
  written.
\<close>

record out_conn =
  oc_stream :: "nat option"
  oc_held :: "bytes option"
  oc_returned :: bool
  oc_sent :: "bytes list"

record client_net =
  cn_client :: client
  cn_streams :: "rstream list"
  cn_out :: "out_conn list"
  cn_in :: "bool list"

type_synonym 'a net_op = "(client_net, 'a) handler"

definition new_out :: out_conn where
  "new_out = \<lparr>oc_stream = None, oc_held = None, oc_returned = False, oc_sent = []\<rparr>"

definition new_net :: "client_config \<Rightarrow> (u32 \<Rightarrow> bool) \<Rightarrow> u64 \<Rightarrow> client_net result" where
  "new_net c connects now =
     (case new_client c now of
        Inl e \<Rightarrow> Inl e
      | Inr s \<Rightarrow>
          (case startReplicaConnections (cc_n c) connects 0 [] of
             (_, Inl e) \<Rightarrow> Inl e
           | (ps, Inr _) \<Rightarrow>
               Inr \<lparr>cn_client = s, cn_streams = [], cn_out = map (\<lambda>_. new_out) ps, cn_in = map (\<lambda>_. True) ps\<rparr>))"

section \<open>Writing requests\<close>

text \<open>
  \<open>OpenStream\<close> starts \<open>supplyRequests\<close>; \<open>LookUp\<close>, \<open>SkipRemoved\<close>, \<open>Wake\<close> and \<open>CancelStream\<close> are its moves,
  and \<open>TakeRequest\<close> is the rendezvous with the handler, which marshals the request. \<open>WriteOut\<close> hands
  the bytes to the connection, \<open>Drained\<close> is the end of the range over a closed stream, and \<open>StopWriting\<close>
  the return on stop.
\<close>

datatype out_move =
  OpenStream | LookUp | TakeRequest | SkipRemoved | Wake | CancelStream | WriteOut | Drained | StopWriting

definition set_stream :: "nat \<Rightarrow> rstream \<Rightarrow> client_net \<Rightarrow> client_net" where
  "set_stream k st x = x\<lparr>cn_streams := (cn_streams x)[k := st]\<rparr>"

definition set_out :: "nat \<Rightarrow> out_conn \<Rightarrow> client_net \<Rightarrow> client_net" where
  "set_out i oc x = x\<lparr>cn_out := (cn_out x)[i := oc]\<rparr>"

definition set_buf :: "buffer \<Rightarrow> client_net \<Rightarrow> client_net" where
  "set_buf rb x = x\<lparr>cn_client := (cn_client x)\<lparr>cl_buf := rb\<rparr>\<rparr>"

definition open_requests :: "nat \<Rightarrow> out_conn \<Rightarrow> client_net \<Rightarrow> client_net" where
  "open_requests i oc x =
     (let rb = cl_buf (cn_client x)
      in set_out i (oc\<lparr>oc_stream := Some (length (cn_streams x))\<rparr>)
           (set_buf (rb\<lparr>rb_newAdded := rb_newAdded rb @ [False]\<rparr>)
             (x\<lparr>cn_streams := cn_streams x @ [\<lparr>rq_pc = RTop, rq_lastSeq = 0, rq_sent = []\<rparr>]\<rparr>)))"

text \<open>A move of the stream \<open>k\<close>, now \<open>st\<close>, and of the handler \<open>oc\<close> of connection \<open>i\<close> that has it.\<close>

definition stream_out :: "codec \<Rightarrow> nat \<Rightarrow> out_conn \<Rightarrow> nat \<Rightarrow> rstream \<Rightarrow> out_move \<Rightarrow> unit net_op" where
  "stream_out cd i oc k st mv x =
     (let rb = cl_buf (cn_client x)
      in case (mv, rq_pc st) of
        (LookUp, RTop) \<Rightarrow> (set_stream k (stream_top rb st) x, Inr ())
      | (TakeRequest, RSending j) \<Rightarrow>
          if oc_held oc \<noteq> None \<or> oc_returned oc then (x, Inr ())
          else let req = en_request (rb_entries rb ! j);
                   x' = set_stream k (st\<lparr>rq_pc := RWaiting, rq_lastSeq := seq_at rb j, rq_sent := rq_sent st @ [req]\<rparr>) x
               in (case marshal_message cd (MRequest req) of
                     Inl e \<Rightarrow> (x', Inl e)
                   | Inr bs \<Rightarrow> (set_out i (oc\<lparr>oc_held := Some bs\<rparr>) x', Inr ()))
      | (SkipRemoved, RSending j) \<Rightarrow>
          (if en_removed (rb_entries rb ! j) then set_stream k (st\<lparr>rq_pc := RWaiting\<rparr>) x else x, Inr ())
      | (Wake, RWaiting) \<Rightarrow>
          (if k < length (rb_newAdded rb) \<and> rb_newAdded rb ! k
           then set_buf (rb\<lparr>rb_newAdded := (rb_newAdded rb)[k := False]\<rparr>) (set_stream k (st\<lparr>rq_pc := RTop\<rparr>) x)
           else x, Inr ())
      | (CancelStream, pc) \<Rightarrow>
          (if cl_stopped (cn_client x) \<and> pc \<noteq> RTop then set_stream k (st\<lparr>rq_pc := RClosed\<rparr>) x else x, Inr ())
      | (Drained, RClosed) \<Rightarrow>
          (if oc_held oc = None then set_out i (oc\<lparr>oc_returned := True\<rparr>) x else x, Inr ())
      | _ \<Rightarrow> (x, Inr ()))"

definition out_next :: "codec \<Rightarrow> nat \<Rightarrow> out_move \<Rightarrow> unit net_op" where
  "out_next cd i mv x =
     (if i \<ge> length (cn_out x) then (x, Inr ())
      else let oc = cn_out x ! i
           in case (mv, oc_stream oc) of
                (OpenStream, None) \<Rightarrow> (open_requests i oc x, Inr ())
              | (WriteOut, _) \<Rightarrow>
                  (case oc_held oc of
                     Some bs \<Rightarrow>
                       (if oc_returned oc then x
                        else set_out i (oc\<lparr>oc_held := None, oc_sent := oc_sent oc @ [bs]\<rparr>) x, Inr ())
                   | None \<Rightarrow> (x, Inr ()))
              | (StopWriting, _) \<Rightarrow>
                  (if cl_stopped (cn_client x) \<and> oc_held oc \<noteq> None then set_out i (oc\<lparr>oc_returned := True\<rparr>) x else x, Inr ())
              | (_, Some k) \<Rightarrow> stream_out cd i oc k (cn_streams x ! k) mv x
              | _ \<Rightarrow> (x, Inr ()))"

section \<open>The client with its connections\<close>

text \<open>\<open>NetClient\<close> is an event of the client other than the arrival of a message.\<close>

datatype net_event =
    NetClient client_event
  | NetReceive nat "bytes option"
  | NetStopReading nat
  | NetOut nat out_move

fun local_event :: "client_event \<Rightarrow> bool" where
  "local_event (CReceive bs) = False"
| "local_event e = True"

definition at_client :: "unit client_op \<Rightarrow> unit net_op" where
  "at_client m x = (case m (cn_client x) of (s, r) \<Rightarrow> (x\<lparr>cn_client := s\<rparr>, r))"

fun net_handle :: "client_config \<Rightarrow> codec \<Rightarrow> net_event \<Rightarrow> unit net_op" where
  "net_handle c cd (NetClient e) = (if local_event e then at_client (client_handle c e) else ret ())"
| "net_handle c cd (NetReceive i frame) =
     bindM (gets (\<lambda>x. i < length (cn_in x) \<and> cn_in x ! i)) (\<lambda>reading.
       if \<not> reading then ret ()
       else case frame of
              None \<Rightarrow> modify (\<lambda>x. x\<lparr>cn_in := (cn_in x)[i := False]\<rparr>)
            | Some msgBytes \<Rightarrow> at_client (handleIncoming c msgBytes))"
| "net_handle c cd (NetStopReading i) =
     bindM (gets (\<lambda>x. cl_stopped (cn_client x))) (\<lambda>stopped.
       if stopped then modify (\<lambda>x. x\<lparr>cn_in := (cn_in x)[i := False]\<rparr>) else ret ())"
| "net_handle c cd (NetOut i mv) = out_next cd i mv"

inductive net_reach :: "client_config \<Rightarrow> codec \<Rightarrow> (u32 \<Rightarrow> bool) \<Rightarrow> client_net \<Rightarrow> bool" for c cd connects where
  net_new: "new_net c connects now = Inr x \<Longrightarrow> net_reach c cd connects x"
| net_more: "net_reach c cd connects x \<Longrightarrow> net_handle c cd e x = (x', Inr ()) \<Longrightarrow> net_reach c cd connects x'"

section \<open>The client does not depend on its connections\<close>

text \<open>The channels on which streams are notified, which the events of the client fill but never read.\<close>

definition quiet :: "buffer \<Rightarrow> buffer" where
  "quiet rb = rb\<lparr>rb_newAdded := []\<rparr>"

definition unwired :: "client \<Rightarrow> client" where
  "unwired s = s\<lparr>cl_buf := quiet (cl_buf s)\<rparr>"

lemma quiet_ops:
  "RemoveRequest q (quiet rb) = quiet (RemoveRequest q rb)"
  "try_AddRequest m (quiet rb) = map_prod quiet id (try_AddRequest m rb)"
  "rb_AddReply r (quiet rb) = map_prod quiet id (rb_AddReply r rb)"
  by (auto simp: RemoveRequest_def try_AddRequest_def rb_AddReply_def quiet_def split: option.splits prod.splits)

lemma quiet_AddRequest: "AddRequest b m (quiet rb) = map_prod quiet id (AddRequest b m rb)"
proof -
  have "rb_lastSeq (quiet rb) = rb_lastSeq rb" by (simp add: quiet_def)
  then show ?thesis
    by (auto simp: AddRequest_def quiet_ops map_prod_def split: prod.splits added.splits)
qed

lemma quiet_proj [simp]:
  "rb_answers (quiet rb) = rb_answers rb" "rb_entries (quiet rb) = rb_entries rb" "rb_asked (quiet rb) = rb_asked rb"
  by (simp_all add: quiet_def rb_answers_def rb_asked_def fun_eq_iff)

lemma unwired_sel [simp]:
  "cl_buf (unwired s) = quiet (cl_buf s)" "cl_calls (unwired s) = cl_calls s" "cl_stopped (unwired s) = cl_stopped s"
  "cl_nextSeq (unwired s) = cl_nextSeq s"
  by (simp_all add: unwired_def)

lemma unwired_upd:
  "unwired (s\<lparr>cl_calls := xs\<rparr>) = (unwired s)\<lparr>cl_calls := xs\<rparr>" "unwired (s\<lparr>cl_buf := rb\<rparr>) = (unwired s)\<lparr>cl_buf := quiet rb\<rparr>"
  "unwired (s\<lparr>cl_stopped := b\<rparr>) = (unwired s)\<lparr>cl_stopped := b\<rparr>" "unwired (s\<lparr>cl_nextSeq := q\<rparr>) = (unwired s)\<lparr>cl_nextSeq := q\<rparr>"
  by (simp_all add: unwired_def)

lemma unwired_handle: "client_handle c e (unwired s) = map_prod unwired id (client_handle c e s)"
proof (cases e)
  case (CCall operation)
  then show ?thesis
    by (auto simp: beginCall_def prepareRequest_def constructRequest_def nextSequence_def bindM_def modify_def ret_def throw_def
        unwired_upd split: sum.splits)
next
  case (CSubmit k)
  then show ?thesis
    by (auto simp: submitRequest_def quiet_AddRequest unwired_upd split: call.splits prod.splits added.splits)
next
  case (CReceive bs)
  then show ?thesis
    by (auto simp: handleIncoming_def handleReply_def quiet_ops unwired_upd split: sum.splits go_error.splits msg_obj.splits)
next
  case (CCollect k)
  then show ?thesis
    by (auto simp: collectNext_def Let_def quiet_ops unwired_upd split: call.splits prod.splits option.splits)
next
  case (CClose k)
  then show ?thesis by (auto simp: closeReplies_def unwired_upd split: call.splits)
next
  case CTerminate
  then show ?thesis by (auto simp: Terminate_def unwired_upd)
qed

lemma set_sel [simp]:
  "cn_client (set_stream k st x) = cn_client x" "cn_client (set_out i oc x) = cn_client x"
  "cn_streams (set_out i oc x) = cn_streams x" "cn_streams (set_buf rb x) = cn_streams x"
  "cn_out (set_stream k st x) = cn_out x" "cn_out (set_buf rb x) = cn_out x"
  "cn_streams (set_stream k st x) = (cn_streams x)[k := st]" "cn_out (set_out i oc x) = (cn_out x)[i := oc]"
  "cn_client (set_buf rb x) = (cn_client x)\<lparr>cl_buf := rb\<rparr>"
  by (simp_all add: set_stream_def set_out_def set_buf_def)

lemma stream_out_client: "unwired (cn_client (fst (stream_out cd i oc k st mv x))) = unwired (cn_client x)"
  by (auto simp: stream_out_def Let_def unwired_def quiet_def split: out_move.splits rstream_pc.splits sum.splits)

lemma out_next_client: "unwired (cn_client (fst (out_next cd i mv x))) = unwired (cn_client x)"
  by (auto simp: out_next_def open_requests_def Let_def stream_out_client unwired_def [of "cn_client x\<lparr>cl_buf := _\<rparr>"]
      split: out_move.splits option.splits) (auto simp: unwired_def quiet_def)

lemma unwired_run: "client_handle c e s = (s', Inr ()) \<Longrightarrow> client_handle c e (unwired s) = (unwired s', Inr ())"
  by (simp add: unwired_handle)

lemma net_client: "net_reach c cd connects x \<Longrightarrow> client_reach c (unwired (cn_client x))"
proof (induction rule: net_reach.induct)
  case (net_new now x)
  then have "new_client c now = Inr (unwired (cn_client x))"
    by (auto simp: new_net_def new_client_def unwired_def quiet_def new_buffer_def split: sum.splits prod.splits if_splits)
  then show ?case by (rule cl_start)
next
  case (net_more x e x')
  have event: "client_reach c (unwired (cn_client x'))"
    if "at_client (client_handle c ev) x = (x', Inr ())" for ev
    using that cl_event [OF net_more.IH unwired_run] by (auto simp: at_client_def split: prod.splits)
  show ?case
  proof (cases e)
    case (NetClient ev)
    with net_more event [of ev] show ?thesis by (auto simp: ret_def split: if_splits)
  next
    case (NetReceive i frame)
    with net_more event [of "CReceive (the frame)"] show ?thesis
      by (auto simp: bindM_def gets_def ret_def modify_def split: if_splits option.splits)
  next
    case (NetStopReading i)
    with net_more show ?thesis by (auto simp: bindM_def gets_def ret_def modify_def split: if_splits)
  next
    case (NetOut i mv)
    with net_more out_next_client [of cd i mv x] show ?thesis by simp
  qed
qed

text \<open>What an event of the client does to the buffer is an operation of the buffer.\<close>

lemma client_buffer:
  assumes "client_handle c e s = (s', Inr ())" and "cl_buf s' \<noteq> cl_buf s"
  shows "rstream_step \<lparr>ss_buf = cl_buf s, ss_streams = sts\<rparr> \<lparr>ss_buf = cl_buf s', ss_streams = sts\<rparr>"
proof -
  let ?x = "\<lparr>ss_buf = cl_buf s, ss_streams = sts\<rparr>"
  have "(\<exists>b m. cl_buf s' = fst (AddRequest b m (cl_buf s))) \<or> (\<exists>r. cl_buf s' = fst (rb_AddReply r (cl_buf s))) \<or>
      (\<exists>q. cl_buf s' = RemoveRequest q (cl_buf s))"
  proof (cases e)
    case (CCall operation)
    with assms show ?thesis
      by (auto simp: beginCall_def prepareRequest_def constructRequest_def nextSequence_def bindM_def modify_def ret_def throw_def split: sum.splits)
  next
    case (CSubmit k)
    with assms show ?thesis
      by (auto simp: submitRequest_def split: if_splits call.splits prod.splits added.splits) (metis fst_conv)
  next
    case (CReceive bs)
    with assms show ?thesis
      by (auto simp: handleIncoming_def handleReply_def split: sum.splits go_error.splits msg_obj.splits)
  next
    case (CCollect k)
    with assms show ?thesis
      by (auto simp: collectNext_def Let_def split: if_splits call.splits prod.splits option.splits)
  next
    case (CClose k)
    with assms show ?thesis by (auto simp: closeReplies_def split: if_splits call.splits)
  next
    case CTerminate
    with assms show ?thesis by (auto simp: Terminate_def split: if_splits)
  qed
  then show ?thesis
    using rs_add [of ?x] rs_reply [of ?x] rs_remove [of ?x] by auto
qed

section \<open>What is written to a connection\<close>

definition request_sys :: "client_net \<Rightarrow> rstream_sys" where
  "request_sys x = \<lparr>ss_buf = cl_buf (cn_client x), ss_streams = cn_streams x\<rparr>"

definition written :: "codec \<Rightarrow> rstream list \<Rightarrow> out_conn \<Rightarrow> bool" where
  "written cd sts oc \<longleftrightarrow>
     (case oc_stream oc of
        None \<Rightarrow> oc_held oc = None \<and> oc_sent oc = []
      | Some k \<Rightarrow> k < length sts \<and>
          map (\<lambda>r. marshal_message cd (MRequest r)) (rq_sent (sts ! k)) =
            map Inr (oc_sent oc @ (case oc_held oc of None \<Rightarrow> [] | Some bs \<Rightarrow> [bs])))"

lemma written_returned [simp]: "written cd sts (oc\<lparr>oc_returned := b\<rparr>) = written cd sts oc"
  by (cases "oc_stream oc") (simp_all add: written_def)

definition net_inv :: "codec \<Rightarrow> client_net \<Rightarrow> bool" where
  "net_inv cd x \<longleftrightarrow> rstream_reach (request_sys x) \<and> list_all (written cd (cn_streams x)) (cn_out x) \<and>
     (\<forall>i j k. i < length (cn_out x) \<longrightarrow> j < length (cn_out x) \<longrightarrow>
        oc_stream (cn_out x ! i) = Some k \<longrightarrow> oc_stream (cn_out x ! j) = Some k \<longrightarrow> i = j)"

lemma net_inv_nth: "net_inv cd x \<Longrightarrow> i < length (cn_out x) \<Longrightarrow> written cd (cn_streams x) (cn_out x ! i)"
  by (simp add: net_inv_def list_all_length)

text \<open>A move of a stream that sends nothing, a change of a connection, and the two at once.\<close>

lemma written_stream:
  "written cd sts oc \<Longrightarrow> oc_stream oc \<noteq> Some k \<or> rq_sent st = rq_sent (sts ! k) \<Longrightarrow> written cd (sts[k := st]) oc"
  by (cases "oc_stream oc"; cases "oc_stream oc = Some k") (auto simp: written_def)

lemma net_inv_stream:
  assumes "net_inv cd x" and "rstream_step (request_sys x) (request_sys x')"
    and "cn_streams x' = (cn_streams x)[k := st]" "cn_out x' = cn_out x" "rq_sent st = rq_sent (cn_streams x ! k)"
  shows "net_inv cd x'"
  using assms by (auto simp: net_inv_def list_all_iff intro: written_stream rstream_reach.rs_step)

lemma net_inv_out:
  assumes "net_inv cd x" and "i < length (cn_out x)" and "written cd (cn_streams x) oc"
    and "oc_stream oc = oc_stream (cn_out x ! i)"
  shows "net_inv cd (set_out i oc x)"
proof -
  have "list_all (written cd (cn_streams x)) ((cn_out x)[i := oc])"
    using assms(1,3) by (auto simp: net_inv_def list_all_iff dest!: set_update_subset_insert [THEN subsetD])
  moreover have "oc_stream ((cn_out x)[i := oc] ! j) = oc_stream (cn_out x ! j)" for j
    using assms(2,4) by (cases "j = i") simp_all
  ultimately show ?thesis using assms(1) by (simp add: net_inv_def request_sys_def)
qed

lemma net_inv_take:
  assumes inv: "net_inv cd x" and i: "i < length (cn_out x)" and k: "oc_stream (cn_out x ! i) = Some k"
    and pc: "rq_pc (cn_streams x ! k) = RSending j" and held: "oc_held (cn_out x ! i) = None"
    and bs: "marshal_message cd (MRequest (en_request (rb_entries (cl_buf (cn_client x)) ! j))) = Inr bs"
  defines "st \<equiv> cn_streams x ! k" and "rb \<equiv> cl_buf (cn_client x)"
  shows "net_inv cd (set_out i ((cn_out x ! i)\<lparr>oc_held := Some bs\<rparr>)
    (set_stream k (st\<lparr>rq_pc := RWaiting, rq_lastSeq := seq_at rb j, rq_sent := rq_sent st @ [en_request (rb_entries rb ! j)]\<rparr>) x))"
    (is "net_inv cd (set_out i ?oc (set_stream k ?st x))")
proof -
  have w: "written cd (cn_streams x) (cn_out x ! i)" by (rule net_inv_nth [OF inv i])
  then have kl: "k < length (cn_streams x)" using k by (simp add: written_def)
  have "rstream_step (request_sys x) (request_sys (set_stream k ?st x))"
    using rs_send [of k "request_sys x" st j] kl pc by (simp add: request_sys_def st_def rb_def)
  then have "rstream_reach (request_sys (set_stream k ?st x))"
    using inv by (auto simp: net_inv_def intro: rstream_reach.rs_step)
  moreover have "written cd ((cn_streams x)[k := ?st]) ?oc"
    using w k kl held bs by (simp add: written_def st_def rb_def)
  moreover have "written cd ((cn_streams x)[k := ?st]) (cn_out x ! i')" if "i' < length (cn_out x)" "i' \<noteq> i" for i'
    using net_inv_nth [OF inv that(1)] inv i k that by (intro written_stream) (auto simp: net_inv_def)
  moreover have "oc_stream ((cn_out x)[i := ?oc] ! i') = oc_stream (cn_out x ! i')" for i'
    using i by (cases "i' = i") simp_all
  ultimately show ?thesis
    using inv i by (auto simp: net_inv_def list_all_length nth_list_update request_sys_def)
qed

lemma net_inv_open:
  assumes inv: "net_inv cd x" and i: "i < length (cn_out x)" and n: "oc_stream (cn_out x ! i) = None"
  shows "net_inv cd (open_requests i (cn_out x ! i) x)"
proof -
  let ?st = "\<lparr>rq_pc = RTop, rq_lastSeq = 0, rq_sent = []\<rparr>" and ?k = "length (cn_streams x)"
  let ?oc = "(cn_out x ! i)\<lparr>oc_stream := Some ?k\<rparr>" and ?x = "open_requests i (cn_out x ! i) x"
  have "rstream_step (request_sys x) (request_sys ?x)"
    using rs_open [of "request_sys x"] by (simp add: request_sys_def open_requests_def Let_def)
  then have "rstream_reach (request_sys ?x)" using inv by (auto simp: net_inv_def intro: rstream_reach.rs_step)
  moreover have "written cd (cn_streams x @ [?st]) ?oc"
    using net_inv_nth [OF inv i] n by (simp add: written_def)
  moreover have "written cd (cn_streams x @ [?st]) oc" if "written cd (cn_streams x) oc" for oc
    using that by (cases "oc_stream oc") (auto simp: written_def nth_append)
  moreover have "oc_stream (cn_out x ! j) \<noteq> Some ?k" if "j < length (cn_out x)" for j
    using net_inv_nth [OF inv that] by (auto simp: written_def)
  ultimately show ?thesis
    using inv i by (auto simp: net_inv_def list_all_length nth_list_update request_sys_def open_requests_def Let_def)
qed

lemma net_inv_stream_out:
  assumes inv: "net_inv cd x" and i: "i < length (cn_out x)" and k: "oc_stream (cn_out x ! i) = Some k"
    and run: "stream_out cd i (cn_out x ! i) k (cn_streams x ! k) mv x = (x', Inr ())"
  shows "net_inv cd x'"
proof -
  let ?st = "cn_streams x ! k" and ?oc = "cn_out x ! i" and ?rb = "cl_buf (cn_client x)"
  have w: "written cd (cn_streams x) ?oc" by (rule net_inv_nth [OF inv i])
  then have kl: "k < length (ss_streams (request_sys x))" using k by (simp add: written_def request_sys_def)
  have move: "net_inv cd (set_stream k st x)"
    if "rstream_step (request_sys x) ((request_sys x)\<lparr>ss_streams := (ss_streams (request_sys x))[k := st]\<rparr>)"
      "rq_sent st = rq_sent ?st" for st
    by (rule net_inv_stream [OF inv _ _ _ that(2)]) (use that(1) in \<open>simp_all add: request_sys_def\<close>)
  note run = run [unfolded stream_out_def Let_def]
  show ?thesis
  proof (cases mv)
    case LookUp
    have "rq_sent (stream_top ?rb ?st) = rq_sent ?st" by (simp add: stream_top_def split: option.split)
    with LookUp run inv move [of "stream_top ?rb ?st"] rs_top [OF kl] show ?thesis
      by (cases "rq_pc ?st") (simp_all add: request_sys_def)
  next
    case TakeRequest
    with run inv net_inv_take [OF inv i k] show ?thesis
      by (cases "rq_pc ?st") (auto split: if_splits sum.splits)
  next
    case SkipRemoved
    with run inv move [of "?st\<lparr>rq_pc := RWaiting\<rparr>"] rs_removed [OF kl, of ?st] show ?thesis
      by (cases "rq_pc ?st") (auto simp: request_sys_def split: if_splits)
  next
    case Wake
    have "net_inv cd (set_buf (?rb\<lparr>rb_newAdded := (rb_newAdded ?rb)[k := False]\<rparr>) (set_stream k (?st\<lparr>rq_pc := RTop\<rparr>) x))"
      if "rq_pc ?st = RWaiting" "rb_newAdded ?rb ! k"
      using that rs_wake [OF kl, of ?st]
      by (intro net_inv_stream [OF inv, of _ k "?st\<lparr>rq_pc := RTop\<rparr>"]) (simp_all add: request_sys_def)
    with Wake run inv show ?thesis by (cases "rq_pc ?st") (auto split: if_splits)
  next
    case CancelStream
    with run inv move [of "?st\<lparr>rq_pc := RClosed\<rparr>"] rs_cancel [OF kl, of ?st] show ?thesis
      by (cases "rq_pc ?st") (auto simp: request_sys_def split: if_splits)
  next
    case Drained
    with run inv net_inv_out [OF inv i, of "?oc\<lparr>oc_returned := True\<rparr>"] w show ?thesis
      by (cases "rq_pc ?st") (auto split: if_splits)
  qed (use run inv in auto)
qed

lemma net_inv_out_next:
  assumes inv: "net_inv cd x" and run: "out_next cd i mv x = (x', Inr ())"
  shows "net_inv cd x'"
proof (cases "i < length (cn_out x)")
  case True
  let ?oc = "cn_out x ! i"
  have w: "written cd (cn_streams x) ?oc" by (rule net_inv_nth [OF inv True])
  have close: "net_inv cd (set_out i (?oc\<lparr>oc_returned := True\<rparr>) x)"
    using net_inv_out [OF inv True, of "?oc\<lparr>oc_returned := True\<rparr>"] w by simp
  have "written cd (cn_streams x) (?oc\<lparr>oc_held := None, oc_sent := oc_sent ?oc @ [bs]\<rparr>)" if "oc_held ?oc = Some bs" for bs
    using w that by (cases "oc_stream ?oc") (simp_all add: written_def)
  then have wrote: "net_inv cd (set_out i (?oc\<lparr>oc_held := None, oc_sent := oc_sent ?oc @ [bs]\<rparr>) x)" if "oc_held ?oc = Some bs" for bs
    using net_inv_out [OF inv True] that by simp
  note out = out_next_def Let_def
  show ?thesis
  proof (cases "mv = WriteOut \<or> mv = StopWriting")
    case special: True
    with run True inv close wrote show ?thesis
      by (cases "oc_held ?oc") (auto simp: out split: if_splits)
  next
    case False
    show ?thesis
    proof (cases "oc_stream ?oc")
      case None
      with False run True inv net_inv_open [OF inv True] show ?thesis by (cases mv) (simp_all add: out)
    next
      case (Some k)
      from False run True Some have "stream_out cd i ?oc k (cn_streams x ! k) mv x = (x', Inr ())" by (cases mv) (simp_all add: out)
      with net_inv_stream_out [OF inv True Some] show ?thesis .
    qed
  qed
qed (use assms in \<open>simp add: out_next_def\<close>)

lemma net_inv_client:
  assumes inv: "net_inv cd x" and run: "at_client (client_handle c e) x = (x', Inr ())"
  shows "net_inv cd x'"
proof -
  obtain s where s: "client_handle c e (cn_client x) = (s, Inr ())" "x' = x\<lparr>cn_client := s\<rparr>"
    using run by (auto simp: at_client_def split: prod.splits)
  show ?thesis
  proof (cases "cl_buf s = cl_buf (cn_client x)")
    case True
    with inv s show ?thesis by (simp add: net_inv_def request_sys_def)
  next
    case False
    from client_buffer [OF s(1) this] have "rstream_step (request_sys x) (request_sys x')"
      by (simp add: request_sys_def s(2))
    with inv s(2) show ?thesis by (auto simp: net_inv_def intro: rstream_reach.rs_step)
  qed
qed

lemma reach_net_inv: "net_reach c cd connects x \<Longrightarrow> net_inv cd x"
proof (induction rule: net_reach.induct)
  case (net_new now x)
  then show ?case
    using rs_init by (auto simp: new_net_def new_client_def net_inv_def request_sys_def written_def new_out_def list_all_iff
        split: sum.splits prod.splits if_splits)
next
  case (net_more x e x')
  have same: "net_inv cd (x\<lparr>cn_in := b\<rparr>)" for b using net_more.IH by (simp add: net_inv_def request_sys_def)
  show ?case
  proof (cases e)
    case (NetClient ev)
    with net_more.hyps(2) net_more.IH net_inv_client [OF net_more.IH, of c ev x'] show ?thesis
      by (cases "local_event ev") (simp_all add: ret_def)
  next
    case (NetReceive i frame)
    show ?thesis
    proof (cases "i < length (cn_in x) \<and> cn_in x ! i")
      case True
      with NetReceive net_more.hyps(2) same net_inv_client [OF net_more.IH, of c "CReceive (the frame)" x'] show ?thesis
        by (cases frame) (auto simp: bindM_def gets_def modify_def)
    next
      case False
      with NetReceive net_more.hyps(2) net_more.IH show ?thesis by (simp add: bindM_def gets_def ret_def)
    qed
  next
    case (NetStopReading i)
    with net_more.hyps(2) net_more.IH same show ?thesis
      by (cases "cl_stopped (cn_client x)") (auto simp: bindM_def gets_def ret_def modify_def)
  next
    case (NetOut i mv)
    with net_more.hyps(2) net_inv_out_next [OF net_more.IH] show ?thesis by simp
  qed
qed

text \<open>The last identifier that a stream has sent is that of the last request it has sent.\<close>

lemma stream_top_sel [simp]:
  "rq_sent (stream_top rb st) = rq_sent st" "rq_lastSeq (stream_top rb st) = rq_lastSeq st"
  by (simp_all add: stream_top_def split: option.splits)

lemma reach_last_sent:
  "rstream_reach x \<Longrightarrow> st \<in> set (ss_streams x) \<Longrightarrow>
   rq_lastSeq st = (if rq_sent st = [] then 0 else req_Sequence (last (rq_sent st)))"
proof (induction arbitrary: st rule: rstream_reach.induct)
  case (rs_step x y)
  from rs_step.hyps(2) rs_step.prems rs_step.IH show ?case
    by cases (auto dest!: set_update_subset_insert [THEN subsetD])
qed simp

text \<open>A request is accepted only if its identifier exceeds the last one, which starts at zero.\<close>

lemma lastSeq_ops:
  "rb_lastSeq (RemoveRequest q rb) = rb_lastSeq rb" "rb_lastSeq (fst (rb_AddReply m rb)) = rb_lastSeq rb"
  "length (rb_entries (RemoveRequest q rb)) = length (rb_entries rb)"
  "length (rb_entries (fst (rb_AddReply m rb))) = length (rb_entries rb)"
  by (simp_all add: RemoveRequest_def rb_AddReply_def split: option.split prod.split)

lemma lastSeq_try: "(rb_entries rb \<noteq> [] \<longrightarrow> 0 < rb_lastSeq rb) \<Longrightarrow>
    rb_entries (fst (try_AddRequest m rb)) \<noteq> [] \<longrightarrow> 0 < rb_lastSeq (fst (try_AddRequest m rb))"
  by (auto simp: try_AddRequest_def not_le split: option.splits) (metis word_gt_0 word_less_nonzero)

lemma reach_positive: "rstream_reach x \<Longrightarrow> rb_entries (ss_buf x) \<noteq> [] \<longrightarrow> 0 < rb_lastSeq (ss_buf x)"
proof (induction rule: rstream_reach.induct)
  case rs_init
  show ?case by (simp add: new_buffer_def)
next
  case (rs_step x y)
  have keep: "rb_entries (RemoveRequest q (ss_buf x)) \<noteq> [] \<longrightarrow> 0 < rb_lastSeq (RemoveRequest q (ss_buf x))"
    "rb_entries (fst (rb_AddReply m (ss_buf x))) \<noteq> [] \<longrightarrow> 0 < rb_lastSeq (fst (rb_AddReply m (ss_buf x)))" for q m
    using rs_step.IH lastSeq_ops by (metis length_0_conv)+
  have "rb_entries (fst (AddRequest b m (ss_buf x))) \<noteq> [] \<longrightarrow> 0 < rb_lastSeq (fst (AddRequest b m (ss_buf x)))" for b m
    using lastSeq_try [OF rs_step.IH] lastSeq_try [OF keep(1)] AddRequest_try [of b m "ss_buf x"] by metis
  with rs_step.hyps(2) rs_step.IH keep show ?case by cases auto
qed

lemma caught_up:
  assumes reach: "rstream_reach x" and k: "k < length (ss_streams x)" and j: "rb_request (ss_buf x) = Some j"
    and sent: "\<not> unsent (ss_buf x) (ss_streams x ! k)"
  shows "en_request (rb_entries (ss_buf x) ! j) \<in> set (rq_sent (ss_streams x ! k))"
proof -
  let ?st = "ss_streams x ! k" and ?rb = "ss_buf x"
  have inv: "buffer_inv ?rb" and one: "one_stream ?rb (rb_newAdded ?rb ! k) ?st"
    using reach_streams [OF reach] k by (auto simp: streams_inv_def)
  have pos: "0 < rb_lastSeq ?rb" using reach_positive [OF reach] current_entry(1) [OF inv j] by auto
  have le: "rq_lastSeq ?st \<le> rb_lastSeq ?rb" using one by (simp add: one_stream_def)
  with current_entry(4) [OF inv j] sent j have last: "rq_lastSeq ?st = seq_at ?rb j" by (auto simp: unsent_def)
  then have n: "rq_sent ?st \<noteq> []" "req_Sequence (last (rq_sent ?st)) = seq_at ?rb j"
    using reach_last_sent [OF reach nth_mem [OF k]] pos current_entry(4) [OF inv j] by (auto split: if_splits)
  then have "last (rq_sent ?st) \<in> en_request ` set (rb_entries ?rb)" using one by (auto simp: one_stream_def)
  then obtain i where i: "i < length (rb_entries ?rb)" "last (rq_sent ?st) = en_request (rb_entries ?rb ! i)"
    by (auto simp: in_set_conv_nth)
  have "distinct (map (\<lambda>e. req_Sequence (en_request e)) (rb_entries ?rb))"
    using inv by (auto simp: buffer_inv_def strict_sorted_iff)
  with i n(2) current_entry(1) [OF inv j] have "i = j" by (auto simp: distinct_conv_nth)
  with i(2) n(1) show ?thesis by (metis last_in_set)
qed

text \<open>Goroutines of connections return only once the client was stopped.\<close>

definition all_alive :: "client_net \<Rightarrow> bool" where
  "all_alive x \<longleftrightarrow> cl_stopped (cn_client x) \<or>
     ((\<forall>st \<in> set (cn_streams x). rq_pc st \<noteq> RClosed) \<and> (\<forall>oc \<in> set (cn_out x). \<not> oc_returned oc))"

lemma alive_stream: "all_alive x \<Longrightarrow> rq_pc st \<noteq> RClosed \<or> cl_stopped (cn_client x) \<Longrightarrow> all_alive (set_stream k st x)"
  by (auto simp: all_alive_def dest!: set_update_subset_insert [THEN subsetD])

lemma alive_out: "all_alive x \<Longrightarrow> \<not> oc_returned oc \<or> cl_stopped (cn_client x) \<Longrightarrow> all_alive (set_out i oc x)"
  by (auto simp: all_alive_def dest!: set_update_subset_insert [THEN subsetD])

lemma alive_buf [simp]: "all_alive (set_buf rb x) = all_alive x"
  by (simp add: all_alive_def)

lemma alive_nth: "all_alive x \<Longrightarrow> i < length (cn_out x) \<Longrightarrow> \<not> oc_returned (cn_out x ! i) \<or> cl_stopped (cn_client x)"
  by (auto simp: all_alive_def)

lemma alive_closed: "all_alive x \<Longrightarrow> k < length (cn_streams x) \<Longrightarrow> rq_pc (cn_streams x ! k) = RClosed \<Longrightarrow> cl_stopped (cn_client x)"
  by (auto simp: all_alive_def)

lemma stream_top_open [simp]: "rq_pc (stream_top rb st) \<noteq> RClosed"
  by (simp add: stream_top_def split: option.splits)

lemma alive_stream_out:
  assumes a: "all_alive x" and i: "i < length (cn_out x)" and k: "k < length (cn_streams x)"
  shows "all_alive (fst (stream_out cd i (cn_out x ! i) k (cn_streams x ! k) mv x))"
proof -
  have "all_alive (set_out i ((cn_out x ! i)\<lparr>oc_held := h\<rparr>) (set_stream k st x))" if "rq_pc st = RWaiting" for h st
    using that alive_nth [OF a i] by (intro alive_out alive_stream a) auto
  moreover have "all_alive (set_out i ((cn_out x ! i)\<lparr>oc_returned := True\<rparr>) x)" if "rq_pc (cn_streams x ! k) = RClosed"
    using alive_closed [OF a k that] by (intro alive_out a) simp
  ultimately show ?thesis
    using a by (cases mv; cases "rq_pc (cn_streams x ! k)")
      (auto simp: stream_out_def Let_def alive_stream split: sum.splits)
qed

lemma alive_out_next:
  assumes a: "all_alive x" and inv: "net_inv cd x"
  shows "all_alive (fst (out_next cd i mv x))"
proof (cases "i < length (cn_out x)")
  case True
  let ?oc = "cn_out x ! i"
  have "all_alive (open_requests i ?oc x)"
    using a alive_nth [OF a True] by (auto simp: open_requests_def Let_def all_alive_def dest!: set_update_subset_insert [THEN subsetD])
  moreover have "all_alive (set_out i (?oc\<lparr>oc_held := None, oc_sent := s\<rparr>) x)" for s
    using alive_nth [OF a True] by (intro alive_out a) auto
  moreover have "all_alive (set_out i (?oc\<lparr>oc_returned := True\<rparr>) x)" if "cl_stopped (cn_client x)"
    using that by (intro alive_out a) simp
  moreover have "all_alive (fst (stream_out cd i ?oc k (cn_streams x ! k) mv x))" if "oc_stream ?oc = Some k" for k
    using net_inv_nth [OF inv True] that by (intro alive_stream_out a True) (auto simp: written_def)
  ultimately show ?thesis
    using a True by (cases mv; cases "oc_stream ?oc") (auto simp: out_next_def Let_def split: option.splits)
qed (simp add: out_next_def a)

lemma client_stopped: "client_handle c e s = (s', r) \<Longrightarrow> cl_stopped s \<Longrightarrow> cl_stopped s'"
  by (cases e) (auto simp: beginCall_def prepareRequest_def constructRequest_def nextSequence_def bindM_def modify_def ret_def throw_def
      submitRequest_def handleIncoming_def handleReply_def collectNext_def closeReplies_def Terminate_def Let_def
      split: sum.splits if_splits call.splits prod.splits added.splits go_error.splits msg_obj.splits option.splits)

lemma reach_alive: "net_reach c cd connects x \<Longrightarrow> all_alive x"
proof (induction rule: net_reach.induct)
  case (net_new now x)
  then show ?case by (auto simp: new_net_def all_alive_def new_out_def split: sum.splits prod.splits)
next
  case (net_more x e x')
  have ev: "all_alive x'" if "at_client (client_handle c ev) x = (x', Inr ())" for ev
    using that net_more.IH client_stopped [of c ev "cn_client x"] by (auto simp: at_client_def all_alive_def split: prod.splits)
  have same: "all_alive (x\<lparr>cn_in := b\<rparr>)" for b using net_more.IH by (simp add: all_alive_def)
  show ?case
  proof (cases e)
    case (NetClient ce)
    with net_more.hyps(2) net_more.IH ev [of ce] show ?thesis by (cases "local_event ce") (simp_all add: ret_def)
  next
    case (NetReceive i frame)
    with net_more.hyps(2) net_more.IH same ev [of "CReceive (the frame)"] show ?thesis
      by (cases "i < length (cn_in x) \<and> cn_in x ! i"; cases frame) (auto simp: bindM_def gets_def ret_def modify_def)
  next
    case (NetStopReading i)
    with net_more.hyps(2) net_more.IH same show ?thesis
      by (cases "cl_stopped (cn_client x)") (auto simp: bindM_def gets_def ret_def modify_def)
  next
    case (NetOut i mv)
    with net_more.hyps(2) alive_out_next [OF net_more.IH reach_net_inv [OF net_more.hyps(1)], of i mv] show ?thesis by simp
  qed
qed

text \<open>A connection on which no goroutine can move has written the request in progress.\<close>

lemma set_stream_same: "set_stream k st x = x \<Longrightarrow> k < length (cn_streams x) \<Longrightarrow> cn_streams x ! k = st"
  by (metis nth_list_update_eq set_sel(7))

lemma set_out_same: "set_out i oc x = x \<Longrightarrow> i < length (cn_out x) \<Longrightarrow> cn_out x ! i = oc"
  by (metis nth_list_update_eq set_sel(8))

lemma stuck_stream:
  assumes stuck: "\<And>mv. stream_out cd i oc k (cn_streams x ! k) mv x = (x, Inr ())"
    and k: "k < length (cn_streams x)" "k < length (rb_newAdded (cl_buf (cn_client x)))"
    and oc: "oc_held oc = None" "\<not> oc_returned oc" and alive: "rq_pc (cn_streams x ! k) \<noteq> RClosed"
  shows "rq_pc (cn_streams x ! k) = RWaiting \<and> \<not> rb_newAdded (cl_buf (cn_client x)) ! k"
proof -
  let ?st = "cn_streams x ! k"
  have same: "rq_pc (cn_streams (fst (stream_out cd i oc k ?st mv x)) ! k) = rq_pc ?st" for mv by (simp only: stuck fst_conv)
  show ?thesis
  proof (cases "rq_pc ?st")
    case RTop
    then have "rq_pc (cn_streams (fst (stream_out cd i oc k ?st LookUp x)) ! k) \<noteq> RTop"
      using k(1) by (simp add: stream_out_def Let_def stream_top_def split: option.split)
    with same RTop show ?thesis by simp
  next
    case (RSending j)
    then have "rq_pc (cn_streams (fst (stream_out cd i oc k ?st TakeRequest x)) ! k) = RWaiting"
      using k(1) oc by (simp add: stream_out_def Let_def split: sum.split)
    with same RSending show ?thesis by simp
  next
    case RWaiting
    have "rq_pc (cn_streams (fst (stream_out cd i oc k ?st Wake x)) ! k) = RTop" if "rb_newAdded (cl_buf (cn_client x)) ! k"
      using that RWaiting k by (simp add: stream_out_def Let_def)
    with same RWaiting show ?thesis by auto
  qed (use alive in simp)
qed

lemma stuck_written:
  assumes reach: "net_reach c cd connects x" and i: "i < length (cn_out x)" and run: "\<not> cl_stopped (cn_client x)"
    and stuck: "\<And>mv. out_next cd i mv x = (x, Inr ())" and j: "rb_request (cl_buf (cn_client x)) = Some j"
  shows "\<exists>k. oc_stream (cn_out x ! i) = Some k \<and> oc_held (cn_out x ! i) = None \<and>
    en_request (rb_entries (cl_buf (cn_client x)) ! j) \<in> set (rq_sent (cn_streams x ! k))"
proof -
  let ?oc = "cn_out x ! i" and ?rb = "cl_buf (cn_client x)"
  have inv: "net_inv cd x" and alive: "all_alive x" using reach reach_net_inv reach_alive by blast+
  have nr: "\<not> oc_returned ?oc" using alive i run by (auto simp: all_alive_def)
  have held: "oc_held ?oc = None"
  proof (rule ccontr)
    assume "oc_held ?oc \<noteq> None"
    then obtain bs where "oc_held ?oc = Some bs" by blast
    with stuck [of WriteOut] i nr have "set_out i (?oc\<lparr>oc_held := None, oc_sent := oc_sent ?oc @ [bs]\<rparr>) x = x"
      by (simp add: out_next_def Let_def)
    from set_out_same [OF this i] \<open>oc_held ?oc = Some bs\<close> show False by (metis option.distinct(1) out_conn.select_convs(2) out_conn.surjective out_conn.update_convs(2,4))
  qed
  obtain k where k: "oc_stream ?oc = Some k"
  proof (cases "oc_stream ?oc")
    case None
    with stuck [of OpenStream] i have "cn_streams (open_requests i ?oc x) = cn_streams x" by (simp add: out_next_def)
    then show thesis by (simp add: open_requests_def Let_def)
  qed
  have kl: "k < length (cn_streams x)" using net_inv_nth [OF inv i] k by (simp add: written_def)
  have sys: "rstream_reach (request_sys x)" using inv by (simp add: net_inv_def)
  from reach_streams [OF this] kl have kf: "k < length (rb_newAdded ?rb)" and one: "one_stream ?rb (rb_newAdded ?rb ! k) (cn_streams x ! k)"
    by (auto simp: streams_inv_def request_sys_def)
  have "stream_out cd i ?oc k (cn_streams x ! k) mv x = (x, Inr ())" if "mv \<noteq> WriteOut" "mv \<noteq> StopWriting" for mv
    using stuck [of mv] i k that by (cases mv) (simp_all add: out_next_def Let_def)
  moreover have "stream_out cd i ?oc k (cn_streams x ! k) mv x = (x, Inr ())" if "mv = WriteOut \<or> mv = StopWriting" for mv
    using that by (auto simp: stream_out_def Let_def split: rstream_pc.splits)
  ultimately have "rq_pc (cn_streams x ! k) = RWaiting \<and> \<not> rb_newAdded ?rb ! k"
    using alive run kl by (intro stuck_stream [OF _ kl kf held nr]) (blast, auto simp: all_alive_def)
  with one have "\<not> unsent ?rb (cn_streams x ! k)" by (auto simp: one_stream_def)
  with caught_up [OF sys, of k j] kl j k held show ?thesis by (simp add: request_sys_def)
qed

lemma connection_requests:
  assumes reach: "net_reach c cd connects x" and i: "i < length (cn_out x)"
  shows "\<exists>rs. map (\<lambda>r. marshal_message cd (MRequest r)) rs = map Inr (oc_sent (cn_out x ! i)) \<and>
    sorted_wrt (<) (map req_Sequence rs) \<and> set rs \<subseteq> set (rb_asked (cl_buf (cn_client x))) \<and>
    (\<forall>j. (\<forall>mv. out_next cd i mv x = (x, Inr ())) \<longrightarrow> \<not> cl_stopped (cn_client x) \<longrightarrow>
       rb_request (cl_buf (cn_client x)) = Some j \<longrightarrow> rb_asked (cl_buf (cn_client x)) ! j \<in> set rs)"
proof -
  let ?oc = "cn_out x ! i" and ?rb = "cl_buf (cn_client x)"
  have inv: "net_inv cd x" by (rule reach_net_inv [OF reach])
  have sinv: "streams_inv (request_sys x)" using inv by (simp add: net_inv_def reach_streams)
  have asked: "rb_asked ?rb ! j = en_request (rb_entries ?rb ! j)" if "rb_request ?rb = Some j" for j
    using sinv current_entry(1) [OF _ that] by (simp add: rb_asked_def streams_inv_def request_sys_def)
  show ?thesis
  proof (cases "oc_stream ?oc")
    case None
    have "rb_request ?rb = None" if "\<forall>mv. out_next cd i mv x = (x, Inr ())" "\<not> cl_stopped (cn_client x)"
      using stuck_written [OF reach i] that None by (cases "rb_request ?rb") auto
    with None net_inv_nth [OF inv i] show ?thesis by (intro exI [of _ "[]"]) (auto simp: written_def)
  next
    case (Some k)
    let ?sent = "rq_sent (cn_streams x ! k)"
    have w: "map (\<lambda>r. marshal_message cd (MRequest r)) ?sent = map Inr (oc_sent ?oc @ (case oc_held ?oc of None \<Rightarrow> [] | Some bs \<Rightarrow> [bs]))"
      "k < length (cn_streams x)" using net_inv_nth [OF inv i] Some by (auto simp: written_def)
    let ?rs = "take (length (oc_sent ?oc)) ?sent"
    have "one_stream ?rb (rb_newAdded ?rb ! k) (cn_streams x ! k)" using sinv w(2) by (auto simp: streams_inv_def request_sys_def)
    then have s: "sorted_wrt (<) (map req_Sequence ?sent)" "set ?sent \<subseteq> set (rb_asked ?rb)"
      by (auto simp: one_stream_def rb_asked_def)
    have "map (\<lambda>r. marshal_message cd (MRequest r)) ?rs = map Inr (oc_sent ?oc)"
      unfolding take_map [symmetric] w(1) by simp
    moreover have "sorted_wrt (<) (map req_Sequence ?rs)" "set ?rs \<subseteq> set (rb_asked ?rb)"
      using s sorted_wrt_take [OF s(1), of "length (oc_sent ?oc)"] set_take_subset by (fastforce simp: take_map)+
    moreover have "?rs = ?sent" if "oc_held ?oc = None" using that arg_cong [OF w(1), of length] by simp
    ultimately show ?thesis using stuck_written [OF reach i] asked Some by (intro exI [of _ ?rs]) fastforce
  qed
qed

lemma out_next_size: "length (cn_out (fst (out_next cd i mv x))) = length (cn_out x)"
  by (auto simp: out_next_def stream_out_def open_requests_def Let_def split: out_move.splits rstream_pc.splits option.splits sum.splits)

lemma at_client_out: "cn_out (fst (at_client m x)) = cn_out x"
  by (simp add: at_client_def split: prod.split)

lemma net_handle_size: "net_handle c cd e x = (x', Inr ()) \<Longrightarrow> length (cn_out x') = length (cn_out x)"
proof (cases e)
  case (NetOut i mv)
  then show "net_handle c cd e x = (x', Inr ()) \<Longrightarrow> ?thesis" using out_next_size [of cd i mv x] by simp
next
  case (NetClient ce)
  then show "net_handle c cd e x = (x', Inr ()) \<Longrightarrow> ?thesis"
    using at_client_out [of "client_handle c ce" x] by (cases "local_event ce") (simp_all add: ret_def)
next
  case (NetReceive i frame)
  then show "net_handle c cd e x = (x', Inr ()) \<Longrightarrow> ?thesis"
    using at_client_out [of "handleIncoming c (the frame)" x]
    by (cases "i < length (cn_in x) \<and> cn_in x ! i"; cases frame) (auto simp: bindM_def gets_def ret_def modify_def)
next
  case (NetStopReading i)
  then show "net_handle c cd e x = (x', Inr ()) \<Longrightarrow> ?thesis"
    by (cases "cl_stopped (cn_client x)") (auto simp: bindM_def gets_def ret_def modify_def)
qed

lemma net_size: "net_reach c cd connects x \<Longrightarrow> length (cn_out x) = unat (cc_n c)"
proof (induction rule: net_reach.induct)
  case (net_new now x)
  then show ?case
    by (auto simp: new_net_def split: sum.splits prod.splits dest!: startReplicaConnections_length)
qed (simp add: net_handle_size)

section \<open>Example\<close>

fun run_net :: "client_config \<Rightarrow> codec \<Rightarrow> net_event list \<Rightarrow> client_net \<Rightarrow> client_net result" where
  "run_net c cd [] x = Inr x"
| "run_net c cd (e # es) x =
     (case net_handle c cd e x of (x', Inl err) \<Rightarrow> Inl err | (x', Inr _) \<Rightarrow> run_net c cd es x')"

lemma run_net_reach: "run_net c cd es x = Inr y \<Longrightarrow> net_reach c cd connects x \<Longrightarrow> net_reach c cd connects y"
  by (induction c cd es x rule: run_net.induct) (auto split: prod.splits sum.splits intro: net_more)

text \<open>The client of the example for a single replica submits a request, which is written to its connection.\<close>

definition solo_net_events :: "net_event list" where
  "solo_net_events = [NetClient (CCall []), NetClient (CSubmit 0), NetOut 0 OpenStream, NetOut 0 LookUp,
     NetOut 0 TakeRequest, NetOut 0 WriteOut]"

lemma solo_net_run:
  "case new_net solo_client (\<lambda>_. True) 1 of
     Inl e \<Rightarrow> False
   | Inr x0 \<Rightarrow>
     (case run_net solo_client demo_codec solo_net_events x0 of
        Inl e \<Rightarrow> False
      | Inr x \<Rightarrow> cn_out x = [\<lparr>oc_stream = Some 0, oc_held = None, oc_returned = False, oc_sent = [[2]]\<rparr>] \<and>
          length (cn_streams x) = 1 \<and> rq_pc (cn_streams x ! 0) = RWaiting \<and>
          rb_newAdded (cl_buf (cn_client x)) = [False] \<and> \<not> cl_stopped (cn_client x) \<and>
          rb_request (cl_buf (cn_client x)) = Some 0 \<and> rb_asked (cl_buf (cn_client x)) = [demo_request 1])"
  by code_simp

lemma solo_net:
  obtains x where "net_reach solo_client demo_codec (\<lambda>_. True) x"
    "cn_out x = [\<lparr>oc_stream = Some 0, oc_held = None, oc_returned = False, oc_sent = [[2]]\<rparr>]"
    "rq_pc (cn_streams x ! 0) = RWaiting" "rb_newAdded (cl_buf (cn_client x)) = [False]" "\<not> cl_stopped (cn_client x)"
    "rb_request (cl_buf (cn_client x)) = Some 0" "rb_asked (cl_buf (cn_client x)) = [demo_request 1]"
proof -
  from solo_net_run obtain x0 x where x0: "new_net solo_client (\<lambda>_. True) 1 = Inr x0"
    and x: "run_net solo_client demo_codec solo_net_events x0 = Inr x"
      "cn_out x = [\<lparr>oc_stream = Some 0, oc_held = None, oc_returned = False, oc_sent = [[2]]\<rparr>]"
      "rq_pc (cn_streams x ! 0) = RWaiting" "rb_newAdded (cl_buf (cn_client x)) = [False]" "\<not> cl_stopped (cn_client x)"
      "rb_request (cl_buf (cn_client x)) = Some 0" "rb_asked (cl_buf (cn_client x)) = [demo_request 1]"
    by (simp split: sum.splits)
  from that [OF run_net_reach [OF x(1) net_new [OF x0]] x(2-7)] show thesis .
qed

section \<open>Properties\<close>

text \<open>
  C16: what a client writes to the connection of a replica are requests that it has submitted, each
  once and with increasing identifiers, and the replica decodes them as they were. As long as the
  client is not stopped, a connection on which nothing can happen has got the request in progress.
\<close>

theorem client_sends:
  assumes "net_reach c cd connects x" and "i < length (cn_out x)" and "codec_ok cd"
  defines "rb \<equiv> cl_buf (cn_client x)"
  shows "\<exists>objs rs. map (NewFromBinary (cd_unmarshal cd)) (oc_sent (cn_out x ! i)) = map Inr objs \<and>
    map view_msg objs = map MRequest rs \<and> sorted_wrt (<) (map req_Sequence rs) \<and> set rs \<subseteq> set (rb_asked rb) \<and>
    (\<forall>j. (\<forall>mv. out_next cd i mv x = (x, Inr ())) \<longrightarrow> \<not> cl_stopped (cn_client x) \<longrightarrow> rb_request rb = Some j \<longrightarrow>
       rb_asked rb ! j \<in> set rs)"
proof -
  obtain rs where rs: "map (\<lambda>r. marshal_message cd (MRequest r)) rs = map Inr (oc_sent (cn_out x ! i))"
    "sorted_wrt (<) (map req_Sequence rs)" "set rs \<subseteq> set (rb_asked rb)"
    "(\<forall>mv. out_next cd i mv x = (x, Inr ())) \<Longrightarrow> \<not> cl_stopped (cn_client x) \<Longrightarrow> rb_request rb = Some j \<Longrightarrow>
       rb_asked rb ! j \<in> set rs" for j
    using connection_requests [OF assms(1,2)] unfolding rb_def by blast
  have "map (marshal_message cd) (map MRequest rs) = map Inr (oc_sent (cn_out x ! i))" using rs(1) by (simp add: comp_def)
  from all_sent_decode [OF assms(3) this] obtain objs where
    "map (NewFromBinary (cd_unmarshal cd)) (oc_sent (cn_out x ! i)) = map Inr objs" "map view_msg objs = map MRequest rs" by blast
  with rs(2-) show ?thesis by (intro exI [of _ objs] exI [of _ rs]) simp
qed

theorem client_sends_witness:
  "\<exists>x objs rs. net_reach solo_client demo_codec (\<lambda>_. True) x \<and> length (cn_out x) = 1 \<and>
     map (NewFromBinary (cd_unmarshal demo_codec)) (oc_sent (cn_out x ! 0)) = map Inr objs \<and>
     map view_msg objs = map MRequest rs \<and> demo_request 1 \<in> set rs"
proof -
  obtain x where x: "net_reach solo_client demo_codec (\<lambda>_. True) x"
    and out: "cn_out x = [\<lparr>oc_stream = Some 0, oc_held = None, oc_returned = False, oc_sent = [[2]]\<rparr>]"
    and st: "rq_pc (cn_streams x ! 0) = RWaiting" "rb_newAdded (cl_buf (cn_client x)) = [False]" "\<not> cl_stopped (cn_client x)"
    and rb: "rb_request (cl_buf (cn_client x)) = Some 0" "rb_asked (cl_buf (cn_client x)) = [demo_request 1]" by (rule solo_net)
  have stuck: "\<forall>mv. out_next demo_codec 0 mv x = (x, Inr ())"
  proof
    show "out_next demo_codec 0 mv x = (x, Inr ())" for mv
      using out st by (cases mv) (simp_all add: out_next_def stream_out_def Let_def)
  qed
  have "0 < length (cn_out x)" by (simp add: out)
  from client_sends [OF x this demo_codec_ok] stuck st(3) rb(1) obtain objs rs where
    "map (NewFromBinary (cd_unmarshal demo_codec)) (oc_sent (cn_out x ! 0)) = map Inr objs"
    "map view_msg objs = map MRequest rs" "rb_asked (cl_buf (cn_client x)) ! 0 \<in> set rs" by blast
  moreover have "length (cn_out x) = 1" by (simp add: out)
  ultimately show ?thesis using x unfolding rb(2) by (intro exI [of _ x] exI [of _ objs] exI [of _ rs]) simp
qed



end
