(* ===== verification/Connectors.thy ===== *)
theory Connectors
  imports Prelude "HOL-Library.Sublist"
begin

text \<open>
  The sample connectivity (\<open>sample/conn\<close>): the connector that dispatches to local representations of
  replicas, the representation of a replica that is not available yet, and the goroutines that copy
  messages between channels and gRPC streams on both ends of a connection. A gRPC stream is a
  parameter: what its calls return are events. Channels are unbuffered, so a goroutine holds at most
  one message.
\<close>

section \<open>The common connector\<close>

text \<open>
  A connection handler offers a stream handler for peers and one for clients; a stream handler is
  named by the handler it belongs to and by its kind.
\<close>

datatype chat = PeerChat | ClientChat

datatype side = ClientSide | ReplicaSide

record 'r connector =
  co_side :: side
  co_replicas :: "u32 \<rightharpoonup> 'r"

definition newCommon :: "u32 \<rightharpoonup> 'r" where
  "newCommon = Map.empty"

definition NewClientSide :: "'r connector" where
  "NewClientSide = \<lparr>co_side = ClientSide, co_replicas = newCommon\<rparr>"

definition NewReplicaSide :: "'r connector" where
  "NewReplicaSide = \<lparr>co_side = ReplicaSide, co_replicas = newCommon\<rparr>"

definition co_AssignReplica :: "u32 \<Rightarrow> 'r \<Rightarrow> 'r connector \<Rightarrow> 'r connector" where
  "co_AssignReplica i r c = c\<lparr>co_replicas := (co_replicas c)(i \<mapsto> r)\<rparr>"

definition ReplicaMessageStreamHandler :: "u32 \<Rightarrow> 'r connector \<Rightarrow> (chat \<times> 'r) option" where
  "ReplicaMessageStreamHandler i c =
     (case co_replicas c i of
        None \<Rightarrow> None
      | Some replica \<Rightarrow>
          (case co_side c of
             ClientSide \<Rightarrow> Some (ClientChat, replica)
           | ReplicaSide \<Rightarrow> Some (PeerChat, replica)))"

text \<open>What the users of a connector rely on.\<close>

locale replica_connector =
  fixes assign :: "u32 \<Rightarrow> 'r \<Rightarrow> 'c \<Rightarrow> 'c"
    and handler :: "u32 \<Rightarrow> 'c \<Rightarrow> (chat \<times> 'r) option"
    and kind :: "'c \<Rightarrow> chat"
  assumes kind_assign: "kind (assign i r c) = kind c"
    and handler_assign: "handler j (assign i r c) = (if j = i then Some (kind c, r) else handler j c)"
begin

lemma handler_assigned:
  assumes "distinct (map fst rs)"
  shows "handler j (fold (\<lambda>(i, r). assign i r) rs c) =
    (case map_of rs j of None \<Rightarrow> handler j c | Some r \<Rightarrow> Some (kind c, r))"
  using assms
proof (induction rs arbitrary: c)
  case (Cons p rs)
  obtain i r where p: "p = (i, r)" by (cases p)
  have "map_of rs i = None" using Cons.prems p by (simp add: map_of_eq_None_iff)
  with Cons.IH [of "assign i r c"] Cons.prems show ?case
    by (auto simp: p kind_assign handler_assign split: option.splits)
qed simp

end

definition co_kind :: "'r connector \<Rightarrow> chat" where
  "co_kind c = (case co_side c of ClientSide \<Rightarrow> ClientChat | ReplicaSide \<Rightarrow> PeerChat)"

interpretation co: replica_connector co_AssignReplica ReplicaMessageStreamHandler co_kind
  by unfold_locales
    (auto simp: co_AssignReplica_def ReplicaMessageStreamHandler_def co_kind_def split: side.splits option.splits)

section \<open>The gRPC connector\<close>

text \<open>
  \<open>dial\<close> is \<open>grpc.Dial\<close>. The connections to make are given in the order in which the map of targets is
  iterated.
\<close>

record 'conn grpc_replica =
  gr_id :: u32
  gr_conn :: 'conn

definition ConnectReplica ::
    "(string \<Rightarrow> 'conn result) \<Rightarrow> u32 \<Rightarrow> string \<Rightarrow> 'conn grpc_replica connector \<Rightarrow>
     'conn grpc_replica connector \<times> unit result" where
  "ConnectReplica dial replicaID target c =
     (case dial target of
        Inl e \<Rightarrow> (c, Inl (Error ''failed to dial replica''))
      | Inr connection \<Rightarrow> (co_AssignReplica replicaID \<lparr>gr_id = replicaID, gr_conn = connection\<rparr> c, Inr ()))"

fun ConnectManyReplicas ::
    "(string \<Rightarrow> 'conn result) \<Rightarrow> (u32 \<times> string) list \<Rightarrow> 'conn grpc_replica connector \<Rightarrow>
     'conn grpc_replica connector \<times> unit result" where
  "ConnectManyReplicas dial [] c = (c, Inr ())"
| "ConnectManyReplicas dial ((replicaID, target) # targets) c =
     (case ConnectReplica dial replicaID target c of
        (c', Inl e) \<Rightarrow> (c', Inl e)
      | (c', Inr _) \<Rightarrow> ConnectManyReplicas dial targets c')"

definition dialled :: "(string \<Rightarrow> 'conn result) \<Rightarrow> u32 \<times> string \<Rightarrow> bool" where
  "dialled dial t = (\<exists>conn. dial (snd t) = Inr conn)"

definition grpc_conn :: "(string \<Rightarrow> 'conn result) \<Rightarrow> u32 \<times> string \<Rightarrow> u32 \<times> 'conn grpc_replica" where
  "grpc_conn dial t = (fst t, \<lparr>gr_id = fst t, gr_conn = projr (dial (snd t))\<rparr>)"

lemma ConnectManyReplicas_eq:
  "ConnectManyReplicas dial targets c =
     (fold (\<lambda>(i, r). co_AssignReplica i r) (map (grpc_conn dial) (takeWhile (dialled dial) targets)) c,
      if list_all (dialled dial) targets then Inr () else Inl (Error ''failed to dial replica''))"
  by (induction dial targets c rule: ConnectManyReplicas.induct)
    (auto simp: ConnectReplica_def dialled_def grpc_conn_def split: sum.splits)

lemma many_handlers:
  assumes "distinct (map fst targets)" and "list_all (dialled dial) targets"
    and "ConnectManyReplicas dial targets c = (c', r)"
  shows "ReplicaMessageStreamHandler i c' =
    (case map_of targets i of
       None \<Rightarrow> ReplicaMessageStreamHandler i c
     | Some target \<Rightarrow> Some (co_kind c, \<lparr>gr_id = i, gr_conn = projr (dial target)\<rparr>))"
proof -
  have tw: "takeWhile (dialled dial) targets = targets" using assms(2) by (simp add: takeWhile_eq_all_conv list_all_iff)
  have c': "c' = fold (\<lambda>(i, r). co_AssignReplica i r) (map (grpc_conn dial) targets) c"
    using assms(3) unfolding ConnectManyReplicas_eq tw by simp
  have "distinct (map fst (map (grpc_conn dial) targets))" using assms(1) by (simp add: grpc_conn_def comp_def)
  moreover have "map_of (map (grpc_conn dial) targets) i =
      map_option (\<lambda>t. \<lparr>gr_id = i, gr_conn = projr (dial t)\<rparr>) (map_of targets i)"
    by (induction targets) (auto simp: grpc_conn_def)
  ultimately show ?thesis
    using co.handler_assigned [of "map (grpc_conn dial) targets" i c] by (simp add: c' option.case_eq_if option.map_sel)
qed

section \<open>Copying goroutines\<close>

text \<open>
  A goroutine that copies takes a message, then puts it. \<open>Took\<close> and \<open>PutDone\<close> are a completed receive and
  a completed send, on a channel or on a gRPC stream; \<open>InputEnds\<close> is a closed channel or the end of a
  stream; the others are errors of a stream. A goroutine that has ended returns an error or nil. The
  histories of what was taken and put are not read.
\<close>

datatype relay_pc = Taking | Putting bytes | Ended "go_error option"

record relay =
  rl_pc :: relay_pc
  rl_taken :: "bytes list"
  rl_put :: "bytes list"

datatype relay_event = Took bytes | InputEnds | InputFails | PutDone | PutFails

definition new_relay :: relay where
  "new_relay = \<lparr>rl_pc = Taking, rl_taken = [], rl_put = []\<rparr>"

definition rl_take :: "bytes \<Rightarrow> relay \<Rightarrow> relay" where
  "rl_take m r = (if rl_pc r = Taking then r\<lparr>rl_pc := Putting m, rl_taken := rl_taken r @ [m]\<rparr> else r)"

definition rl_finish :: "go_error option \<Rightarrow> relay \<Rightarrow> relay" where
  "rl_finish e r = (if rl_pc r = Taking then r\<lparr>rl_pc := Ended e\<rparr> else r)"

definition rl_deliver :: "relay \<Rightarrow> relay" where
  "rl_deliver r = (case rl_pc r of Putting m \<Rightarrow> r\<lparr>rl_pc := Taking, rl_put := rl_put r @ [m]\<rparr> | _ \<Rightarrow> r)"

definition rl_abort :: "go_error option \<Rightarrow> relay \<Rightarrow> relay" where
  "rl_abort e r = (case rl_pc r of Putting m \<Rightarrow> r\<lparr>rl_pc := Ended e\<rparr> | _ \<Rightarrow> r)"

text \<open>From a channel to the stream of an RPC call, and back; errors are logged only.\<close>

fun handleIn :: "relay_event \<Rightarrow> relay \<Rightarrow> relay" where
  "handleIn (Took m) r = rl_take m r"
| "handleIn InputEnds r = rl_finish None r"
| "handleIn PutDone r = rl_deliver r"
| "handleIn PutFails r = rl_abort None r"
| "handleIn InputFails r = r"

fun handleOut :: "relay_event \<Rightarrow> relay \<Rightarrow> relay" where
  "handleOut (Took m) r = rl_take m r"
| "handleOut InputEnds r = rl_finish None r"
| "handleOut InputFails r = rl_finish None r"
| "handleOut PutDone r = rl_deliver r"
| "handleOut PutFails r = r"

text \<open>The two goroutines of \<open>handleStream\<close> in the server.\<close>

fun serveIn :: "relay_event \<Rightarrow> relay \<Rightarrow> relay" where
  "serveIn (Took m) r = rl_take m r"
| "serveIn InputEnds r = rl_finish None r"
| "serveIn InputFails r = rl_finish (Some (Error ''error receiving from server stream'')) r"
| "serveIn PutDone r = rl_deliver r"
| "serveIn PutFails r = r"

fun serveOut :: "relay_event \<Rightarrow> relay \<Rightarrow> relay" where
  "serveOut (Took m) r = rl_take m r"
| "serveOut InputEnds r = rl_finish None r"
| "serveOut PutDone r = rl_deliver r"
| "serveOut PutFails r = rl_abort (Some (Error ''error sending to server stream'')) r"
| "serveOut InputFails r = r"

text \<open>The goroutine of the stub of a stream handler.\<close>

fun stubOut :: "relay_event \<Rightarrow> relay \<Rightarrow> relay" where
  "stubOut (Took m) r = rl_take m r"
| "stubOut InputEnds r = rl_finish None r"
| "stubOut PutDone r = rl_deliver r"
| "stubOut InputFails r = r"
| "stubOut PutFails r = r"

section \<open>Copying keeps order\<close>

definition relay_ok :: "relay \<Rightarrow> bool" where
  "relay_ok r \<longleftrightarrow>
     (case rl_pc r of
        Taking \<Rightarrow> rl_put r = rl_taken r
      | Putting m \<Rightarrow> rl_taken r = rl_put r @ [m]
      | Ended e \<Rightarrow> prefix (rl_put r) (rl_taken r) \<and> length (rl_taken r) \<le> Suc (length (rl_put r)))"

lemma relay_ok_new: "relay_ok new_relay"
  by (simp add: relay_ok_def new_relay_def)

lemma relay_ok_moves:
  "relay_ok r \<Longrightarrow> relay_ok (rl_take m r)" "relay_ok r \<Longrightarrow> relay_ok (rl_finish e r)"
  "relay_ok r \<Longrightarrow> relay_ok (rl_deliver r)" "relay_ok r \<Longrightarrow> relay_ok (rl_abort e r)"
  by (auto simp: relay_ok_def rl_take_def rl_finish_def rl_deliver_def rl_abort_def split: relay_pc.splits)

lemma relay_ok_prefix: "relay_ok r \<Longrightarrow> prefix (rl_put r) (rl_taken r)"
  by (auto simp: relay_ok_def split: relay_pc.splits)

text \<open>What a copying goroutine promises.\<close>

locale copying =
  fixes step :: "relay_event \<Rightarrow> relay \<Rightarrow> relay"
  assumes step_ok: "relay_ok r \<Longrightarrow> relay_ok (step e r)"
begin

lemma run_ok: "relay_ok (fold step es new_relay)"
proof -
  have "relay_ok r \<Longrightarrow> relay_ok (fold step es r)" for r by (induction es arbitrary: r) (simp_all add: step_ok)
  then show ?thesis by (simp add: relay_ok_new)
qed

lemma run_prefix: "prefix (rl_put (fold step es new_relay)) (rl_taken (fold step es new_relay))"
  by (rule relay_ok_prefix [OF run_ok])

lemma run_idle: "rl_pc (fold step es new_relay) = Taking \<Longrightarrow>
    rl_put (fold step es new_relay) = rl_taken (fold step es new_relay)"
  using run_ok [of es] by (simp add: relay_ok_def)

end

interpretation hi: copying handleIn
proof
  show "relay_ok r \<Longrightarrow> relay_ok (handleIn e r)" for e r by (cases e) (simp_all add: relay_ok_moves)
qed

interpretation ho: copying handleOut
proof
  show "relay_ok r \<Longrightarrow> relay_ok (handleOut e r)" for e r by (cases e) (simp_all add: relay_ok_moves)
qed

interpretation si: copying serveIn
proof
  show "relay_ok r \<Longrightarrow> relay_ok (serveIn e r)" for e r by (cases e) (simp_all add: relay_ok_moves)
qed

interpretation so: copying serveOut
proof
  show "relay_ok r \<Longrightarrow> relay_ok (serveOut e r)" for e r by (cases e) (simp_all add: relay_ok_moves)
qed

interpretation st: copying stubOut
proof
  show "relay_ok r \<Longrightarrow> relay_ok (stubOut e r)" for e r by (cases e) (simp_all add: relay_ok_moves)
qed

section \<open>The server side of an RPC call\<close>

text \<open>
  \<open>ClientChat\<close> and \<open>PeerChat\<close> of the server: a stream handler of the replica is started on two new channels,
  and \<open>handleStream\<close> copies in both directions. Its goroutines form an error group: it returns when both
  have ended, with the first error. \<open>rp_handling\<close> tells if the stream handler still runs: only then does
  it read the one channel and write the other, which it closes when it returns.
\<close>

record rpc_server =
  rp_in :: relay
  rp_out :: relay
  rp_handling :: bool
  rp_err :: "go_error option"

definition rpc_start :: rpc_server where
  "rpc_start = \<lparr>rp_in = new_relay, rp_out = new_relay, rp_handling = True, rp_err = None\<rparr>"

datatype rpc_event = RecvSide relay_event | SendSide relay_event | HandlerReturns

definition group_err :: "go_error option \<Rightarrow> relay \<Rightarrow> go_error option" where
  "group_err err r =
     (case err of Some e \<Rightarrow> Some e | None \<Rightarrow> (case rl_pc r of Ended e \<Rightarrow> e | _ \<Rightarrow> None))"

fun possible :: "bool \<Rightarrow> rpc_event \<Rightarrow> bool" where
  "possible handling (RecvSide PutDone) = handling"
| "possible handling (SendSide (Took m)) = handling"
| "possible handling (SendSide InputEnds) = (\<not> handling)"
| "possible handling _ = True"

fun rpc_step :: "rpc_event \<Rightarrow> rpc_server \<Rightarrow> rpc_server" where
  "rpc_step (RecvSide e) x =
     (if possible (rp_handling x) (RecvSide e)
      then let r = serveIn e (rp_in x) in x\<lparr>rp_in := r, rp_err := group_err (rp_err x) r\<rparr> else x)"
| "rpc_step (SendSide e) x =
     (if possible (rp_handling x) (SendSide e)
      then let r = serveOut e (rp_out x) in x\<lparr>rp_out := r, rp_err := group_err (rp_err x) r\<rparr> else x)"
| "rpc_step HandlerReturns x = x\<lparr>rp_handling := False\<rparr>"

definition rpc_result :: "rpc_server \<Rightarrow> go_error option option" where
  "rpc_result x =
     (case (rl_pc (rp_in x), rl_pc (rp_out x)) of
        (Ended _, Ended _) \<Rightarrow> Some (rp_err x)
      | _ \<Rightarrow> None)"

lemma blocked_step:
  "\<not> rp_handling x \<Longrightarrow> rl_pc (rp_in x) = Putting m \<Longrightarrow> \<not> rp_handling (rpc_step e x) \<and> rp_in (rpc_step e x) = rp_in x"
proof (cases e)
  case (RecvSide r)
  then show "\<not> rp_handling x \<Longrightarrow> rl_pc (rp_in x) = Putting m \<Longrightarrow> ?thesis"
    by (cases r) (simp_all add: rl_take_def rl_finish_def rl_deliver_def rl_abort_def)
qed (simp_all add: Let_def)

lemma blocked_run:
  "\<not> rp_handling x \<Longrightarrow> rl_pc (rp_in x) = Putting m \<Longrightarrow> rp_in (fold rpc_step es x) = rp_in x"
  by (induction es arbitrary: x) (simp_all add: blocked_step)

lemma rpc_ok: "relay_ok (rp_in (fold rpc_step es rpc_start)) \<and> relay_ok (rp_out (fold rpc_step es rpc_start))"
proof -
  have "relay_ok (rp_in (rpc_step e x)) \<and> relay_ok (rp_out (rpc_step e x))"
    if "relay_ok (rp_in x) \<and> relay_ok (rp_out x)" for e x
    using that by (cases e) (simp_all add: Let_def si.step_ok so.step_ok)
  then have "relay_ok (rp_in x) \<and> relay_ok (rp_out x) \<Longrightarrow>
      relay_ok (rp_in (fold rpc_step es x)) \<and> relay_ok (rp_out (fold rpc_step es x))" for x
    by (induction es arbitrary: x) simp_all
  then show ?thesis by (simp add: rpc_start_def relay_ok_new)
qed

section \<open>The calling side of an RPC call\<close>

text \<open>
  \<open>HandleMessageStream\<close> of the representation of a replica: a goroutine makes the call and, unless that
  fails, starts \<open>handleIn\<close> and runs \<open>handleOut\<close>; then it closes the channel that was returned.
\<close>

datatype call_pc = Calling | Called | CallFailed

record rpc_caller =
  ca_pc :: call_pc
  ca_in :: relay
  ca_out :: relay

datatype call_event = CallMade | CallError | InSide relay_event | OutSide relay_event

definition call_start :: rpc_caller where
  "call_start = \<lparr>ca_pc = Calling, ca_in = new_relay, ca_out = new_relay\<rparr>"

fun call_step :: "call_event \<Rightarrow> rpc_caller \<Rightarrow> rpc_caller" where
  "call_step CallMade x = (if ca_pc x = Calling then x\<lparr>ca_pc := Called\<rparr> else x)"
| "call_step CallError x = (if ca_pc x = Calling then x\<lparr>ca_pc := CallFailed\<rparr> else x)"
| "call_step (InSide e) x = (if ca_pc x = Called then x\<lparr>ca_in := handleIn e (ca_in x)\<rparr> else x)"
| "call_step (OutSide e) x = (if ca_pc x = Called then x\<lparr>ca_out := handleOut e (ca_out x)\<rparr> else x)"

definition out_closed :: "rpc_caller \<Rightarrow> bool" where
  "out_closed x =
     (case ca_pc x of
        Calling \<Rightarrow> False
      | CallFailed \<Rightarrow> True
      | Called \<Rightarrow> (case rl_pc (ca_out x) of Ended _ \<Rightarrow> True | _ \<Rightarrow> False))"

lemma call_ok: "relay_ok (ca_in (fold call_step es call_start)) \<and> relay_ok (ca_out (fold call_step es call_start))"
proof -
  have "relay_ok (ca_in (call_step e x)) \<and> relay_ok (ca_out (call_step e x))"
    if "relay_ok (ca_in x) \<and> relay_ok (ca_out x)" for e x
    using that by (cases e) (simp_all add: hi.step_ok ho.step_ok)
  then have "relay_ok (ca_in x) \<and> relay_ok (ca_out x) \<Longrightarrow>
      relay_ok (ca_in (fold call_step es x)) \<and> relay_ok (ca_out (fold call_step es x))" for x
    by (induction es arbitrary: x) simp_all
  then show ?thesis by (simp add: call_start_def relay_ok_new)
qed

lemma relay_ok_idle: "relay_ok r \<Longrightarrow> rl_pc r = Taking \<Longrightarrow> rl_put r = rl_taken r"
  by (simp add: relay_ok_def)

section \<open>A replica that is not available yet\<close>

text \<open>
  The stub of a replica hands out stubs of stream handlers. For each of them, a goroutine waits for the
  replica and then assigns its handler; a stream started on such a stub waits for that. The handler is
  given the channel of incoming messages itself. \<open>handler_of\<close> is the handler of a replica, None for nil.
\<close>

record 'h handler_stub =
  hs_chat :: chat
  hs_handler :: "'h option"
  hs_ready :: bool

datatype 'h stub_stream = AwaitReady nat | Serving nat 'h relay | Finished_stream

record ('r, 'h) stub_sys =
  sb_replica :: "'r option"
  sb_ready :: bool
  sb_handlers :: "'h handler_stub list"
  sb_streams :: "'h stub_stream list"

definition new_stub :: "('r, 'h) stub_sys" where
  "new_stub = \<lparr>sb_replica = None, sb_ready = False, sb_handlers = [], sb_streams = []\<rparr>"

definition stub_AssignReplica :: "'r \<Rightarrow> (('r, 'h) stub_sys, unit) handler" where
  "stub_AssignReplica replica x =
     (x\<lparr>sb_replica := Some replica, sb_ready := True\<rparr>,
      if sb_ready x then Inl (Panic ''close of closed channel'') else Inr ())"

definition newMessageStreamHandlerStub :: "chat \<Rightarrow> 'h handler_stub" where
  "newMessageStreamHandlerStub ch = \<lparr>hs_chat = ch, hs_handler = None, hs_ready = False\<rparr>"

definition stub_MessageStreamHandler :: "chat \<Rightarrow> ('r, 'h) stub_sys \<Rightarrow> ('r, 'h) stub_sys" where
  "stub_MessageStreamHandler ch x = x\<lparr>sb_handlers := sb_handlers x @ [newMessageStreamHandlerStub ch]\<rparr>"

text \<open>The goroutine of handler stub \<open>k\<close> runs once, when the replica is there.\<close>

definition stub_assign :: "(chat \<Rightarrow> 'r \<Rightarrow> 'h option) \<Rightarrow> nat \<Rightarrow> ('r, 'h) stub_sys \<Rightarrow> ('r, 'h) stub_sys" where
  "stub_assign handler_of k x =
     (if k < length (sb_handlers x) \<and> sb_ready x \<and> \<not> hs_ready (sb_handlers x ! k)
      then case sb_replica x of
             None \<Rightarrow> x
           | Some replica \<Rightarrow>
               x\<lparr>sb_handlers := (sb_handlers x)[k := (sb_handlers x ! k)
                 \<lparr>hs_handler := handler_of (hs_chat (sb_handlers x ! k)) replica, hs_ready := True\<rparr>]\<rparr>
      else x)"

definition stub_HandleMessageStream :: "nat \<Rightarrow> ('r, 'h) stub_sys \<Rightarrow> ('r, 'h) stub_sys" where
  "stub_HandleMessageStream k x =
     (if k < length (sb_handlers x) then x\<lparr>sb_streams := sb_streams x @ [AwaitReady k]\<rparr> else x)"

definition stub_start :: "nat \<Rightarrow> ('r, 'h) stub_sys \<Rightarrow> ('r, 'h) stub_sys" where
  "stub_start j x =
     (if j < length (sb_streams x)
      then case sb_streams x ! j of
             AwaitReady k \<Rightarrow>
               if hs_ready (sb_handlers x ! k)
               then x\<lparr>sb_streams := (sb_streams x)[j :=
                   (case hs_handler (sb_handlers x ! k) of None \<Rightarrow> Finished_stream | Some h \<Rightarrow> Serving k h new_relay)]\<rparr>
               else x
           | _ \<Rightarrow> x
      else x)"

definition stub_copy :: "nat \<Rightarrow> relay_event \<Rightarrow> ('r, 'h) stub_sys \<Rightarrow> ('r, 'h) stub_sys" where
  "stub_copy j e x =
     (if j < length (sb_streams x)
      then case sb_streams x ! j of
             Serving k h r \<Rightarrow> x\<lparr>sb_streams := (sb_streams x)[j := Serving k h (stubOut e r)]\<rparr>
           | _ \<Rightarrow> x
      else x)"

inductive stub_reach :: "(chat \<Rightarrow> 'r \<Rightarrow> 'h option) \<Rightarrow> ('r, 'h) stub_sys \<Rightarrow> bool" for handler_of where
  sb_new: "stub_reach handler_of new_stub"
| sb_assign_replica: "stub_reach handler_of x \<Longrightarrow> stub_AssignReplica r x = (x', Inr ()) \<Longrightarrow> stub_reach handler_of x'"
| sb_open: "stub_reach handler_of x \<Longrightarrow> stub_reach handler_of (stub_MessageStreamHandler ch x)"
| sb_assign: "stub_reach handler_of x \<Longrightarrow> stub_reach handler_of (stub_assign handler_of k x)"
| sb_handle: "stub_reach handler_of x \<Longrightarrow> stub_reach handler_of (stub_HandleMessageStream k x)"
| sb_start: "stub_reach handler_of x \<Longrightarrow> stub_reach handler_of (stub_start j x)"
| sb_copy: "stub_reach handler_of x \<Longrightarrow> stub_reach handler_of (stub_copy j e x)"

fun stream_ok :: "'h handler_stub list \<Rightarrow> 'h stub_stream \<Rightarrow> bool" where
  "stream_ok hs (AwaitReady k) = (k < length hs)"
| "stream_ok hs (Serving k h r) = (k < length hs \<and> hs_ready (hs ! k) \<and> hs_handler (hs ! k) = Some h \<and> relay_ok r)"
| "stream_ok hs Finished_stream = True"

definition stub_inv :: "(chat \<Rightarrow> 'r \<Rightarrow> 'h option) \<Rightarrow> ('r, 'h) stub_sys \<Rightarrow> bool" where
  "stub_inv handler_of x \<longleftrightarrow>
     sb_ready x = (sb_replica x \<noteq> None) \<and>
     (\<forall>h \<in> set (sb_handlers x). hs_ready h \<longrightarrow>
        (\<exists>r. sb_replica x = Some r \<and> hs_handler h = handler_of (hs_chat h) r)) \<and>
     list_all (stream_ok (sb_handlers x)) (sb_streams x)"

lemma stream_ok_more: "stream_ok hs s \<Longrightarrow> stream_ok (hs @ [h]) s"
  by (cases s) (auto simp: nth_append)

lemma stream_ok_ready: "stream_ok hs s \<Longrightarrow> k < length hs \<Longrightarrow> \<not> hs_ready (hs ! k) \<Longrightarrow> stream_ok (hs[k := h]) s"
  by (cases s) (auto simp: nth_list_update)

lemma stub_inv_streams:
  assumes "stub_inv handler_of x" and "stream_ok (sb_handlers x) s"
  shows "stub_inv handler_of (x\<lparr>sb_streams := (sb_streams x)[j := s]\<rparr>)"
  using assms by (auto simp: stub_inv_def list_all_iff dest!: set_update_subset_insert [THEN subsetD])

lemma stub_inv_nth: "stub_inv handler_of x \<Longrightarrow> j < length (sb_streams x) \<Longrightarrow> stream_ok (sb_handlers x) (sb_streams x ! j)"
  by (simp add: stub_inv_def list_all_length)

lemma reach_stub_inv: "stub_reach handler_of x \<Longrightarrow> stub_inv handler_of x"
proof (induction rule: stub_reach.induct)
  case sb_new
  show ?case by (simp add: stub_inv_def new_stub_def)
next
  case (sb_assign_replica x r x')
  then show ?case by (fastforce simp: stub_inv_def stub_AssignReplica_def split: if_splits)
next
  case (sb_open x ch)
  then show ?case
    by (auto simp: stub_inv_def stub_MessageStreamHandler_def newMessageStreamHandlerStub_def list_all_iff intro: stream_ok_more)
next
  case (sb_assign x k)
  then show ?case
    by (auto simp: stub_inv_def stub_assign_def list_all_iff stream_ok_ready split: option.splits
        dest!: set_update_subset_insert [THEN subsetD])
next
  case (sb_handle x k)
  then show ?case by (auto simp: stub_inv_def stub_HandleMessageStream_def)
next
  case (sb_start x j)
  then show ?case
    using stub_inv_nth [OF sb_start.IH, of j]
    by (auto simp: stub_start_def relay_ok_new split: stub_stream.splits option.splits intro!: stub_inv_streams)
next
  case (sb_copy x j e)
  then show ?case
    using stub_inv_nth [OF sb_copy.IH, of j] st.step_ok
    by (auto simp: stub_copy_def split: stub_stream.splits intro!: stub_inv_streams)
qed

section \<open>Properties\<close>

text \<open>
  C34: connections over gRPC keep messages in order. If a gRPC stream returns from \<open>Recv\<close> what was given
  to \<open>Send\<close>, in order, then what the stream handler of the server reads is a prefix of what the caller has
  written, and what the caller reads is a prefix of what the handler has written: nothing is lost in
  between, duplicated or reordered. When all goroutines wait for input and the network is empty,
  everything has arrived.
\<close>

theorem grpc_order:
  fixes es :: "call_event list" and fs :: "rpc_event list"
  defines "a \<equiv> fold call_step es call_start" and "b \<equiv> fold rpc_step fs rpc_start"
  assumes "prefix (rl_taken (rp_in b)) (rl_put (ca_in a))" and "prefix (rl_taken (ca_out a)) (rl_put (rp_out b))"
  shows "prefix (rl_put (rp_in b)) (rl_taken (ca_in a)) \<and> prefix (rl_put (ca_out a)) (rl_taken (rp_out b)) \<and>
    (rl_pc (ca_in a) = Taking \<and> rl_pc (rp_in b) = Taking \<and> rl_taken (rp_in b) = rl_put (ca_in a) \<longrightarrow>
       rl_put (rp_in b) = rl_taken (ca_in a)) \<and>
    (rl_pc (rp_out b) = Taking \<and> rl_pc (ca_out a) = Taking \<and> rl_taken (ca_out a) = rl_put (rp_out b) \<longrightarrow>
       rl_put (ca_out a) = rl_taken (rp_out b))"
proof -
  have ok: "relay_ok (ca_in a)" "relay_ok (ca_out a)" "relay_ok (rp_in b)" "relay_ok (rp_out b)"
    using call_ok [of es] rpc_ok [of fs] by (simp_all add: a_def b_def)
  note p = ok [THEN relay_ok_prefix]
  have "prefix (rl_put (rp_in b)) (rl_taken (ca_in a))"
    by (rule prefix_order.trans [OF p(3) prefix_order.trans [OF assms(3) p(1)]])
  moreover have "prefix (rl_put (ca_out a)) (rl_taken (rp_out b))"
    by (rule prefix_order.trans [OF p(2) prefix_order.trans [OF assms(4) p(4)]])
  ultimately show ?thesis using ok [THEN relay_ok_idle] by simp
qed

theorem grpc_order_witness:
  "rl_put (rp_in (fold rpc_step [RecvSide (Took [1]), RecvSide PutDone] rpc_start)) = [[1]] \<and>
   prefix (rl_put (rp_in (fold rpc_step [RecvSide (Took [1]), RecvSide PutDone] rpc_start)))
     (rl_taken (ca_in (fold call_step [CallMade, InSide (Took [1]), InSide PutDone, InSide (Took [2])] call_start)))"
proof
  let ?es = "[CallMade, InSide (Took [1]), InSide PutDone, InSide (Took [2])]"
    and ?fs = "[RecvSide (Took [1]), RecvSide PutDone]"
  show "rl_put (rp_in (fold rpc_step ?fs rpc_start)) = [[1]]" by code_simp
  have "prefix (rl_taken (rp_in (fold rpc_step ?fs rpc_start))) (rl_put (ca_in (fold call_step ?es call_start)))"
    "prefix (rl_taken (ca_out (fold call_step ?es call_start))) (rl_put (rp_out (fold rpc_step ?fs rpc_start)))"
    by code_simp+
  from grpc_order [OF this]
  show "prefix (rl_put (rp_in (fold rpc_step ?fs rpc_start))) (rl_taken (ca_in (fold call_step ?es call_start)))" by blast
qed

text \<open>
  C35: a connection whose handler has given up hangs. If the stream handler of a replica returns, as it
  does after a message that it rejects, and another message arrives, then the goroutine that copies
  from the gRPC stream is blocked on a channel that nobody reads, whatever happens afterwards: the RPC
  call never returns, and the caller is not told.
\<close>

theorem rejected_stream_hangs:
  "\<exists>x. x = fold rpc_step [RecvSide (Took m), RecvSide PutDone, HandlerReturns, RecvSide (Took m')] rpc_start \<and>
     (\<forall>es. rpc_result (fold rpc_step es x) = None \<and> rl_put (rp_in (fold rpc_step es x)) = [m])"
proof -
  let ?x = "fold rpc_step [RecvSide (Took m), RecvSide PutDone, HandlerReturns, RecvSide (Took m')] rpc_start"
  have x: "\<not> rp_handling ?x" "rl_pc (rp_in ?x) = Putting m'" "rl_put (rp_in ?x) = [m]"
    by (simp_all add: rpc_start_def new_relay_def rl_take_def rl_deliver_def Let_def)
  have "rpc_result (fold rpc_step es ?x) = None \<and> rl_put (rp_in (fold rpc_step es ?x)) = [m]" for es
    using blocked_run [OF x(1,2), of es] x(2,3) by (simp add: rpc_result_def)
  then show ?thesis by blast
qed

text \<open>
  The stub of a replica is transparent. A stream started through it is served by the handler of the
  replica that was assigned, of the kind that was asked for, and what comes out is a prefix of what
  that handler has sent; before the replica is assigned, no stream is served; afterwards every waiting
  stream can proceed. Assigning a replica twice panics.
\<close>

lemma stub_transparent:
  fixes handler_of :: "chat \<Rightarrow> 'r \<Rightarrow> 'h option"
  assumes "stub_reach handler_of x" and "j < length (sb_streams x)"
  shows "(\<forall>k h r. sb_streams x ! j = Serving k h r \<longrightarrow>
      (\<exists>replica. sb_replica x = Some replica \<and> handler_of (hs_chat (sb_handlers x ! k)) replica = Some h) \<and>
      prefix (rl_put r) (rl_taken r)) \<and>
    (\<forall>k replica. sb_streams x ! j = AwaitReady k \<and> sb_replica x = Some replica \<longrightarrow>
      sb_streams (stub_start j (stub_assign handler_of k x)) ! j =
        (case handler_of (hs_chat (sb_handlers x ! k)) replica of None \<Rightarrow> Finished_stream | Some h \<Rightarrow> Serving k h new_relay)) \<and>
    (sb_replica x \<noteq> None \<longrightarrow> snd (stub_AssignReplica r' x) = Inl (Panic ''close of closed channel''))"
proof (intro conjI allI impI)
  have inv: "stub_inv handler_of x" by (rule reach_stub_inv [OF assms(1)])
  have ok: "stream_ok (sb_handlers x) (sb_streams x ! j)" by (rule stub_inv_nth [OF inv assms(2)])
  have ready: "hs_ready (sb_handlers x ! k) \<Longrightarrow> k < length (sb_handlers x) \<Longrightarrow>
      \<exists>r. sb_replica x = Some r \<and> hs_handler (sb_handlers x ! k) = handler_of (hs_chat (sb_handlers x ! k)) r" for k
    using inv by (simp add: stub_inv_def)
  show "\<exists>replica. sb_replica x = Some replica \<and> handler_of (hs_chat (sb_handlers x ! k)) replica = Some h"
    and "prefix (rl_put r) (rl_taken r)" if "sb_streams x ! j = Serving k h r" for k h r
    using ok that ready [of k] by (auto intro: relay_ok_prefix)
  show "sb_streams (stub_start j (stub_assign handler_of k x)) ! j =
      (case handler_of (hs_chat (sb_handlers x ! k)) replica of None \<Rightarrow> Finished_stream | Some h \<Rightarrow> Serving k h new_relay)"
    if w: "sb_streams x ! j = AwaitReady k \<and> sb_replica x = Some replica" for k replica
  proof -
    have k: "k < length (sb_handlers x)" "sb_ready x" using ok w inv by (auto simp: stub_inv_def)
    then show ?thesis
      using w assms(2) ready [of k] by (cases "hs_ready (sb_handlers x ! k)") (auto simp: stub_assign_def stub_start_def)
  qed
  show "snd (stub_AssignReplica r' x) = Inl (Panic ''close of closed channel'')" if "sb_replica x \<noteq> None"
    using that inv by (simp add: stub_AssignReplica_def stub_inv_def)
qed

end
