(* ===== verification/Config.thy ===== *)
theory Config
  imports Prelude
begin

text \<open>
  The sample configuration (\<open>sample/config/viperconfiger.go\<close>). The viper library, which reads and parses
  files, is a parameter; the path functions of package \<open>filepath\<close> are those for Unix.
\<close>

section \<open>Paths\<close>

definition Split :: "string \<Rightarrow> string \<times> string" where
  "Split path =
     (rev (dropWhile (\<lambda>c. c \<noteq> CHR ''/'') (rev path)), rev (takeWhile (\<lambda>c. c \<noteq> CHR ''/'') (rev path)))"

text \<open>\<open>Ext\<close> looks for a dot from the end of the path on, and stops at a separator.\<close>

fun ext_loop :: "string \<Rightarrow> string \<Rightarrow> string" where
  "ext_loop [] ext = []"
| "ext_loop (c # cs) ext =
     (if c = CHR ''/'' then [] else if c = CHR ''.'' then c # ext else ext_loop cs (c # ext))"

definition Ext :: "string \<Rightarrow> string" where
  "Ext path = ext_loop (rev path) []"

lemma Split_append: "fst (Split path) @ snd (Split path) = path"
proof -
  have "rev (dropWhile P xs) @ rev (takeWhile P xs) = rev xs" for P and xs :: string
    by (metis rev_append takeWhile_dropWhile_id)
  then show ?thesis by (simp add: Split_def)
qed

lemma Split_unique:
  assumes "CHR ''/'' \<notin> set base" and "dir = [] \<or> last dir = CHR ''/''"
  shows "Split (dir @ base) = (dir, base)"
proof -
  have "takeWhile (\<lambda>c. c \<noteq> CHR ''/'') (rev base @ rev dir) = rev base"
    "dropWhile (\<lambda>c. c \<noteq> CHR ''/'') (rev base @ rev dir) = rev dir"
    using assms by (cases dir rule: rev_cases; auto simp: takeWhile_append dropWhile_append)+
  then show ?thesis by (simp add: Split_def)
qed

lemma Split_parts: "CHR ''/'' \<notin> set (snd (Split path)) \<and> (fst (Split path) = [] \<or> last (fst (Split path)) = CHR ''/'')"
proof -
  have "hd (dropWhile (\<lambda>c. c \<noteq> CHR ''/'') xs) = CHR ''/''" if "dropWhile (\<lambda>c. c \<noteq> CHR ''/'') xs \<noteq> []" for xs :: string
    using hd_dropWhile [OF that] by simp
  then show ?thesis by (auto simp: Split_def last_rev dest: set_takeWhileD)
qed

lemma ext_loop_none: "CHR ''.'' \<notin> set cs \<Longrightarrow> ext_loop cs ext = []"
  by (induction cs arbitrary: ext) auto

lemma ext_loop_dot:
  "CHR ''.'' \<notin> set cs \<Longrightarrow> CHR ''/'' \<notin> set cs \<Longrightarrow> ext_loop (cs @ CHR ''.'' # ds) ext = CHR ''.'' # rev cs @ ext"
  by (induction cs arbitrary: ext) auto

lemma Ext_dot: "CHR ''.'' \<notin> set ext \<Longrightarrow> CHR ''/'' \<notin> set ext \<Longrightarrow> Ext (name @ CHR ''.'' # ext) = CHR ''.'' # ext"
  using ext_loop_dot [of "rev ext" "rev name" "[]"] by (simp add: Ext_def)

lemma Ext_none: "CHR ''.'' \<notin> set base \<Longrightarrow> Ext base = []"
  by (simp add: Ext_def ext_loop_none)

lemma dot_split: "CHR ''.'' \<in> set base \<Longrightarrow> \<exists>name ext. base = name @ CHR ''.'' # ext \<and> CHR ''.'' \<notin> set ext"
  by (metis split_list_last)

section \<open>Loading\<close>

text \<open>
  The library: reading a file given its name, type and directories, parsing bytes of a type, and
  access to the values. Integers are signed 64-bit numbers, durations are in nanoseconds.
\<close>

record Peer =
  peer_ID :: u64
  peer_Addr :: string

record 'v viper =
  vi_ReadInConfig :: "string \<Rightarrow> string \<Rightarrow> string list \<Rightarrow> 'v result"
  vi_ReadConfig :: "bytes \<Rightarrow> string \<Rightarrow> 'v result"
  vi_GetInt64 :: "'v \<Rightarrow> string \<Rightarrow> u64"
  vi_GetDuration :: "'v \<Rightarrow> string \<Rightarrow> u64"
  vi_UnmarshalPeers :: "'v \<Rightarrow> Peer list result"

text \<open>A configer holds nil until a configuration was loaded.\<close>

type_synonym 'v configer = "'v option"

definition new_configer :: "'v configer" where
  "new_configer = None"

definition LoadConfig :: "'v viper \<Rightarrow> string \<Rightarrow> ('v configer, unit) handler" where
  "LoadConfig vi filePath c =
     (let (confPath, confName) = Split filePath;
          ext = Ext confName;
          name = take (length confName - length ext) confName
      in if length ext < 2 \<or> name = []
         then (c, Inl (Panic ''Invalid config file name (should specify file extension for parsing).''))
         else case vi_ReadInConfig vi name (tl ext) [confPath, ''./''] of
                Inl e \<Rightarrow> (c, Inl (Panic ''Failed to parse config file''))
              | Inr v \<Rightarrow> (Some v, Inr ()))"

definition cfg_ReadConfig :: "'v viper \<Rightarrow> bytes \<Rightarrow> string \<Rightarrow> ('v configer, unit) handler" where
  "cfg_ReadConfig vi contents cfgType c =
     (case vi_ReadConfig vi contents cfgType of Inl e \<Rightarrow> (c, Inl e) | Inr v \<Rightarrow> (Some v, Inr ()))"

definition IsInitialized :: "'v configer \<Rightarrow> bool" where
  "IsInitialized c = (c \<noteq> None)"

section \<open>Values\<close>

text \<open>Reading a value before a configuration was loaded dereferences nil.\<close>

definition getUint32 :: "'v viper \<Rightarrow> string \<Rightarrow> 'v configer \<Rightarrow> u32 result" where
  "getUint32 vi key c =
     (case c of
        None \<Rightarrow> Inl (Panic ''nil pointer dereference'')
      | Some v \<Rightarrow>
          (let n = vi_GetInt64 vi v key
           in if sint n < 0 \<or> sint n > 4294967295 then Inl (Panic (''interger overflow: '' @ key)) else Inr (ucast n)))"

definition getTimeDuration :: "'v viper \<Rightarrow> string \<Rightarrow> 'v configer \<Rightarrow> u64 result" where
  "getTimeDuration vi key c =
     (case c of None \<Rightarrow> Inl (Panic ''nil pointer dereference'') | Some v \<Rightarrow> Inr (vi_GetDuration vi v key))"

definition cfg_N :: "'v viper \<Rightarrow> 'v configer \<Rightarrow> u32 result" where
  "cfg_N vi = getUint32 vi ''protocol.n''"

definition cfg_F :: "'v viper \<Rightarrow> 'v configer \<Rightarrow> u32 result" where
  "cfg_F vi = getUint32 vi ''protocol.f''"

definition CheckpointPeriod :: "'v viper \<Rightarrow> 'v configer \<Rightarrow> u32 result" where
  "CheckpointPeriod vi = getUint32 vi ''protocol.checkpointPeriod''"

definition Logsize :: "'v viper \<Rightarrow> 'v configer \<Rightarrow> u32 result" where
  "Logsize vi = getUint32 vi ''protocol.logsize''"

definition TimeoutRequest :: "'v viper \<Rightarrow> 'v configer \<Rightarrow> u64 result" where
  "TimeoutRequest vi = getTimeDuration vi ''protocol.timeout.request''"

definition TimeoutPrepare :: "'v viper \<Rightarrow> 'v configer \<Rightarrow> u64 result" where
  "TimeoutPrepare vi = getTimeDuration vi ''protocol.timeout.prepare''"

definition TimeoutViewChange :: "'v viper \<Rightarrow> 'v configer \<Rightarrow> u64 result" where
  "TimeoutViewChange vi = getTimeDuration vi ''protocol.timeout.viewchange''"

text \<open>A list of peers that cannot be parsed is logged, and taken to be empty.\<close>

definition Peers :: "'v viper \<Rightarrow> 'v configer \<Rightarrow> Peer list result" where
  "Peers vi c =
     (case c of
        None \<Rightarrow> Inl (Panic ''nil pointer dereference'')
      | Some v \<Rightarrow> (case vi_UnmarshalPeers vi v of Inl e \<Rightarrow> Inr [] | Inr peers \<Rightarrow> Inr peers))"

lemma getUint32_value:
  "getUint32 vi key (Some v) = Inr n \<longleftrightarrow> uint n = sint (vi_GetInt64 vi v key)"
proof -
  let ?x = "vi_GetInt64 vi v key"
  have low: "uint (ucast ?x :: u32) = sint ?x" if "0 \<le> sint ?x" "sint ?x \<le> 4294967295"
  proof -
    have "uint ?x = sint ?x" using that by (subst uint_sint) (simp add: take_bit_int_eq_self)
    with that show ?thesis by (simp add: unsigned_ucast_eq take_bit_int_eq_self)
  qed
  have "0 \<le> uint n" "uint n \<le> 4294967295" using unsigned_less [of n, where 'a = int] by simp_all
  then have "uint n \<noteq> sint ?x" if "sint ?x < 0 \<or> sint ?x > 4294967295" using that by linarith
  with low show ?thesis
    by (cases "sint ?x < 0 \<or> sint ?x > 4294967295") (auto simp: getUint32_def Let_def intro: word_uint_eqI)
qed

lemma getUint32_fails:
  "getUint32 vi key (Some v) = Inl e \<longleftrightarrow>
     e = Panic (''interger overflow: '' @ key) \<and> sint (vi_GetInt64 vi v key) \<notin> {0..<2 ^ 32}"
  by (auto simp: getUint32_def Let_def)

section \<open>File names\<close>

definition config_path :: "string \<Rightarrow> string \<Rightarrow> string \<Rightarrow> string \<Rightarrow> bool" where
  "config_path dir name ext path \<longleftrightarrow>
     path = dir @ name @ ''.'' @ ext \<and> (dir = [] \<or> last dir = CHR ''/'') \<and>
     CHR ''/'' \<notin> set (name @ ext) \<and> CHR ''.'' \<notin> set ext \<and> name \<noteq> [] \<and> ext \<noteq> []"

lemma LoadConfig_path:
  assumes "config_path dir name ext path"
  shows "LoadConfig vi path c =
    (case vi_ReadInConfig vi name ext [dir, ''./''] of
       Inl e \<Rightarrow> (c, Inl (Panic ''Failed to parse config file''))
     | Inr v \<Rightarrow> (Some v, Inr ()))"
proof -
  have "Split path = (dir, name @ CHR ''.'' # ext)"
    using assms Split_unique [of "name @ CHR ''.'' # ext" dir] by (simp add: config_path_def)
  moreover have "Ext (name @ CHR ''.'' # ext) = CHR ''.'' # ext" using assms by (intro Ext_dot) (simp_all add: config_path_def)
  ultimately show ?thesis using assms by (cases ext) (simp_all add: LoadConfig_def Let_def config_path_def)
qed

lemma LoadConfig_other:
  assumes "\<forall>dir name ext. \<not> config_path dir name ext path"
  shows "LoadConfig vi path c =
    (c, Inl (Panic ''Invalid config file name (should specify file extension for parsing).''))"
proof -
  obtain dir base where s: "Split path = (dir, base)" by fastforce
  have parts: "path = dir @ base" "CHR ''/'' \<notin> set base" "dir = [] \<or> last dir = CHR ''/''"
    using Split_append [of path] Split_parts [of path] s by auto
  show ?thesis
  proof (cases "CHR ''.'' \<in> set base")
    case True
    then obtain name ext where b: "base = name @ CHR ''.'' # ext" "CHR ''.'' \<notin> set ext" using dot_split by blast
    with parts have "Ext base = CHR ''.'' # ext" by (simp add: Ext_dot)
    moreover have "name = [] \<or> ext = []" using assms parts b by (auto simp: config_path_def)
    ultimately show ?thesis using s b by (auto simp: LoadConfig_def Let_def)
  next
    case False
    with s show ?thesis by (simp add: LoadConfig_def Ext_none)
  qed
qed

section \<open>Example\<close>

definition demo_viper :: "unit viper" where
  "demo_viper = \<lparr>vi_ReadInConfig = (\<lambda>name type dirs. if name = ''consensus'' \<and> type = ''yaml'' then Inr () else Inl (Error ''not found'')),
     vi_ReadConfig = (\<lambda>bs type. Inr ()), vi_GetInt64 = (\<lambda>_ key. if key = ''protocol.n'' then 3 else if key = ''protocol.f'' then 1 else - 1),
     vi_GetDuration = (\<lambda>_ _. 2000000000),
     vi_UnmarshalPeers = (\<lambda>_. Inr (map (\<lambda>i. \<lparr>peer_ID = i, peer_Addr = '':8000''\<rparr>) [0, 1, 2]))\<rparr>"

section \<open>Properties\<close>

text \<open>
  C37: numbers in the configuration are taken over exactly or not at all. A 32-bit setting is returned
  if and only if the signed 64-bit value in the file is that number; every other value, a negative
  one included, ends in a panic that names the key.
\<close>

theorem config_bounds:
  "(getUint32 vi key (Some v) = Inr n \<longleftrightarrow> uint n = sint (vi_GetInt64 vi v key)) \<and>
   (getUint32 vi key (Some v) = Inl e \<longleftrightarrow>
      e = Panic (''interger overflow: '' @ key) \<and> sint (vi_GetInt64 vi v key) \<notin> {0..<2 ^ 32})"
  by (intro conjI getUint32_value getUint32_fails)

text \<open>
  \<open>LoadConfig\<close> accepts exactly the file names that have a name and an extension: the path is a
  directory, a name and an extension that are both not empty, with no further separator and no
  further dot in the extension. The library is asked for that name and type in that directory and in
  the current one. Every other path, a hidden file such as \<open>.yaml\<close> or a dot in a directory only,
  panics.
\<close>

lemma config_file_name:
  "(\<forall>dir name ext. config_path dir name ext path \<longrightarrow>
      LoadConfig vi path c =
        (case vi_ReadInConfig vi name ext [dir, ''./''] of
           Inl e \<Rightarrow> (c, Inl (Panic ''Failed to parse config file''))
         | Inr v \<Rightarrow> (Some v, Inr ()))) \<and>
   ((\<forall>dir name ext. \<not> config_path dir name ext path) \<longrightarrow>
      LoadConfig vi path c =
        (c, Inl (Panic ''Invalid config file name (should specify file extension for parsing).'')))"
  by (simp add: LoadConfig_path LoadConfig_other)

end
