(* ===== verification/Deployment.thy ===== *)
theory Deployment
  imports Authentication ClientConnections Connectors Config "HOL-Library.Multiset"
begin

text \<open>
  The command line tools (\<open>sample/peer/cmd\<close>, \<open>sample/authentication/keytool/cmd\<close>) and the options of the
  logger: how a replica and a client are put together from the configuration, the key store, the
  connector and the core, and how key files are made. What the flags, the environment and the file
  system hold is a parameter.
\<close>

definition bindR :: "'a result \<Rightarrow> ('a \<Rightarrow> 'b result) \<Rightarrow> 'b result" where
  "bindR r f = (case r of Inl e \<Rightarrow> Inl e | Inr x \<Rightarrow> f x)"

lemma bindR_Inr: "bindR r f = Inr y \<longleftrightarrow> (\<exists>x. r = Inr x \<and> f x = Inr y)"
  by (auto simp: bindR_def split: sum.splits)

lemma wrap_is_Inr: "wrap e r = Inr x \<longleftrightarrow> r = Inr x"
  by (auto simp: wrap_def split: sum.splits go_error.splits)

section \<open>Logging options\<close>

datatype log_level = CRITICAL | ERROR | WARNING | NOTICE | INFO | DEBUG

record 'f log_options =
  logLevel :: log_level
  logFile :: 'f

datatype 'f log_option = WithLogLevel log_level | WithLogFile 'f

fun apply_option :: "'f log_option \<Rightarrow> 'f log_options \<Rightarrow> 'f log_options" where
  "apply_option (WithLogLevel l) opt = opt\<lparr>logLevel := l\<rparr>"
| "apply_option (WithLogFile f) opt = opt\<lparr>logFile := f\<rparr>"

definition newOptions :: "'f \<Rightarrow> 'f log_option list \<Rightarrow> 'f log_options" where
  "newOptions stdout opts = fold apply_option opts \<lparr>logLevel = DEBUG, logFile = stdout\<rparr>"

text \<open>\<open>parse\<close> is \<open>logging.LogLevel\<close>, \<open>open_file\<close> opens the log file.\<close>

definition getLoggingOptions ::
    "(string \<Rightarrow> log_level result) \<Rightarrow> (string \<Rightarrow> 'f result) \<Rightarrow> string \<Rightarrow> string \<Rightarrow> 'f log_option list result" where
  "getLoggingOptions parse open_file level file =
     bindR (if level = [] then Inr []
            else bindR (wrap ''failed to set logging level'' (parse level)) (\<lambda>l. Inr [WithLogLevel l])) (\<lambda>opts.
     bindR (if file = [] then Inr []
            else bindR (wrap ''failed to open logging file'' (open_file file)) (\<lambda>f. Inr [WithLogFile f])) (\<lambda>opts'.
     Inr (opts @ opts')))"

text \<open>A logger tags its lines with the kind and the identifier of the node.\<close>

record 'f logger =
  lg_who :: string
  lg_id :: u32
  lg_options :: "'f log_options"

definition makeLogger :: "u32 \<Rightarrow> string \<Rightarrow> 'f log_options \<Rightarrow> 'f logger" where
  "makeLogger i who opts = \<lparr>lg_who = who, lg_id = i, lg_options = opts\<rparr>"

definition NewReplicaLogger :: "'f \<Rightarrow> u32 \<Rightarrow> 'f log_option list \<Rightarrow> 'f logger" where
  "NewReplicaLogger stdout i opts = makeLogger i ''Replica'' (newOptions stdout opts)"

definition NewClientLogger :: "'f \<Rightarrow> u32 \<Rightarrow> 'f log_option list \<Rightarrow> 'f logger" where
  "NewClientLogger stdout i opts = makeLogger i ''Client'' (newOptions stdout opts)"

section \<open>Addresses of the peers\<close>

text \<open>
  The loops over the list of peers: an identifier is converted to 32 bits, a later entry for the same
  identifier replaces an earlier one, and the address of the replica itself is the one to listen on.
\<close>

definition peer_key :: "Peer \<Rightarrow> u32" where
  "peer_key p = ucast (peer_ID p)"

fun peer_addrs :: "u32 \<Rightarrow> Peer list \<Rightarrow> (u32 \<times> string) list \<times> string \<Rightarrow> (u32 \<times> string) list \<times> string" where
  "peer_addrs ownID [] (peerAddrs, listenAddr) = (peerAddrs, listenAddr)"
| "peer_addrs ownID (p # ps) (peerAddrs, listenAddr) =
     (if peer_key p = ownID then peer_addrs ownID ps (peerAddrs, peer_Addr p)
      else peer_addrs ownID ps (AList.update (peer_key p) (peer_Addr p) peerAddrs, listenAddr))"

definition client_addrs :: "Peer list \<Rightarrow> (u32 \<times> string) list" where
  "client_addrs ps = fold (\<lambda>p. AList.update (peer_key p) (peer_Addr p)) ps []"

text \<open>The address that the list has last for an identifier.\<close>

definition listed :: "Peer list \<Rightarrow> u32 \<rightharpoonup> string" where
  "listed ps = map_of (rev (map (\<lambda>p. (peer_key p, peer_Addr p)) ps))"

lemma listed_Cons: "listed (p # ps) i = (case listed ps i of None \<Rightarrow> if peer_key p = i then Some (peer_Addr p) else None | Some a \<Rightarrow> Some a)"
  by (simp add: listed_def map_add_def split: option.splits)

lemma listed_none: "listed ps i = None \<longleftrightarrow> i \<notin> peer_key ` set ps"
  by (simp add: listed_def map_of_eq_None_iff image_image)

lemma peer_addrs_map:
  "peer_addrs ownID ps (addrs, l) = (addrs', l') \<Longrightarrow> distinct (map fst addrs) \<Longrightarrow>
   distinct (map fst addrs') \<and> l' = (case listed ps ownID of None \<Rightarrow> l | Some a \<Rightarrow> a) \<and>
   (\<forall>i. map_of addrs' i = (if i = ownID then map_of addrs i else case listed ps i of None \<Rightarrow> map_of addrs i | Some a \<Rightarrow> Some a))"
proof (induction ownID ps "(addrs, l)" arbitrary: addrs l rule: peer_addrs.induct)
  case (1 ownID peerAddrs listenAddr)
  then show ?case by (simp add: listed_def)
next
  case (2 ownID p ps peerAddrs listenAddr)
  show ?case
  proof (cases "peer_key p = ownID")
    case True
    with 2 show ?thesis by (auto simp: listed_Cons split: option.splits)
  next
    case False
    have "distinct (map fst (AList.update (peer_key p) (peer_Addr p) peerAddrs))"
      using "2.prems"(2) by (simp add: distinct_update)
    with 2 False show ?thesis by (auto simp: listed_Cons split: option.splits)
  qed
qed

lemma client_addrs_map: "distinct (map fst (client_addrs ps)) \<and> map_of (client_addrs ps) = listed ps"
proof -
  have "distinct (map fst (fold (\<lambda>p. AList.update (peer_key p) (peer_Addr p)) ps al)) \<and>
      map_of (fold (\<lambda>p. AList.update (peer_key p) (peer_Addr p)) ps al) i =
        (case listed ps i of None \<Rightarrow> map_of al i | Some a \<Rightarrow> Some a)" if "distinct (map fst al)" for al i
    using that
  proof (induction ps arbitrary: al)
    case (Cons p ps)
    then show ?case
      using Cons.IH [of "AList.update (peer_key p) (peer_Addr p) al"]
      by (auto simp: distinct_update listed_Cons split: option.splits)
  qed (simp add: listed_def)
  from this [of "[]"] show ?thesis by (auto simp: client_addrs_def fun_eq_iff split: option.splits)
qed

section \<open>Starting a replica and a client\<close>

text \<open>
  What a tool finds: the identifier, the opened key file, the order in which Go ranges over its maps,
  the library that reads the configuration, \<open>grpc.Dial\<close>, and the logging settings. A replica also has the
  name of the enclave file after substitution of variables, and the SDK for it. \<open>pe_stack\<close> and
  \<open>ce_stack\<close> offer an authenticator to the core; the identifier, the numbers and the timeouts of their
  results are set below.
\<close>

record ('v, 'conn, 'f) node_env =
  ne_id :: u64
  ne_keys :: "key_file result"
  ne_crypto :: au_crypto
  ne_roles :: "role list"
  ne_viper :: "'v viper"
  ne_conf :: string
  ne_iter :: "(u32 \<times> string) list \<Rightarrow> (u32 \<times> string) list"
  ne_dial :: "string \<Rightarrow> 'conn result"
  ne_level :: string
  ne_logfile :: string
  ne_parse :: "string \<Rightarrow> log_level result"
  ne_openlog :: "string \<Rightarrow> 'f result"
  ne_stdout :: 'f

record ('v, 'conn, 'f) peer_env = "('v, 'conn, 'f) node_env" +
  pe_enclave :: "string result"
  pe_sdk :: "string \<Rightarrow> sgx_sdk"
  pe_stack :: "authenticator \<Rightarrow> config"

record ('v, 'conn, 'f) client_env = "('v, 'conn, 'f) node_env" +
  ce_stack :: "authenticator \<Rightarrow> client_config"
  ce_now :: u64

record ('conn, 'f) peer =
  pr_server :: server
  pr_auth :: authenticator
  pr_conn :: "'conn grpc_replica connector"
  pr_listen :: string
  pr_logger :: "'f logger"

record ('conn, 'f) client_node =
  cd_net :: client_net
  cd_auth :: authenticator
  cd_conn :: "'conn grpc_replica connector"
  cd_logger :: "'f logger"

definition env_id :: "('v, 'conn, 'f, 'e) node_env_scheme \<Rightarrow> u32" where
  "env_id env = ucast (ne_id env)"

definition load_env :: "('v, 'conn, 'f, 'e) node_env_scheme \<Rightarrow> 'v configer result" where
  "load_env env =
     (case LoadConfig (ne_viper env) (ne_conf env) new_configer of (cfg, r) \<Rightarrow> bindR r (\<lambda>_. Inr cfg))"

definition connect_env ::
    "('v, 'conn, 'f, 'e) node_env_scheme \<Rightarrow> (u32 \<times> string) list \<Rightarrow> 'conn grpc_replica connector \<Rightarrow>
     'conn grpc_replica connector result" where
  "connect_env env addrs c =
     (case ConnectManyReplicas (ne_dial env) (ne_iter env addrs) c of
        (c', r) \<Rightarrow> bindR (wrap ''failed to connect to peers'' r) (\<lambda>_. Inr c'))"

definition logging_env :: "('v, 'conn, 'f, 'e) node_env_scheme \<Rightarrow> 'f log_option list result" where
  "logging_env env =
     wrap ''failed to create logging options''
       (getLoggingOptions (ne_parse env) (ne_openlog env) (ne_level env) (ne_logfile env))"

definition has_handler :: "'r connector \<Rightarrow> u32 \<Rightarrow> bool" where
  "has_handler conn i = (\<not> Option.is_none (ReplicaMessageStreamHandler i conn))"

text \<open>\<open>New\<close> reads its settings from the configuration; the durations are signed numbers.\<close>

definition replica_config :: "('v, 'conn, 'f) peer_env \<Rightarrow> authenticator \<Rightarrow> 'v configer \<Rightarrow> config result" where
  "replica_config env auth cfg =
     bindR (cfg_N (ne_viper env) cfg) (\<lambda>n.
     bindR (cfg_F (ne_viper env) cfg) (\<lambda>f.
     bindR (TimeoutRequest (ne_viper env) cfg) (\<lambda>tr.
     bindR (TimeoutPrepare (ne_viper env) cfg) (\<lambda>tp.
     bindR (TimeoutViewChange (ne_viper env) cfg) (\<lambda>tv.
       Inr ((pe_stack env auth)
         \<lparr>cfg_id := env_id env, cfg_n := n, cfg_f := f, cfg_timeoutRequest := sint tr,
          cfg_timeoutPrepare := sint tp, cfg_timeoutViewChange := tv\<rparr>))))))"

definition run_peer :: "('v, 'conn, 'f) peer_env \<Rightarrow> ('conn, 'f) peer result" where
  "run_peer env =
     bindR (wrap ''failed to parse USIG enclave filename'' (pe_enclave env)) (\<lambda>usigEnclaveFile.
     bindR (wrap ''failed to open keyset file'' (ne_keys env)) (\<lambda>keysFile.
     bindR (wrap ''failed to create authenticator''
              (NewWithSGXUSIG (ne_crypto env) (pe_sdk env usigEnclaveFile) (ne_roles env) keysFile
                 [ReplicaAuthen, USIGAuthen] (env_id env))) (\<lambda>auth.
     bindR (load_env env) (\<lambda>cfg.
     bindR (Peers (ne_viper env) cfg) (\<lambda>peers.
     case peer_addrs (env_id env) peers ([], []) of (peerAddrs, listenAddr) \<Rightarrow>
     bindR (connect_env env peerAddrs NewReplicaSide) (\<lambda>conn.
     bindR (logging_env env) (\<lambda>loggingOpts.
     bindR (replica_config env auth cfg) (\<lambda>c.
     bindR (wrap ''failed to create replica instance'' (new_server c (has_handler conn))) (\<lambda>replica.
       Inr \<lparr>pr_server = replica, pr_auth = auth, pr_conn = conn, pr_listen = listenAddr,
            pr_logger = NewReplicaLogger (ne_stdout env) (env_id env) loggingOpts\<rparr>)))))))))"

text \<open>
  The rest of \<open>run\<close>: listening, serving, and waiting for an error. When the server ends without one,
  nothing is sent on the channel that \<open>run\<close> receives from.
\<close>

definition ListenAndServe :: "(string \<Rightarrow> 'l result) \<Rightarrow> ('l \<Rightarrow> unit result) \<Rightarrow> string \<Rightarrow> unit result" where
  "ListenAndServe listen serve addr =
     bindR (wrap (''error listening on '' @ addr) (listen addr)) (\<lambda>lis. wrap ''error serving'' (serve lis))"

definition serve_peer :: "(string \<Rightarrow> 'l result) \<Rightarrow> ('l \<Rightarrow> unit result) \<Rightarrow> ('conn, 'f) peer \<Rightarrow> unit result" where
  "serve_peer listen serve p =
     (case wrap ''network server failed'' (ListenAndServe listen serve (pr_listen p)) of
        Inl e \<Rightarrow> Inl e
      | Inr _ \<Rightarrow> Inl Blocked)"

definition start_client :: "('v, 'conn, 'f) client_env \<Rightarrow> ('conn, 'f) client_node result" where
  "start_client env =
     bindR (wrap ''failed to open keyset file'' (ne_keys env)) (\<lambda>keysFile.
     bindR (wrap ''failed to create authenticator''
              (New_authenticator (ne_crypto env) (ne_roles env) keysFile [ClientAuthen] (env_id env))) (\<lambda>auth.
     bindR (load_env env) (\<lambda>cfg.
     bindR (logging_env env) (\<lambda>loggingOpts.
     bindR (Peers (ne_viper env) cfg) (\<lambda>peers.
     bindR (connect_env env (client_addrs peers) NewClientSide) (\<lambda>conn.
     bindR (cfg_N (ne_viper env) cfg) (\<lambda>n.
     bindR (cfg_F (ne_viper env) cfg) (\<lambda>f.
     bindR (wrap ''failed to create client instance''
              (new_net ((ce_stack env auth)\<lparr>cc_id := env_id env, cc_n := n, cc_f := f\<rparr>) (has_handler conn) (ce_now env))) (\<lambda>net.
       Inr \<lparr>cd_net = net, cd_auth = auth, cd_conn = conn,
            cd_logger = NewClientLogger (ne_stdout env) (env_id env) loggingOpts\<rparr>)))))))))"

text \<open>
  The \<open>select\<close> of \<open>request\<close> for a call in the given state: the cases that are ready, given whether the
  timer has fired, if there is one. A channel that was closed without a result gives an empty reply.
\<close>

datatype outcome = Reply bytes | Expired

definition request_ready :: "u64 \<Rightarrow> bool \<Rightarrow> call \<Rightarrow> outcome list" where
  "request_ready timeout fired c =
     (case c of Finished _ (Some res) \<Rightarrow> [Reply res] | Finished _ None \<Rightarrow> [Reply []] | _ \<Rightarrow> []) @
     (if 0 < sint timeout \<and> fired then [Expired] else [])"

section \<open>The key tool\<close>

text \<open>\<open>strconv.Atoi\<close> on a platform with 64-bit integers.\<close>

definition is_digit :: "char \<Rightarrow> bool" where
  "is_digit c = (48 \<le> (of_char c :: nat) \<and> (of_char c :: nat) \<le> 57)"

definition decimal :: "string \<Rightarrow> int" where
  "decimal ds = foldl (\<lambda>n c. 10 * n + (of_char c - 48)) 0 ds"

definition Atoi :: "string \<Rightarrow> int result" where
  "Atoi s =
     (let (neg, ds) = (case s of [] \<Rightarrow> (False, []) | c # cs \<Rightarrow>
                         if c = CHR ''-'' then (True, cs) else if c = CHR ''+'' then (False, cs) else (False, s));
          n = (if neg then - decimal ds else decimal ds)
      in if ds = [] \<or> \<not> list_all is_digit ds then Inl (Error ''invalid syntax'')
         else if n < - (2 ^ 63) \<or> 2 ^ 63 \<le> n then Inl (Error ''value out of range'') else Inr n)"

text \<open>
  Positional arguments replace settings; the command takes at most three. The settings hold the options
  with the name of the enclave file, in which variables are substituted by \<open>envsubst\<close>.
\<close>

record tool_env =
  tl_opts :: testnet_opts
  tl_enclave :: string
  tl_envsubst :: "string \<Rightarrow> string result"
  tl_create :: "unit result"
  tl_crypto :: key_crypto
  tl_replicas :: key_gen
  tl_usigs :: "string \<Rightarrow> key_gen"
  tl_clients :: key_gen

definition generate_args :: "string list \<Rightarrow> tool_env \<Rightarrow> tool_env result" where
  "generate_args args t =
     (if length args > 3 then Inl (Error ''accepts at most 3 arg(s)'')
      else bindR (if length args > 0
                  then bindR (wrap ''failed to parse number of replicas from positional argument'' (Atoi (args ! 0)))
                         (\<lambda>n. Inr (t\<lparr>tl_opts := (tl_opts t)\<lparr>NumberReplicas := n\<rparr>\<rparr>))
                  else Inr t) (\<lambda>t.
           bindR (if length args > 1
                  then bindR (wrap ''failed to parse number of clients from positional argument'' (Atoi (args ! 1)))
                         (\<lambda>n. Inr (t\<lparr>tl_opts := (tl_opts t)\<lparr>NumberClients := n\<rparr>\<rparr>))
                  else Inr t) (\<lambda>t.
           Inr (if length args > 2 then t\<lparr>tl_enclave := args ! 2\<rparr> else t))))"

definition generateKeys :: "tool_env \<Rightarrow> key_file result" where
  "generateKeys t =
     bindR (wrap ''failed to parse USIG enclave filename'' (tl_envsubst t (tl_enclave t))) (\<lambda>usigEnclaveFile.
     bindR (wrap ''failed to open output file'' (tl_create t)) (\<lambda>_.
     wrap ''failed to generate keys''
       (GenerateTestnetKeys (tl_crypto t) (tl_replicas t) (tl_usigs t usigEnclaveFile) (tl_clients t) (tl_opts t))))"

definition keytool_generate :: "string list \<Rightarrow> tool_env \<Rightarrow> key_file result" where
  "keytool_generate args t = bindR (generate_args args t) generateKeys"

lemma generate_args_opts:
  "generate_args args t = Inr t' \<Longrightarrow>
   tl_crypto t' = tl_crypto t \<and> tl_replicas t' = tl_replicas t \<and> tl_usigs t' = tl_usigs t \<and> tl_clients t' = tl_clients t \<and>
   ReplicaKeySpec (tl_opts t') = ReplicaKeySpec (tl_opts t) \<and> ClientKeySpec (tl_opts t') = ClientKeySpec (tl_opts t) \<and>
   (if length args > 0 then Atoi (args ! 0) = Inr (NumberReplicas (tl_opts t')) else NumberReplicas (tl_opts t') = NumberReplicas (tl_opts t)) \<and>
   (if length args > 1 then Atoi (args ! 1) = Inr (NumberClients (tl_opts t')) else NumberClients (tl_opts t') = NumberClients (tl_opts t))"
  by (cases "length args > 0"; cases "length args > 1"; cases "length args > 2"; cases "length args > 3")
    (auto simp: generate_args_def bindR_Inr wrap_is_Inr)

section \<open>What a started node is connected to\<close>

lemma connect_env_handlers:
  assumes "connect_env env addrs c = Inr conn" and "\<And>xs. mset (ne_iter env xs) = mset xs"
    and "distinct (map fst addrs)"
  shows "ReplicaMessageStreamHandler i conn =
    (case map_of addrs i of
       None \<Rightarrow> ReplicaMessageStreamHandler i c
     | Some a \<Rightarrow> Some (co_kind c, \<lparr>gr_id = i, gr_conn = projr (ne_dial env a)\<rparr>))"
    and "\<forall>a \<in> ran (map_of addrs). \<exists>k. ne_dial env a = Inr k"
proof -
  let ?ts = "ne_iter env addrs"
  have m: "mset (map fst ?ts) = mset (map fst addrs)" using assms(2) [of addrs] by (simp add: mset_map)
  then have d: "distinct (map fst ?ts)" using assms(3) by (metis mset_eq_imp_distinct_iff)
  have mo: "map_of ?ts = map_of addrs" using map_of_inject_set [OF d assms(3)] assms(2) [of addrs] by (metis set_mset_mset)
  obtain r where c: "ConnectManyReplicas (ne_dial env) ?ts c = (conn, Inr r)"
    using assms(1) by (auto simp: connect_env_def bindR_Inr wrap_is_Inr split: prod.splits)
  then have "list_all (dialled (ne_dial env)) ?ts" by (auto simp: ConnectManyReplicas_eq split: if_splits)
  with many_handlers [OF d this c] show "ReplicaMessageStreamHandler i conn =
      (case map_of addrs i of
         None \<Rightarrow> ReplicaMessageStreamHandler i c
       | Some a \<Rightarrow> Some (co_kind c, \<lparr>gr_id = i, gr_conn = projr (ne_dial env a)\<rparr>))"
    and "\<forall>a \<in> ran (map_of addrs). \<exists>k. ne_dial env a = Inr k"
    by (auto simp: mo ran_map_of_zip list_all_iff dialled_def ran_def dest!: map_of_SomeD simp flip: mo)
qed

lemma connect_env_ok:
  assumes "\<And>xs. mset (ne_iter env xs) = mset xs" and "\<forall>a \<in> snd ` set addrs. \<exists>k. ne_dial env a = Inr k"
  shows "\<exists>conn. connect_env env addrs c = Inr conn"
proof -
  have "set (ne_iter env addrs) = set addrs" using assms(1) by (metis set_mset_mset)
  with assms(2) have "list_all (dialled (ne_dial env)) (ne_iter env addrs)" by (auto simp: list_all_iff dialled_def)
  then show ?thesis by (simp add: connect_env_def ConnectManyReplicas_eq bindR_def wrap_def)
qed

lemma no_handler [simp]:
  "ReplicaMessageStreamHandler i NewReplicaSide = None" "ReplicaMessageStreamHandler i NewClientSide = None"
  "co_kind NewReplicaSide = PeerChat" "co_kind NewClientSide = ClientChat"
  by (simp_all add: ReplicaMessageStreamHandler_def NewReplicaSide_def NewClientSide_def newCommon_def co_kind_def)

lemma new_server_peers:
  assumes "new_server c connects = Inr sv"
  shows "\<not> cfg_n c < 2 * cfg_f c + 1 \<and> (\<forall>q. q < cfg_n c \<and> q \<noteq> cfg_id c \<longrightarrow> connects q) \<and>
    map fst (sv_peers sv) = peers_from (cfg_id c) 0 (cfg_n c)"
  using assms peers_from_set [of "cfg_id c" "cfg_n c"]
  by (auto simp: new_server_def startPeerConnections_eq config_check_def guard_err_def list_all_iff comp_def
      takeWhile_eq_all_conv [THEN iffD2] split: sum.splits if_splits)

lemma new_server_ok:
  assumes "\<not> cfg_n c < 2 * cfg_f c + 1" and "\<forall>q. q < cfg_n c \<and> q \<noteq> cfg_id c \<longrightarrow> connects q"
  shows "\<exists>sv. new_server c connects = Inr sv"
  using assms peers_from_set [of "cfg_id c" "cfg_n c"]
  by (auto simp: new_server_def startPeerConnections_eq config_check_def guard_err_def list_all_iff)

lemma startReplicaConnections_ok:
  "\<forall>q. i \<le> q \<and> q < n \<longrightarrow> connects q \<Longrightarrow> \<exists>ps. startReplicaConnections n connects i started = (ps, Inr ())"
proof (induction n connects i started rule: startReplicaConnections.induct)
  case (1 n connects i started)
  have next_le: "\<forall>q. i + 1 \<le> q \<and> q < n \<longrightarrow> connects q" if "i < n"
    using 1(2) that by (auto simp: word_le_nat_alt unat_Suc_less word_less_nat_alt)
  show ?case
    using 1 next_le
    by (subst startReplicaConnections.simps)
      (auto simp: startReplicaConnection_def makeReplicaConnector_def)
qed

lemma has_handler_iff: "has_handler conn i \<longleftrightarrow> (\<exists>h. ReplicaMessageStreamHandler i conn = Some h)"
  by (auto simp: has_handler_def Option.is_none_def)

lemma peer_addrs_own:
  assumes "peer_addrs i ps ([], []) = (addrs, l)"
  shows "distinct (map fst addrs)" "l = (case listed ps i of None \<Rightarrow> [] | Some a \<Rightarrow> a)"
    "map_of addrs = (listed ps)(i := None)"
  using peer_addrs_map [OF assms] by (auto simp: fun_eq_iff split: option.splits)

section \<open>A generated key file suffices\<close>

lemma parse_pairs_spec:
  "parse_pairs K r spec kps ks = Inr ks' \<Longrightarrow> ks_nodePublicKeys ks r \<noteq> None \<Longrightarrow>
   NodeKeySpec ks' r' = NodeKeySpec ks r' \<and> (ks_nodePublicKeys ks' r' = None) = (ks_nodePublicKeys ks r' = None)"
proof (induction K r spec kps ks rule: parse_pairs.induct)
  case (2 K r spec kp kps ks)
  then obtain ks1 where 1: "parseKeyPair K r spec kp ks = Inr ks1" "parse_pairs K r spec kps ks1 = Inr ks'"
    by (auto split: sum.splits)
  then have "ks_nodePublicKeys ks1 r \<noteq> None" "NodeKeySpec ks1 r' = NodeKeySpec ks r'"
    "(ks_nodePublicKeys ks1 r' = None) = (ks_nodePublicKeys ks r' = None)"
    by (auto simp: parseKeyPair_def NodeKeySpec_def Let_def split: option.splits sum.splits if_splits)
  with 2(1) [OF 1] show ?case by simp
qed simp

lemma getKeySpec_name: "getKeySpec s = Inr spec \<Longrightarrow> getSpecName spec = s"
  by (auto simp: getKeySpec_def split: if_splits)

lemma load_sets_spec:
  "load_sets K f rs ks = Inr ks' \<Longrightarrow>
   NodeKeySpec ks' r =
     (case file_keys f r of Some kset \<Rightarrow> if r \<in> set rs then kset_KeySpec kset else NodeKeySpec ks r | None \<Rightarrow> NodeKeySpec ks r)"
proof (induction K f rs ks rule: load_sets.induct)
  case (2 K f r0 rs ks)
  show ?case
  proof (cases "file_keys f r0")
    case None
    with 2 show ?thesis by (auto split: option.splits)
  next
    case (Some kset)
    let ?ks = "\<lambda>spec. ks\<lparr>ks_nodePublicKeys := (ks_nodePublicKeys ks)(r0 \<mapsto> \<lparr>pks_keyspec = getSpecName spec, pks_keys = Map.empty\<rparr>)\<rparr>"
    obtain spec ks1 where 1: "getKeySpec (kset_KeySpec kset) = Inr spec"
      "parse_pairs K r0 spec (kset_Keys kset) (?ks spec) = Inr ks1" "load_sets K f rs ks1 = Inr ks'"
      using "2.prems" Some by (auto split: sum.splits)
    have "NodeKeySpec ks1 r = NodeKeySpec (?ks spec) r" using parse_pairs_spec [OF 1(2), of r] by simp
    then have "NodeKeySpec ks1 r = (if r = r0 then kset_KeySpec kset else NodeKeySpec ks r)"
      using getKeySpec_name [OF 1(1)] by (simp add: NodeKeySpec_def)
    with "2.IH"(2) [OF Some 1] Some show ?thesis by (auto split: option.splits)
  qed
qed (auto split: option.splits)

text \<open>The private keys that are parsed as sealed ones come from the file.\<close>

definition sealed_from :: "key_entry list \<Rightarrow> priv_key \<Rightarrow> bool" where
  "sealed_from kps k \<longleftrightarrow> k = NoPriv \<or>
     (\<exists>kp \<in> set kps. \<exists>sealed. DecodeString (ke_PrivateKey kp) = Inr sealed \<and> k = SealedPriv sealed)"

lemma parseKeyPair_private:
  "parseKeyPair K r0 spec kp ks = Inr ks' \<Longrightarrow>
   PrivateKey ks' r = PrivateKey ks r \<or> r0 = r \<and> parsePrivateKey K spec (ke_PrivateKey kp) = Inr (PrivateKey ks' r)"
  by (auto simp: parseKeyPair_def PrivateKey_def Let_def split: option.splits sum.splits if_splits)

lemma parsePrivateKey_sealed:
  "parsePrivateKey K SgxEcdsaKeySpec s = Inr k \<Longrightarrow> \<exists>sealed. DecodeString s = Inr sealed \<and> k = SealedPriv sealed"
  by (auto simp: parsePrivateKey_def split: sum.splits)

lemma parse_pairs_sealed:
  "parse_pairs K r0 spec kps ks = Inr ks' \<Longrightarrow> (r0 = r \<longrightarrow> spec = SgxEcdsaKeySpec \<and> set kps \<subseteq> set all) \<Longrightarrow>
   sealed_from all (PrivateKey ks r) \<Longrightarrow> sealed_from all (PrivateKey ks' r)"
proof (induction K r0 spec kps ks rule: parse_pairs.induct)
  case (2 K r0 spec kp kps ks)
  then obtain ks1 where 1: "parseKeyPair K r0 spec kp ks = Inr ks1" "parse_pairs K r0 spec kps ks1 = Inr ks'"
    by (auto split: sum.splits)
  have "sealed_from all (PrivateKey ks1 r)"
    using parseKeyPair_private [OF 1(1), of r]
  proof
    assume "r0 = r \<and> parsePrivateKey K spec (ke_PrivateKey kp) = Inr (PrivateKey ks1 r)"
    then show ?thesis
      using parsePrivateKey_sealed [of K "ke_PrivateKey kp"] "2.prems"(2) by (auto simp: sealed_from_def)
  qed (use "2.prems"(3) in simp)
  with "2.IH" [OF 1] "2.prems"(2) show ?case by simp
qed simp

lemma load_sets_sealed:
  assumes "file_keys f r = Some kset" and "kset_KeySpec kset = keySpecSgxEcdsa"
  shows "load_sets K f rs ks = Inr ks' \<Longrightarrow> sealed_from (kset_Keys kset) (PrivateKey ks r) \<Longrightarrow>
    sealed_from (kset_Keys kset) (PrivateKey ks' r)"
proof (induction rs arbitrary: ks)
  case (Cons r0 rs)
  show ?case
  proof (cases "file_keys f r0")
    case None
    with Cons show ?thesis by simp
  next
    case (Some k0)
    let ?ks = "\<lambda>spec. ks\<lparr>ks_nodePublicKeys := (ks_nodePublicKeys ks)(r0 \<mapsto> \<lparr>pks_keyspec = getSpecName spec, pks_keys = Map.empty\<rparr>)\<rparr>"
    obtain spec ks1 where 1: "getKeySpec (kset_KeySpec k0) = Inr spec"
      "parse_pairs K r0 spec (kset_Keys k0) (?ks spec) = Inr ks1" "load_sets K f rs ks1 = Inr ks'"
      using Cons.prems(1) Some by (auto split: sum.splits)
    have "r0 = r \<longrightarrow> spec = SgxEcdsaKeySpec \<and> set (kset_Keys k0) \<subseteq> set (kset_Keys kset)"
      using 1(1) Some assms by (auto simp: getKeySpec_def)
    moreover have "sealed_from (kset_Keys kset) (PrivateKey (?ks spec) r)" using Cons.prems(2) by (simp add: PrivateKey_def)
    ultimately have "sealed_from (kset_Keys kset) (PrivateKey ks1 r)" using parse_pairs_sealed [OF 1(2)] by blast
    then show ?thesis using Cons.IH [OF 1(3)] by blast
  qed
qed simp

text \<open>The key specifications that the authenticator accepts.\<close>

definition specs_fit :: "key_store \<Rightarrow> bool" where
  "specs_fit ks \<longleftrightarrow> (\<forall>r. ks_nodePublicKeys ks r \<noteq> None \<longrightarrow>
     NodeKeySpec ks r = (if r = USIGAuthen then keySpecSgxEcdsa else keySpecEcdsa))"

lemma add_schemes_ok:
  "\<forall>r \<in> set rs. NodeKeySpec ks r = (if r = USIGAuthen then keySpecSgxEcdsa else keySpecEcdsa) \<Longrightarrow>
   supplied \<noteq> Some OtherUSIG \<Longrightarrow> \<exists>m'. add_schemes supplied ks rs m = Inr m'"
  by (induction supplied ks rs m rule: add_schemes.induct) (auto split: option.splits any_usig.splits)

lemma new_authenticator_ok:
  "specs_fit ks \<Longrightarrow> supplied \<noteq> Some OtherUSIG \<Longrightarrow> \<exists>a. new_authenticator order i ks supplied = Inr a"
  using add_schemes_ok [of "NodeRoles order ks" ks supplied Map.empty]
  by (auto simp: new_authenticator_def specs_fit_def NodeRoles_def)

lemma generated_specs:
  assumes "GenerateTestnetKeys K G1 G2 G3 opts = Inr f"
    and "ReplicaKeySpec opts = keySpecEcdsa" and "ClientKeySpec opts = keySpecEcdsa"
  shows "\<exists>kset. file_keys f r = Some kset \<and> kset_KeySpec kset = (if r = USIGAuthen then keySpecSgxEcdsa else keySpecEcdsa)"
  using assms by (cases r) (auto simp: GenerateTestnetKeys_def generateKeySet_def split: sum.splits if_splits)

lemma loaded_fits:
  assumes "GenerateTestnetKeys K G1 G2 G3 opts = Inr f"
    and "ReplicaKeySpec opts = keySpecEcdsa" and "ClientKeySpec opts = keySpecEcdsa"
    and "LoadSimpleKeyStore K' order f roles i = Inr ks" and "set order = UNIV"
  shows "specs_fit ks"
proof -
  have "NodeKeySpec ks r = (if r = USIGAuthen then keySpecSgxEcdsa else keySpecEcdsa)" for r
    using generated_specs [OF assms(1-3), of r] load_sets_spec [of K' f order _ ks r] assms(4,5)
    by (auto simp: LoadSimpleKeyStore_def split: sum.splits if_splits)
  then show ?thesis by (simp add: specs_fit_def)
qed

text \<open>The enclave starts with every sealed key of the file.\<close>

definition unseals :: "sgx_sdk \<Rightarrow> key_file \<Rightarrow> bool" where
  "unseals sdk f =
     (case kf_Usig f of
        None \<Rightarrow> True
      | Some kset \<Rightarrow>
          list_all (\<lambda>kp. case DecodeString (ke_PrivateKey kp) of
                           Inl _ \<Rightarrow> True
                         | Inr sealed \<Rightarrow> \<not> isl (NewUSIGEnclave sdk sealed)) (kset_Keys kset))"

lemma loaded_unseals:
  assumes "GenerateTestnetKeys K G1 G2 G3 opts = Inr f" and "LoadSimpleKeyStore K' order f roles i = Inr ks"
    and "unseals sdk f" and "PrivateKey ks USIGAuthen \<noteq> NoPriv"
  shows "\<exists>sealed u. PrivateKey ks USIGAuthen = SealedPriv sealed \<and> NewUSIGEnclave sdk sealed = Inr u"
proof -
  obtain kset where k: "kf_Usig f = Some kset" "kset_KeySpec kset = keySpecSgxEcdsa"
    using assms(1) by (auto simp: GenerateTestnetKeys_def generateKeySet_def split: sum.splits if_splits)
  let ?ks = "\<lparr>ks_id = i, ks_ownerKeys = (\<lambda>r. if r \<in> set roles then Some empty_owner else None), ks_nodePublicKeys = Map.empty\<rparr>"
  have "sealed_from (kset_Keys kset) (PrivateKey ?ks USIGAuthen)"
    by (simp add: PrivateKey_def sealed_from_def empty_owner_def)
  then have "sealed_from (kset_Keys kset) (PrivateKey ks USIGAuthen)"
    using load_sets_sealed [of f USIGAuthen kset K' order ?ks ks] k assms(2)
    by (auto simp: LoadSimpleKeyStore_def split: sum.splits if_splits)
  then obtain kp sealed where "kp \<in> set (kset_Keys kset)" "DecodeString (ke_PrivateKey kp) = Inr sealed"
    and p: "PrivateKey ks USIGAuthen = SealedPriv sealed"
    using assms(4) by (auto simp: sealed_from_def)
  then have "\<not> isl (NewUSIGEnclave sdk sealed)" using assms(3) k(1) by (fastforce simp: unseals_def list_all_iff)
  with p show ?thesis by (cases "NewUSIGEnclave sdk sealed") auto
qed

lemma generated_auth:
  assumes "key_codec_ok (keys_crypto K)" and "gen_ok G1" and "gen_ok G2" and "gen_ok G3"
    and "GenerateTestnetKeys (keys_crypto K) G1 G2 G3 opts = Inr f"
    and "ReplicaKeySpec opts = keySpecEcdsa" and "ClientKeySpec opts = keySpecEcdsa"
    and "set order = UNIV" and "distinct order"
  shows "int (unat i) < NumberReplicas opts \<Longrightarrow> unseals sdk f \<Longrightarrow>
      \<exists>a. NewWithSGXUSIG K sdk order f [ReplicaAuthen, USIGAuthen] i = Inr a"
    and "int (unat i) < NumberClients opts \<Longrightarrow> \<exists>a. New_authenticator K order f [ClientAuthen] i = Inr a"
proof -
  have load: "\<exists>ks. LoadSimpleKeyStore (keys_crypto K) order f roles i = Inr ks \<and> (\<forall>r \<in> set roles. PrivateKey ks r \<noteq> NoPriv)"
    if "\<forall>r \<in> set roles. unat i < file_size opts r" for roles
    using generated_store_loads [OF assms(1-5,8,9) that] by auto
  show "\<exists>a. NewWithSGXUSIG K sdk order f [ReplicaAuthen, USIGAuthen] i = Inr a"
    if "int (unat i) < NumberReplicas opts" and u: "unseals sdk f"
  proof -
    have "unat i < nat (NumberReplicas opts)" using that(1) by linarith
    then obtain ks where ks: "LoadSimpleKeyStore (keys_crypto K) order f [ReplicaAuthen, USIGAuthen] i = Inr ks"
      "PrivateKey ks USIGAuthen \<noteq> NoPriv"
      using load [of "[ReplicaAuthen, USIGAuthen]"] by (auto simp: file_size_def)
    obtain sealed e where e: "PrivateKey ks USIGAuthen = SealedPriv sealed" "NewUSIGEnclave sdk sealed = Inr e"
      using loaded_unseals [OF assms(5) ks(1) u ks(2)] by blast
    obtain a where "new_authenticator order i ks (Some (SgxUSIG e)) = Inr a"
      using new_authenticator_ok [OF loaded_fits [OF assms(5-7) ks(1) assms(8)]] by blast
    with ks e show ?thesis by (auto simp: NewWithSGXUSIG_def PrivateKey_def split: option.splits)
  qed
  show "\<exists>a. New_authenticator K order f [ClientAuthen] i = Inr a" if "int (unat i) < NumberClients opts"
  proof -
    have "unat i < nat (NumberClients opts)" using that by linarith
    then obtain ks where ks: "LoadSimpleKeyStore (keys_crypto K) order f [ClientAuthen] i = Inr ks"
      using load [of "[ClientAuthen]"] by (auto simp: file_size_def)
    obtain a where "new_authenticator order i ks None = Inr a"
      using new_authenticator_ok [OF loaded_fits [OF assms(5-7) ks(1) assms(8)]] by blast
    with ks show ?thesis by (auto simp: New_authenticator_def)
  qed
qed

section \<open>Starting\<close>

text \<open>
  What a node needs besides keys: maps are iterated over completely, the configuration loads and
  names an address for each of the \<open>n\<close> replicas, and every address can be dialled.
\<close>

definition network_ok :: "('v, 'conn, 'f, 'e) node_env_scheme \<Rightarrow> u32 \<Rightarrow> u32 \<Rightarrow> Peer list \<Rightarrow> bool" where
  "network_ok env n f peers \<longleftrightarrow>
     set (ne_roles env) = UNIV \<and> distinct (ne_roles env) \<and> (\<forall>xs. mset (ne_iter env xs) = mset xs) \<and>
     (\<exists>opts. logging_env env = Inr opts) \<and>
     (\<exists>v. load_env env = Inr (Some v) \<and> Peers (ne_viper env) (Some v) = Inr peers \<and>
        cfg_N (ne_viper env) (Some v) = Inr n \<and> cfg_F (ne_viper env) (Some v) = Inr f) \<and>
     \<not> n < 2 * f + 1 \<and> (\<forall>q. q < n \<longrightarrow> listed peers q \<noteq> None) \<and>
     (\<forall>p \<in> set peers. \<exists>k. ne_dial env (peer_Addr p) = Inr k)"

lemma listed_addr: "listed ps i = Some a \<Longrightarrow> \<exists>p \<in> set ps. a = peer_Addr p \<and> i = peer_key p"
  by (auto simp: listed_def dest!: map_of_SomeD)

lemma addrs_dialled:
  assumes "network_ok env n f peers" and "map_of addrs \<subseteq>\<^sub>m listed peers" and "distinct (map fst addrs)"
  shows "\<forall>a \<in> snd ` set addrs. \<exists>k. ne_dial env a = Inr k"
proof
  fix a assume "a \<in> snd ` set addrs"
  then obtain i where "map_of addrs i = Some a" using assms(3) by (auto intro: map_of_is_SomeI)
  with assms(2) have "listed peers i = Some a" by (metis domI map_le_def)
  with assms(1) show "\<exists>k. ne_dial env a = Inr k" by (auto simp: network_ok_def dest!: listed_addr)
qed

lemma run_peer_ok:
  assumes net: "network_ok env n f peers" and "pe_enclave env = Inr file" and "ne_keys env = Inr keys"
    and auth: "NewWithSGXUSIG (ne_crypto env) (pe_sdk env file) (ne_roles env) keys [ReplicaAuthen, USIGAuthen] (env_id env) = Inr a"
  shows "\<exists>p. run_peer env = Inr p"
proof -
  obtain addrs l where pa: "peer_addrs (env_id env) peers ([], []) = (addrs, l)" by fastforce
  note own = peer_addrs_own [OF pa]
  have perm: "\<And>xs. mset (ne_iter env xs) = mset xs" using net by (simp add: network_ok_def)
  have "map_of addrs \<subseteq>\<^sub>m listed peers" by (simp add: own(3) map_le_def)
  from connect_env_ok [OF perm addrs_dialled [OF net this own(1)]]
  obtain conn where conn: "connect_env env addrs NewReplicaSide = Inr conn" by blast
  obtain v opts where v: "load_env env = Inr (Some v)" "Peers (ne_viper env) (Some v) = Inr peers"
    "cfg_N (ne_viper env) (Some v) = Inr n" "cfg_F (ne_viper env) (Some v) = Inr f" "logging_env env = Inr opts"
    using net by (auto simp: network_ok_def)
  then obtain c where c: "replica_config env a (Some v) = Inr c" "cfg_id c = env_id env" "cfg_n c = n" "cfg_f c = f"
    by (auto simp: replica_config_def bindR_def TimeoutRequest_def TimeoutPrepare_def TimeoutViewChange_def getTimeDuration_def)
  have "has_handler conn q" if "q < n" "q \<noteq> env_id env" for q
    using connect_env_handlers(1) [OF conn perm own(1), of q] net that
    by (auto simp: own(3) has_handler_iff network_ok_def split: option.splits)
  then obtain sv where "new_server c (has_handler conn) = Inr sv"
    using new_server_ok [of c "has_handler conn"] net c by (auto simp: network_ok_def)
  with assms(2-4) v c(1) pa conn show ?thesis
    by (auto simp: run_peer_def bindR_Inr wrap_is_Inr)
qed

lemma start_client_ok:
  assumes net: "network_ok env n f peers" and "ne_keys env = Inr keys"
    and auth: "New_authenticator (ne_crypto env) (ne_roles env) keys [ClientAuthen] (env_id env) = Inr a"
  shows "\<exists>c. start_client env = Inr c"
proof -
  have d: "distinct (map fst (client_addrs peers))" and m: "map_of (client_addrs peers) = listed peers"
    using client_addrs_map by auto
  have perm: "\<And>xs. mset (ne_iter env xs) = mset xs" using net by (simp add: network_ok_def)
  have "map_of (client_addrs peers) \<subseteq>\<^sub>m listed peers" by (simp add: m)
  from connect_env_ok [OF perm addrs_dialled [OF net this d]]
  obtain conn where conn: "connect_env env (client_addrs peers) NewClientSide = Inr conn" by blast
  have "has_handler conn q" if "q < n" for q
    using connect_env_handlers(1) [OF conn perm d, of q] net that
    by (auto simp: m has_handler_iff network_ok_def split: option.splits)
  then obtain ps where "startReplicaConnections n (has_handler conn) 0 [] = (ps, Inr ())"
    using startReplicaConnections_ok [of 0 n "has_handler conn"] by blast
  moreover have "\<not> n < f * 2 + 1" using net by (simp add: network_ok_def mult.commute)
  ultimately obtain x where
    "new_net ((ce_stack env a)\<lparr>cc_id := env_id env, cc_n := n, cc_f := f\<rparr>) (has_handler conn) (ce_now env) = Inr x"
    by (auto simp: new_net_def new_client_def)
  with net assms(2,3) conn show ?thesis
    by (fastforce simp: start_client_def bindR_def wrap_def network_ok_def)
qed

section \<open>Example\<close>

definition demo_sdk :: sgx_sdk where
  "demo_sdk = sample_sdk\<lparr>sdk_sealed_size := 96\<rparr>"

definition demo_tool :: tool_env where
  "demo_tool =
     \<lparr>tl_opts = sample_opts, tl_enclave = ''libusig.signed.so'', tl_envsubst = Inr, tl_create = Inr (),
      tl_crypto = sample_keys, tl_replicas = sample_gen, tl_usigs = (\<lambda>_. sample_gen\<lparr>gen_sdk := \<lambda>_. demo_sdk\<rparr>),
      tl_clients = sample_gen\<rparr>"

definition demo_node :: "key_file \<Rightarrow> u64 \<Rightarrow> (unit, string, unit) node_env" where
  "demo_node keys i =
     \<lparr>ne_id = i, ne_keys = Inr keys, ne_crypto = sample_au, ne_roles = [USIGAuthen, ClientAuthen, ReplicaAuthen],
      ne_viper = demo_viper, ne_conf = ''consensus.yaml'', ne_iter = id, ne_dial = Inr, ne_level = [], ne_logfile = [],
      ne_parse = (\<lambda>_. Inr INFO), ne_openlog = (\<lambda>_. Inr ()), ne_stdout = ()\<rparr>"

definition demo_peer :: "key_file \<Rightarrow> u64 \<Rightarrow> (unit, string, unit) peer_env" where
  "demo_peer keys i = node_env.extend (demo_node keys i)
     \<lparr>pe_enclave = Inr ''libusig.signed.so'', pe_sdk = (\<lambda>_. demo_sdk), pe_stack = (\<lambda>_. sample_config)\<rparr>"

definition demo_client_config :: client_config where
  "demo_client_config =
     \<lparr>cc_id = 0, cc_n = 3, cc_f = 1, cc_hash = (\<lambda>_. replicate 32 0), cc_verify = (\<lambda>_ _ _. True),
      cc_sign = (\<lambda>_. Inr []), cc_unmarshal = (\<lambda>_. Inl (Error ''unmarshal''))\<rparr>"

definition demo_client_env :: "key_file \<Rightarrow> u64 \<Rightarrow> (unit, string, unit) client_env" where
  "demo_client_env keys i = node_env.extend (demo_node keys i) \<lparr>ce_stack = (\<lambda>_. demo_client_config), ce_now = 1\<rparr>"

definition demo_peers :: "Peer list" where
  "demo_peers = map (\<lambda>i. \<lparr>peer_ID = i, peer_Addr = '':8000''\<rparr>) [0, 1, 2]"

lemma demo_node_ok: "network_ok (node_env.extend (demo_node keys i) x) 3 1 demo_peers"
proof -
  have q: "q = 0 \<or> q = 1 \<or> q = 2" if "q < 3" for q :: u32
    using that by (simp add: word_less_nat_alt word_unat_eq_iff) linarith
  have l: "listed demo_peers q \<noteq> None" if "q < 3" for q
    using q [OF that] by (auto simp: listed_def peer_key_def demo_peers_def)
  have u: "set [USIGAuthen, ClientAuthen, ReplicaAuthen] = UNIV" using role.exhaust by auto
  have c: "LoadConfig demo_viper ''consensus.yaml'' None = (Some (), Inr ())" by code_simp
  have n: "cfg_N demo_viper (Some ()) = Inr 3" "cfg_F demo_viper (Some ()) = Inr 1" by code_simp+
  have p: "Peers demo_viper (Some ()) = Inr demo_peers" by (simp add: Peers_def demo_viper_def demo_peers_def)
  show ?thesis
    using l u c n p
    by (simp add: network_ok_def demo_node_def node_env.defs logging_env_def getLoggingOptions_def bindR_def wrap_def
        load_env_def new_configer_def)
qed

lemma demo_network:
  "network_ok (demo_peer keys i) 3 1 demo_peers" "network_ok (demo_client_env keys i) 3 1 demo_peers"
  unfolding demo_peer_def demo_client_env_def by (rule demo_node_ok)+

lemma demo_pairs:
  "sgx_generateKeyPair sample_keys demo_sdk =
     Inr (EncodeToString (replicate 64 0 @ replicate 32 1), EncodeToString [4])"
  "ecdsa_generateKeyPair sample_keys (gen_ecdsa sample_gen i) 256 = Inr (EncodeToString [1], EncodeToString [4])"
  "ecdsa_generateKeyPair sample_keys (gen_ecdsa sample_gen i) 0 = Inr (EncodeToString [1], EncodeToString [4])"
  "\<not> isl (NewUSIGEnclave demo_sdk (replicate 64 0 @ replicate 32 1))"
proof -
  have pk: "sgxEC256PubKeyToGo (replicate 64 0) = EcdsaPublic P256 0 0"
    by (simp add: sgxEC256PubKeyToGo_def sgxUint8SliceToBigInt_def bytes_nat_def numeral_eq_Suc)
  then show "sgx_generateKeyPair sample_keys demo_sdk =
     Inr (EncodeToString (replicate 64 0 @ replicate 32 1), EncodeToString [4])"
    by (simp add: sgx_generateKeyPair_def demo_sdk_def sample_keys_def crypto.defs sample_eval SealedKey_def ecall_usig_seal_key_def Destroy_def)
  show "\<not> isl (NewUSIGEnclave demo_sdk (replicate 64 0 @ replicate 32 1))"
    by (simp add: demo_sdk_def sample_eval unseal_key_def)
qed (simp_all add: ecdsa_generateKeyPair_def curve_for_def sample_gen_def sample_keys_def crypto.defs sample_crypto_def)

lemma demo_args:
  "generate_args [''3'', ''1''] demo_tool = Inr (demo_tool\<lparr>tl_opts := sample_opts\<lparr>NumberReplicas := 3\<rparr>\<rparr>)"
proof -
  have "Atoi ''3'' = Inr 3" "Atoi ''1'' = Inr 1" by code_simp+
  then show ?thesis by (simp add: generate_args_def bindR_def wrap_def demo_tool_def sample_opts_def)
qed

lemma demo_file:
  "\<exists>keys. GenerateTestnetKeys sample_keys sample_gen (sample_gen\<lparr>gen_sdk := \<lambda>_. demo_sdk\<rparr>) sample_gen
     (sample_opts\<lparr>NumberReplicas := 3\<rparr>) = Inr keys \<and> unseals demo_sdk keys"
  using demo_pairs
  by (simp add: sample_opts_def GenerateTestnetKeys_def generateKeySet_def generateKeyPair_def getKeySpec_def
      upt_rec unseals_def del: EncodeToString.simps)

lemma demo_generates: "\<exists>keys. keytool_generate [''3'', ''1''] demo_tool = Inr keys \<and> unseals demo_sdk keys"
  using demo_file unfolding keytool_generate_def demo_args
  by (auto simp: bindR_def generateKeys_def wrap_def demo_tool_def)

lemma demo_gen_ok: "gen_ok (sample_gen\<lparr>gen_sdk := x\<rparr>)"
  using sample_keys_ok(2) by (simp add: gen_ok_def)

lemma demo_starts: "\<exists>keys p. run_peer (demo_peer keys 2) = Inr p"
proof -
  obtain keys where k: "GenerateTestnetKeys sample_keys sample_gen (sample_gen\<lparr>gen_sdk := \<lambda>_. demo_sdk\<rparr>) sample_gen
      (sample_opts\<lparr>NumberReplicas := 3\<rparr>) = Inr keys" "unseals demo_sdk keys"
    using demo_file by blast
  have K: "keys_crypto sample_au = sample_keys" by (simp add: sample_au_def key_crypto.defs sample_keys_def crypto.defs)
  have "set [USIGAuthen, ClientAuthen, ReplicaAuthen] = UNIV" using role.exhaust by auto
  from generated_auth(1) [OF _ sample_keys_ok(2) demo_gen_ok sample_keys_ok(2) _ _ _ this, of sample_au, unfolded K,
      OF sample_keys_ok(1) k(1)] k(2)
  obtain a where "NewWithSGXUSIG sample_au demo_sdk [USIGAuthen, ClientAuthen, ReplicaAuthen] keys
      [ReplicaAuthen, USIGAuthen] 2 = Inr a"
    by (fastforce simp: sample_opts_def)
  with run_peer_ok [OF demo_network(1) [of keys 2], of "''libusig.signed.so''" keys] show ?thesis
    by (auto simp: demo_peer_def demo_node_def node_env.defs env_id_def)
qed

section \<open>Properties\<close>

text \<open>
  C32: a test network that was set up with the tools starts. If the key tool has made a key file, with
  the default key specifications, then every replica and every client with an identifier below the
  number of keys gets through all of its start-up with that file: it loads the keys and makes its
  authenticator, dials the peers, and makes the replica or the client; given that the configuration
  loads and names an address of each replica, that these can be dialled, and that the enclave starts
  with the keys that were sealed.
\<close>

theorem testnet_starts:
  assumes "keytool_generate args t = Inr keys" and "generate_args args t = Inr t'"
    and "key_codec_ok (tl_crypto t)" and "gen_ok (tl_replicas t)" and "\<forall>file. gen_ok (tl_usigs t file)" and "gen_ok (tl_clients t)"
    and "ReplicaKeySpec (tl_opts t) = keySpecEcdsa" and "ClientKeySpec (tl_opts t) = keySpecEcdsa"
    and "network_ok env n f peers" and "ne_keys env = Inr keys" and "keys_crypto (ne_crypto env) = tl_crypto t"
    and "pe_enclave env = Inr file" and "unseals (pe_sdk env file) keys"
    and "network_ok cenv n f peers" and "ne_keys cenv = Inr keys" and "keys_crypto (ne_crypto cenv) = tl_crypto t"
  shows "(int (unat (env_id env)) < NumberReplicas (tl_opts t') \<longrightarrow> (\<exists>p. run_peer env = Inr p)) \<and>
    (int (unat (env_id cenv)) < NumberClients (tl_opts t') \<longrightarrow> (\<exists>c. start_client cenv = Inr c))"
proof -
  note args = generate_args_opts [OF assms(2)]
  obtain u where g: "GenerateTestnetKeys (tl_crypto t) (tl_replicas t) (tl_usigs t u) (tl_clients t) (tl_opts t') = Inr keys"
    using assms(1,2) args by (auto simp: keytool_generate_def generateKeys_def bindR_Inr wrap_is_Inr)
  have specs: "ReplicaKeySpec (tl_opts t') = keySpecEcdsa" "ClientKeySpec (tl_opts t') = keySpecEcdsa"
    using args assms(7,8) by simp_all
  have u: "gen_ok (tl_usigs t u)" using assms(5) by blast
  have roles: "set (ne_roles env) = UNIV" "distinct (ne_roles env)" "set (ne_roles cenv) = UNIV" "distinct (ne_roles cenv)"
    using assms(9,14) by (simp_all add: network_ok_def)
  note keys = generated_auth [OF _ assms(4) u assms(6) _ specs]
  show ?thesis
    using keys(1) [OF _ _ roles(1,2), of "ne_crypto env" keys "env_id env" "pe_sdk env file"]
      keys(2) [OF _ _ roles(3,4), of "ne_crypto cenv" keys "env_id cenv"]
      run_peer_ok [OF assms(9,12,10)] start_client_ok [OF assms(14,15)] g assms(3,11,13,16)
    by auto
qed

theorem testnet_starts_witness:
  "\<exists>keys. keytool_generate [''3'', ''1''] demo_tool = Inr keys \<and>
     (\<exists>p. run_peer (demo_peer keys 2) = Inr p) \<and> (\<exists>c. start_client (demo_client_env keys 0) = Inr c)"
proof -
  obtain keys where k: "keytool_generate [''3'', ''1''] demo_tool = Inr keys" "unseals demo_sdk keys"
    using demo_generates by blast
  have "(\<exists>p. run_peer (demo_peer keys 2) = Inr p) \<and> (\<exists>c. start_client (demo_client_env keys 0) = Inr c)"
    using testnet_starts [OF k(1) demo_args _ _ _ _ _ _ demo_network(1) [of keys 2] _ _ _ _ demo_network(2) [of keys 0],
        of "''libusig.signed.so''"] k(2) sample_keys_ok demo_gen_ok
    by (simp add: demo_tool_def sample_opts_def demo_peer_def demo_client_env_def demo_node_def node_env.defs env_id_def
        sample_au_def key_crypto.defs sample_keys_def crypto.defs)
  with k(1) show ?thesis by blast
qed

text \<open>
  C33: what a started replica is. Its core was made by \<open>New\<close> from the numbers in the configuration, and
  its connector has a handler exactly for the other replicas that the configuration lists: the handler
  for peers of the connection to the last address that is listed for the identifier. There is one for
  every other replica below \<open>n\<close>, and these are the connections that the core has started. It listens on the
  address that is listed for itself.
\<close>

theorem replica_started:
  assumes "run_peer env = Inr p" and "\<forall>xs. mset (ne_iter env xs) = mset xs"
  shows "\<exists>v peers c. load_env env = Inr (Some v) \<and> Peers (ne_viper env) (Some v) = Inr peers \<and>
    cfg_N (ne_viper env) (Some v) = Inr (cfg_n c) \<and> cfg_F (ne_viper env) (Some v) = Inr (cfg_f c) \<and>
    cfg_id c = env_id env \<and> \<not> cfg_n c < 2 * cfg_f c + 1 \<and>
    new_server c (has_handler (pr_conn p)) = Inr (pr_server p) \<and>
    map fst (sv_peers (pr_server p)) = peers_from (env_id env) 0 (cfg_n c) \<and>
    (\<forall>q. q < cfg_n c \<and> q \<noteq> env_id env \<longrightarrow> listed peers q \<noteq> None) \<and>
    (\<forall>q. ReplicaMessageStreamHandler q (pr_conn p) =
       (if q = env_id env then None
        else map_option (\<lambda>a. (PeerChat, \<lparr>gr_id = q, gr_conn = projr (ne_dial env a)\<rparr>)) (listed peers q))) \<and>
    pr_listen p = (case listed peers (env_id env) of None \<Rightarrow> [] | Some a \<Rightarrow> a)"
proof -
  obtain auth cfg peers addrs opts c where
    cfg: "load_env env = Inr cfg" and peers: "Peers (ne_viper env) cfg = Inr peers"
    and pa: "peer_addrs (env_id env) peers ([], []) = (addrs, pr_listen p)"
    and conn: "connect_env env addrs NewReplicaSide = Inr (pr_conn p)"
    and c: "replica_config env auth cfg = Inr c"
    and sv: "new_server c (has_handler (pr_conn p)) = Inr (pr_server p)"
    using assms(1) by (auto simp: run_peer_def bindR_Inr wrap_is_Inr case_prod_beta prod_eq_iff)
  obtain v where v: "cfg = Some v" using peers by (cases cfg) (simp_all add: Peers_def)
  have nf: "cfg_id c = env_id env" "cfg_N (ne_viper env) cfg = Inr (cfg_n c)" "cfg_F (ne_viper env) cfg = Inr (cfg_f c)"
    using c by (auto simp: replica_config_def bindR_Inr)
  note own = peer_addrs_own [OF pa]
  have h: "ReplicaMessageStreamHandler q (pr_conn p) =
      (if q = env_id env then None
       else map_option (\<lambda>a. (PeerChat, \<lparr>gr_id = q, gr_conn = projr (ne_dial env a)\<rparr>)) (listed peers q))" for q
    using connect_env_handlers(1) [OF conn _ own(1), of q] assms(2) by (auto simp: own(3) split: option.splits)
  have "listed peers q \<noteq> None" if "q < cfg_n c" "q \<noteq> env_id env" for q
    using new_server_peers [OF sv] nf(1) h [of q] that by (cases "listed peers q") (auto simp: has_handler_iff)
  with cfg peers v nf sv h own(2) new_server_peers [OF sv] show ?thesis
    by (intro exI [of _ v] exI [of _ peers] exI [of _ c]) simp
qed

theorem replica_started_witness:
  "\<exists>keys p. run_peer (demo_peer keys 2) = Inr p \<and> map fst (sv_peers (pr_server p)) = [0, 1] \<and> pr_listen p = '':8000''"
proof -
  obtain keys p where p: "run_peer (demo_peer keys 2) = Inr p" using demo_starts by blast
  obtain v peers and c :: config where "Peers demo_viper (Some v) = Inr peers"
    "cfg_N demo_viper (Some v) = Inr (cfg_n c)"
    "map fst (sv_peers (pr_server p)) = peers_from 2 0 (cfg_n c)"
    "pr_listen p = (case listed peers 2 of None \<Rightarrow> [] | Some a \<Rightarrow> a)"
    using replica_started [OF p] 
    by (auto simp: demo_peer_def demo_node_def node_env.defs env_id_def)
  moreover have "Peers demo_viper (Some ()) = Inr demo_peers" by (simp add: Peers_def demo_viper_def demo_peers_def)
  moreover have "cfg_N demo_viper (Some ()) = Inr 3" "peers_from 2 0 3 = [0, 1]" "listed demo_peers 2 = Some '':8000''"
    by code_simp+
  ultimately have "map fst (sv_peers (pr_server p)) = [0, 1]" "pr_listen p = '':8000''" by simp_all
  with p show ?thesis by (intro exI [of _ keys] exI [of _ p] conjI)
qed

end
