(* ===== verification/Diagnostics.thy ===== *)
theory Diagnostics
  imports Protobuf "HOL-Library.AList"
begin

text \<open>
  The textual form of messages for log lines (\<open>messages/utils.go\<close>), over the message objects of package
  \<open>protobuf\<close>, with the verbs \<open>%d\<close>, \<open>%s\<close>, \<open>%v\<close> and \<open>%q\<close> of package \<open>fmt\<close> that it uses. A Go string is a list of
  bytes. Which runes beyond ASCII can be printed is a parameter.
\<close>

section \<open>Numbers, slices and maps\<close>

fun dec :: "nat \<Rightarrow> bytes" where
  "dec n = (if n < 10 then [of_nat (48 + n)] else dec (n div 10) @ [of_nat (48 + n mod 10)])"

declare dec.simps [simp del]

definition fmt_d :: "'a::len word \<Rightarrow> bytes" where
  "fmt_d x = dec (unat x)"

fun separated :: "bytes list \<Rightarrow> bytes" where
  "separated [] = []"
| "separated [s] = s"
| "separated (s # ss) = s @ str_bytes '' '' @ separated ss"

definition fmt_slice :: "u32 list \<Rightarrow> bytes" where
  "fmt_slice q = str_bytes ''['' @ separated (map fmt_d q) @ str_bytes '']''"

text \<open>Maps are printed in the order of their keys.\<close>

definition fmt_map :: "(u32 \<times> u64) list \<Rightarrow> bytes" where
  "fmt_map q =
     str_bytes ''map['' @ separated (map (\<lambda>(k, v). fmt_d k @ str_bytes '':'' @ fmt_d v) (sort_key fst q)) @ str_bytes '']''"

section \<open>Quoting\<close>

text \<open>\<open>utf8.DecodeRuneInString\<close>: a rune and its width; an invalid encoding is \<open>RuneError\<close> of width 1.\<close>

abbreviation RuneError :: nat where
  "RuneError \<equiv> 65533"

definition cont :: "nat \<Rightarrow> bool" where
  "cont b = (128 \<le> b \<and> b < 192)"

definition DecodeRune :: "nat list \<Rightarrow> nat \<times> nat" where
  "DecodeRune s =
     (case s of
        [] \<Rightarrow> (RuneError, 0)
      | b0 # t \<Rightarrow>
          if b0 < 128 then (b0, 1)
          else if b0 < 194 then (RuneError, 1)
          else if b0 < 224 then
            (case t of
               b1 # _ \<Rightarrow> if cont b1 then ((b0 - 192) * 64 + (b1 - 128), 2) else (RuneError, 1)
             | _ \<Rightarrow> (RuneError, 1))
          else if b0 < 240 then
            (case t of
               b1 # b2 # _ \<Rightarrow>
                 if cont b1 \<and> (b0 = 224 \<longrightarrow> 160 \<le> b1) \<and> (b0 = 237 \<longrightarrow> b1 < 160) \<and> cont b2
                 then ((b0 - 224) * 4096 + (b1 - 128) * 64 + (b2 - 128), 3) else (RuneError, 1)
             | _ \<Rightarrow> (RuneError, 1))
          else if b0 < 245 then
            (case t of
               b1 # b2 # b3 # _ \<Rightarrow>
                 if cont b1 \<and> (b0 = 240 \<longrightarrow> 144 \<le> b1) \<and> (b0 = 244 \<longrightarrow> b1 < 144) \<and> cont b2 \<and> cont b3
                 then ((b0 - 240) * 262144 + (b1 - 128) * 4096 + (b2 - 128) * 64 + (b3 - 128), 4) else (RuneError, 1)
             | _ \<Rightarrow> (RuneError, 1))
          else (RuneError, 1))"

definition AppendRune :: "nat \<Rightarrow> nat list" where
  "AppendRune r =
     (if r < 128 then [r]
      else if r < 2048 then [192 + r div 64, 128 + r mod 64]
      else if r > 1114111 \<or> 55296 \<le> r \<and> r < 57344 then [239, 191, 189]
      else if r < 65536 then [224 + r div 4096, 128 + r div 64 mod 64, 128 + r mod 64]
      else [240 + r div 262144, 128 + r div 4096 mod 64, 128 + r div 64 mod 64, 128 + r mod 64])"

definition lowerhex :: "nat \<Rightarrow> nat" where
  "lowerhex n = (if n mod 16 < 10 then 48 + n mod 16 else 87 + n mod 16)"

text \<open>The digits of \<open>r\<close> from the given position down to 0.\<close>

definition hex :: "nat \<Rightarrow> nat \<Rightarrow> nat list" where
  "hex digits r = map (\<lambda>i. lowerhex (r div 16 ^ i)) (rev [0..<digits])"

definition IsPrint :: "(nat \<Rightarrow> bool) \<Rightarrow> nat \<Rightarrow> bool" where
  "IsPrint P r = (if r < 128 then 32 \<le> r \<and> r < 127 else P r)"

definition appendEscapedRune :: "(nat \<Rightarrow> bool) \<Rightarrow> nat \<Rightarrow> nat list" where
  "appendEscapedRune P r =
     (if r = 34 \<or> r = 92 then [92, r]
      else if IsPrint P r then AppendRune r
      else if r = 7 then [92, 97] else if r = 8 then [92, 98] else if r = 12 then [92, 102]
      else if r = 10 then [92, 110] else if r = 13 then [92, 114] else if r = 9 then [92, 116]
      else if r = 11 then [92, 118]
      else if r < 32 \<or> r = 127 then [92, 120] @ hex 2 r
      else if r > 1114111 \<or> 55296 \<le> r \<and> r < 57344 then [92, 117] @ hex 4 RuneError
      else if r < 65536 then [92, 117] @ hex 4 r
      else [92, 85] @ hex 8 r)"

lemma DecodeRune_width: "s \<noteq> [] \<Longrightarrow> 0 < snd (DecodeRune s)"
  by (auto simp: DecodeRune_def split: list.splits)

function quote_loop :: "(nat \<Rightarrow> bool) \<Rightarrow> nat list \<Rightarrow> nat list" where
  "quote_loop P s =
     (if s = [] then []
      else let (r, width) = DecodeRune s
           in (if width = 1 \<and> r = RuneError then [92, 120] @ hex 2 (hd s) else appendEscapedRune P r)
                @ quote_loop P (drop width s))"
  by auto

termination
proof (relation "measure (\<lambda>(P, s). length s)")
  fix P :: "nat \<Rightarrow> bool" and s :: "nat list" and x r width
  assume "s \<noteq> []" "x = DecodeRune s" "(r, width) = x"
  with DecodeRune_width [of s] show "((P, drop width s), P, s) \<in> measure (\<lambda>(P, s). length s)"
    by (metis (no_types, lifting) case_prod_conv diff_less in_measure length_drop length_greater_0_conv snd_conv)
qed simp

declare quote_loop.simps [simp del]

definition fmt_q :: "(nat \<Rightarrow> bool) \<Rightarrow> bytes \<Rightarrow> bytes" where
  "fmt_q P s = map of_nat ([34] @ quote_loop P (map unat s) @ [34])"

section \<open>Messages\<close>

definition maxStringWidth :: nat where
  "maxStringWidth = 256"

definition shortString :: "bytes \<Rightarrow> nat \<Rightarrow> bytes" where
  "shortString str mx = (if mx > 0 \<and> length str > mx then take (mx - 1) str @ str_bytes ''...'' else str)"

fun obj_ui :: "cert_obj \<Rightarrow> ui option" where
  "obj_ui (OPrepare p r u) = u"
| "obj_ui (OCommit p prop u) = u"
| "obj_ui (OViewChange v) = vo_ui v"
| "obj_ui (ONewView p vs u) = u"

definition counter_of :: "ui option \<Rightarrow> u64 result" where
  "counter_of u = (case u of None \<Rightarrow> Inl (Panic ''nil pointer dereference'') | Some w \<Rightarrow> Inr (Counter w))"

definition vcCertString :: "pb_rvc list \<Rightarrow> bytes" where
  "vcCertString vcCert = str_bytes ''<quorum='' @ fmt_slice (map pb_rvc_ReplicaId vcCert) @ str_bytes ''>''"

fun nv_quorum :: "vc_obj list \<Rightarrow> (u32 \<times> u64) list \<Rightarrow> (u32 \<times> u64) list result" where
  "nv_quorum [] q = Inr q"
| "nv_quorum (vc # vcs) q =
     (case counter_of (vo_ui vc) of
        Inl e \<Rightarrow> Inl e
      | Inr cv \<Rightarrow> nv_quorum vcs (AList.update (pb_vc_ReplicaId (vo_pb vc)) cv q))"

definition nvCertString :: "vc_obj list \<Rightarrow> bytes result" where
  "nvCertString nvCert =
     (case nv_quorum nvCert [] of
        Inl e \<Rightarrow> Inl e
      | Inr q \<Rightarrow> Inr (str_bytes ''<quorum='' @ fmt_map q @ str_bytes ''>''))"

fun stringify_cert :: "cert_obj \<Rightarrow> bytes result" where
  "stringify_cert (OPrepare p req u) =
     (case counter_of u of
        Inl e \<Rightarrow> Inl e
      | Inr cv \<Rightarrow>
          Inr (str_bytes ''<PREPARE cv='' @ fmt_d cv @ str_bytes '' replica='' @ fmt_d (pb_prep_ReplicaId p)
            @ str_bytes '' view='' @ fmt_d (pb_prep_View p)
            @ str_bytes '' client='' @ fmt_d (req_ClientID (view_request req))
            @ str_bytes '' seq='' @ fmt_d (req_Sequence (view_request req)) @ str_bytes ''>''))"
| "stringify_cert (OCommit p prop u) =
     (case counter_of u of
        Inl e \<Rightarrow> Inl e
      | Inr cv \<Rightarrow>
          (case stringify_cert prop of
             Inl e \<Rightarrow> Inl e
           | Inr s \<Rightarrow>
               Inr (str_bytes ''<COMMIT cv='' @ fmt_d cv @ str_bytes '' replica='' @ fmt_d (pb_comm_ReplicaId p)
                 @ str_bytes '' proposal='' @ s @ str_bytes ''>'')))"
| "stringify_cert (OViewChange v) =
     (case counter_of (vo_ui v) of
        Inl e \<Rightarrow> Inl e
      | Inr cv \<Rightarrow>
          Inr (str_bytes ''<VIEW-CHANGE cv='' @ fmt_d cv @ str_bytes '' replica='' @ fmt_d (pb_vc_ReplicaId (vo_pb v))
            @ str_bytes '' newView='' @ fmt_d (pb_vc_NewView (vo_pb v))
            @ str_bytes '' vcCert='' @ vcCertString (vo_cert v) @ str_bytes ''>''))"
| "stringify_cert (ONewView p vs u) =
     (case counter_of u of
        Inl e \<Rightarrow> Inl e
      | Inr cv \<Rightarrow>
          (case nvCertString vs of
             Inl e \<Rightarrow> Inl e
           | Inr s \<Rightarrow>
               Inr (str_bytes ''<NEW-VIEW cv='' @ fmt_d cv @ str_bytes '' replica='' @ fmt_d (pb_nv_ReplicaId p)
                 @ str_bytes '' newView='' @ fmt_d (pb_nv_NewView p)
                 @ str_bytes '' nvCert='' @ s @ str_bytes ''>'')))"

fun Stringify :: "(nat \<Rightarrow> bool) \<Rightarrow> msg_obj \<Rightarrow> bytes result" where
  "Stringify P (OHello p) = Inr (str_bytes ''<HELLO replica='' @ fmt_d (pb_hello_ReplicaId p) @ str_bytes ''>'')"
| "Stringify P (ORequest r) =
     Inr (str_bytes ''<REQUEST client='' @ fmt_d (req_ClientID (view_request r))
       @ str_bytes '' seq='' @ fmt_d (req_Sequence (view_request r))
       @ str_bytes '' operation='' @ fmt_q P (shortString (req_Operation (view_request r)) maxStringWidth) @ str_bytes ''>'')"
| "Stringify P (OReply p) =
     Inr (str_bytes ''<REPLY replica='' @ fmt_d (pb_rep_ReplicaId p) @ str_bytes '' seq='' @ fmt_d (pb_rep_Seq p)
       @ str_bytes '' result='' @ fmt_q P (shortString (pb_rep_Result p) maxStringWidth) @ str_bytes ''>'')"
| "Stringify P (OReqViewChange p) =
     Inr (str_bytes ''<REQ-VIEW-CHANGE replica='' @ fmt_d (pb_rvc_ReplicaId p)
       @ str_bytes '' newView='' @ fmt_d (pb_rvc_NewView p) @ str_bytes ''>'')"
| "Stringify P (OCertified x) = stringify_cert x"

section \<open>No control characters\<close>

definition visible :: "nat \<Rightarrow> bool" where
  "visible b = (32 \<le> b \<and> b \<noteq> 127 \<and> b < 256)"

definition clean :: "bytes \<Rightarrow> bool" where
  "clean s = list_all (\<lambda>b. visible (unat b)) s"

lemma clean_append [simp]: "clean (s @ t) \<longleftrightarrow> clean s \<and> clean t"
  by (simp add: clean_def)

lemma clean_of_nat: "list_all visible ns \<Longrightarrow> clean (map of_nat ns)"
  by (auto simp: clean_def list_all_iff visible_def unsigned_of_nat take_bit_nat_eq_self)

lemma clean_digit: "n < 10 \<Longrightarrow> clean [of_nat (48 + n)]"
  using clean_of_nat [of "[48 + n]"] by (simp add: visible_def)

lemma clean_dec: "clean (dec n)"
proof (induction n rule: dec.induct)
  case (1 n)
  show ?case
  proof (cases "n < 10")
    case True
    then show ?thesis by (subst dec.simps) (simp add: clean_digit del: of_nat_add)
  next
    case False
    with 1 clean_digit [of "n mod 10"] show ?thesis by (subst dec.simps) (simp del: of_nat_add)
  qed
qed

lemma hex_visible: "list_all visible (hex k r)"
  by (auto simp: hex_def list_all_iff visible_def lowerhex_def)

lemma AppendRune_visible: "IsPrint P r \<Longrightarrow> list_all visible (AppendRune r)"
  by (auto simp: AppendRune_def IsPrint_def visible_def split: if_splits)

lemma appendEscapedRune_visible: "list_all visible (appendEscapedRune P r)"
  using AppendRune_visible [of P r] hex_visible by (auto simp: appendEscapedRune_def visible_def)

lemma quote_loop_visible: "list_all visible (quote_loop P s)"
proof (induction P s rule: quote_loop.induct)
  case (1 P s)
  obtain r w where d: "DecodeRune s = (r, w)" by fastforce
  show ?case
    using 1 [of _ r w] d hex_visible appendEscapedRune_visible
    by (subst quote_loop.simps) (auto simp: visible_def [of 92] visible_def [of 120])
qed

lemma clean_separated: "list_all clean ss \<Longrightarrow> clean (separated ss)"
proof (induction ss rule: separated.induct)
  case (3 s t ss)
  then show ?case by (simp add: clean_def str_bytes_def visible_def)
qed (simp_all add: clean_def)

lemma clean_str: "list_all (\<lambda>c. visible (of_char c)) s \<Longrightarrow> clean (str_bytes s)"
  using clean_of_nat [of "map of_char s"] by (simp add: str_bytes_def list_all_iff comp_def of_nat_of_char)

lemma clean_fmt_d [simp]: "clean (fmt_d x)"
  by (simp add: fmt_d_def clean_dec)

lemma clean_fmt [simp]: "clean (fmt_slice q)" "clean (fmt_map m)" "clean (fmt_q P s)"
proof -
  have l: "clean (str_bytes s)" if "s \<in> {''['', '']'', '':'', ''map[''}" for s
    using that by (auto intro!: clean_str simp: visible_def)
  show "clean (fmt_slice q)"
    using clean_separated [of "map fmt_d q"] by (simp add: fmt_slice_def l list_all_iff)
  have "list_all clean (map (\<lambda>(k, v). fmt_d k @ str_bytes '':'' @ fmt_d v) m)" for m :: "(u32 \<times> u64) list"
    by (auto simp: list_all_iff l)
  then show "clean (fmt_map m)" by (simp add: fmt_map_def l clean_separated)
  show "clean (fmt_q P s)"
    using clean_of_nat [of "[34] @ quote_loop P (map unat s) @ [34]"] quote_loop_visible
    by (simp add: fmt_q_def visible_def [of 34] del: map_append)
qed

text \<open>The UIs that are read.\<close>

fun uis_set :: "cert_obj \<Rightarrow> bool" where
  "uis_set (OPrepare p r u) = (u \<noteq> None)"
| "uis_set (OCommit p prop u) = (u \<noteq> None \<and> uis_set prop)"
| "uis_set (OViewChange v) = (vo_ui v \<noteq> None)"
| "uis_set (ONewView p vs u) = (u \<noteq> None \<and> list_all (\<lambda>v. vo_ui v \<noteq> None) vs)"

lemma counter_set: "(\<exists>c. counter_of u = Inr c) \<longleftrightarrow> u \<noteq> None" "counter_of u = Inl e \<longleftrightarrow> u = None \<and> e = Panic ''nil pointer dereference''"
  by (auto simp: counter_of_def split: option.splits)

lemma nv_quorum_set:
  "if list_all (\<lambda>v. vo_ui v \<noteq> None) vs then \<exists>q'. nv_quorum vs q = Inr q' else nv_quorum vs q = Inl (Panic ''nil pointer dereference'')"
  by (induction vs q rule: nv_quorum.induct) (auto simp: counter_of_def split: option.splits if_splits)

lemma stringify_cert_clean:
  "if uis_set x then \<exists>s. stringify_cert x = Inr s \<and> clean s else stringify_cert x = Inl (Panic ''nil pointer dereference'')"
proof (induction x rule: stringify_cert.induct)
  case (4 p vs u)
  then show ?case using nv_quorum_set [of vs "[]"]
    by (auto simp: counter_of_def nvCertString_def clean_str visible_def split: option.splits if_splits)
qed (auto simp: counter_of_def vcCertString_def clean_str visible_def split: option.splits)

lemma coherent_uis: "coherent x \<Longrightarrow> uis_set x" "coherent_vc v \<Longrightarrow> vo_ui v \<noteq> None"
  by (induction x and v rule: coherent_coherent_vc.induct) (auto simp: ui_matches_def list_all_iff split: option.splits)

section \<open>Properties\<close>

text \<open>
  C36: messages that were received can be logged. \<open>Stringify\<close> returns a string for every message that the
  decoder accepts, and no byte of the string is a control character, whatever the operation or
  the result in the message is: so a message cannot break out of its log line. For certified messages in
  general it dereferences nil exactly if a UI that it reads is not set.
\<close>

theorem Stringify_received:
  "(typedMessageFromPb p = Inr m \<longrightarrow> (\<exists>s. Stringify P m = Inr s \<and> clean s)) \<and>
   (Stringify P (OCertified x) = Inl e \<longleftrightarrow> \<not> uis_set x \<and> e = Panic ''nil pointer dereference'')"
proof
  show "typedMessageFromPb p = Inr m \<longrightarrow> (\<exists>s. Stringify P m = Inr s \<and> clean s)"
  proof
    assume "typedMessageFromPb p = Inr m"
    then have "coherent_msg m" using decode_coherent(1) by blast
    then show "\<exists>s. Stringify P m = Inr s \<and> clean s"
      using coherent_uis(1) stringify_cert_clean by (cases m) (auto simp: clean_str visible_def split: if_splits)
  qed
  show "Stringify P (OCertified x) = Inl e \<longleftrightarrow> \<not> uis_set x \<and> e = Panic ''nil pointer dereference''"
    using stringify_cert_clean [of x] by (auto split: if_splits)
qed

theorem Stringify_received_witness:
  "\<exists>m s. typedMessageFromPb (Message_Request (newRequest 1 7 [10, 104, 105])) = Inr m \<and>
     Stringify (\<lambda>_. True) m = Inr s \<and> clean s \<and>
     s = str_bytes ''<REQUEST client=1 seq=7 operation='' @ [34, 92, 110, 104, 105, 34] @ str_bytes ''>''"
proof -
  let ?m = "ORequest (newRequest 1 7 [10, 104, 105])"
  have d: "typedMessageFromPb (Message_Request (newRequest 1 7 [10, 104, 105])) = Inr ?m" by (simp add: newRequestFromPb_def)
  moreover obtain s where "Stringify (\<lambda>_. True) ?m = Inr s" "clean s"
    using Stringify_received [of _ ?m "\<lambda>_. True"] d by blast
  moreover have "Stringify (\<lambda>_. True) ?m =
    Inr (str_bytes ''<REQUEST client=1 seq=7 operation='' @ [34, 92, 110, 104, 105, 34] @ str_bytes ''>'')" 
    by (simp add: fmt_q_def quote_loop.simps DecodeRune_def appendEscapedRune_def IsPrint_def AppendRune_def fmt_d_def
        dec.simps str_bytes_def shortString_def maxStringWidth_def newRequest_def view_request_def)
  ultimately show ?thesis by auto
qed

end
