(* ===== verification/Ledger.thy ===== *)
theory Ledger
  imports Encoding Base64
begin

text \<open>
  \<open>sample/requestconsumer/simpleledger.go\<close>: the sample application, a chain of blocks with one
  request each, and the goroutine that executes the delivered requests. A slice that may be
  \<open>nil\<close> is an option. The hash function is a parameter.
\<close>

section \<open>Blocks\<close>

abbreviation hashSize :: nat where
  "hashSize \<equiv> 32"

definition octets :: "bytes option \<Rightarrow> bytes" where
  "octets s = (case s of None \<Rightarrow> [] | Some bs \<Rightarrow> bs)"

text \<open>The builtin \<open>copy\<close>, with the contents of the destination after it.\<close>

definition copy_into :: "bytes \<Rightarrow> bytes \<Rightarrow> bytes" where
  "copy_into dst src = take (length dst) src @ drop (length src) dst"

record simple_block =
  Height :: u64
  PrevBlockHash :: "bytes option"
  Payload :: "bytes option"

definition block_MarshalBinary :: "simple_block \<Rightarrow> bytes" where
  "block_MarshalBinary b =
     be64 (Height b) @ copy_into (replicate hashSize 0) (octets (PrevBlockHash b)) @ octets (Payload b)"

text \<open>\<open>UnmarshalBinary\<close> of the block \<open>b\<close>: a failed read leaves the rest of the block as it was.\<close>

definition block_UnmarshalBinary :: "bytes \<Rightarrow> (simple_block, unit) handler" where
  "block_UnmarshalBinary marshaled b =
     (case read_be64 marshaled of
        Inl e \<Rightarrow> (b, Inl (Error ''SimpleBlock binary.Read failed in b.height''))
      | Inr (h, r) \<Rightarrow>
          let b1 = b\<lparr>Height := h\<rparr>
          in if length r < hashSize
             then (b1, Inl (Error ''SimpleBlock binary.Read failed in b.prevBlockHash''))
             else (b1\<lparr>PrevBlockHash := map_option (\<lambda>d. copy_into d (take hashSize r)) (PrevBlockHash b1),
                      Payload := Some (drop hashSize r)\<rparr>, Inr ()))"

definition block_Hash :: "(bytes \<Rightarrow> bytes) \<Rightarrow> simple_block \<Rightarrow> bytes" where
  "block_Hash H b = H (block_MarshalBinary b)"

text \<open>\<open>json.Marshal\<close> of a block: a byte slice is a Base64 string, or \<open>null\<close> if it is nil.\<close>

fun decimal :: "nat \<Rightarrow> string" where
  "decimal n = (if n < 10 then [char_of (48 + n)] else decimal (n div 10) @ [char_of (48 + n mod 10)])"

declare decimal.simps [simp del]

definition json_slice :: "bytes option \<Rightarrow> string" where
  "json_slice s = (case s of None \<Rightarrow> ''null'' | Some bs \<Rightarrow> [CHR 0x22] @ EncodeToString bs @ [CHR 0x22])"

definition json_field :: "string \<Rightarrow> string \<Rightarrow> string" where
  "json_field k v = [CHR 0x22] @ k @ [CHR 0x22, CHR '':''] @ v"

definition block_json :: "simple_block \<Rightarrow> bytes" where
  "block_json b =
     str_bytes (''{'' @ json_field ''Height'' (decimal (unat (Height b))) @ '','' @
       json_field ''PrevBlockHash'' (json_slice (PrevBlockHash b)) @ '','' @
       json_field ''Payload'' (json_slice (Payload b)) @ ''}'')"

section \<open>The ledger\<close>

record simple_ledger =
  blocks :: "simple_block list"
  ledger_length :: u64

definition new_ledger :: simple_ledger where
  "new_ledger = \<lparr>blocks = [], ledger_length = 0\<rparr>"

definition GetLength :: "simple_ledger \<Rightarrow> u64" where
  "GetLength l = ledger_length l"

definition last_block :: "simple_ledger \<Rightarrow> simple_block result" where
  "last_block l =
     (let i = unat (ledger_length l - 1)
      in if i < length (blocks l) then Inr (blocks l ! i) else Inl (Panic ''index out of range''))"

definition StateDigest :: "(bytes \<Rightarrow> bytes) \<Rightarrow> simple_ledger \<Rightarrow> bytes option result" where
  "StateDigest H l =
     (if ledger_length l = 0 then Inr None
      else case last_block l of
             Inl e \<Rightarrow> Inl e
           | Inr b \<Rightarrow> Inr (Some (block_MarshalBinary b @ H [])))"

definition appendBlock :: "(bytes \<Rightarrow> bytes) \<Rightarrow> bytes option \<Rightarrow> (simple_ledger, simple_block) handler" where
  "appendBlock H payload l =
     (case (if ledger_length l > 0 then map_sum id (\<lambda>b. Some (block_Hash H b)) (last_block l) else Inr None) of
        Inl e \<Rightarrow> (l, Inl e)
      | Inr prev \<Rightarrow>
          let n = ledger_length l + 1; block = \<lparr>Height = n, PrevBlockHash = prev, Payload = payload\<rparr>
          in (l\<lparr>ledger_length := n, blocks := blocks l @ [block]\<rparr>, Inr block))"

section \<open>The executing goroutine\<close>

text \<open>
  A call of \<open>Deliver\<close> waits until the goroutine takes its message from the unbuffered queue; the
  goroutine appends the block and waits until the caller reads the result. A call that was taken
  carries the position of its block, and an answered one also the result.
\<close>

datatype deliver_call =
    Queued "bytes option"
  | Taken "bytes option" nat
  | Answered "bytes option" nat bytes

record ledger_sys =
  ls_ledger :: simple_ledger
  ls_calls :: "deliver_call list"
  ls_busy :: "(nat \<times> bytes) option"

definition Deliver :: "bytes option \<Rightarrow> ledger_sys \<Rightarrow> ledger_sys" where
  "Deliver msg y = y\<lparr>ls_calls := ls_calls y @ [Queued msg]\<rparr>"

inductive ledger_step :: "(bytes \<Rightarrow> bytes) \<Rightarrow> ledger_sys \<Rightarrow> ledger_sys \<Rightarrow> bool" for H where
  deliver: "ledger_step H y (Deliver msg y)"
| take_msg: "ls_busy y = None \<Longrightarrow> k < length (ls_calls y) \<Longrightarrow> ls_calls y ! k = Queued msg \<Longrightarrow>
    appendBlock H msg (ls_ledger y) = (l', Inr block) \<Longrightarrow>
    ledger_step H y \<lparr>ls_ledger = l', ls_calls = (ls_calls y)[k := Taken msg (length (blocks (ls_ledger y)))],
      ls_busy = Some (k, block_json block)\<rparr>"
| answer: "ls_busy y = Some (k, res) \<Longrightarrow> k < length (ls_calls y) \<Longrightarrow> ls_calls y ! k = Taken msg i \<Longrightarrow>
    ledger_step H y (y\<lparr>ls_calls := (ls_calls y)[k := Answered msg i res], ls_busy := None\<rparr>)"

inductive ledger_reach :: "(bytes \<Rightarrow> bytes) \<Rightarrow> ledger_sys \<Rightarrow> bool" for H where
  ledger_init: "ledger_reach H \<lparr>ls_ledger = new_ledger, ls_calls = [], ls_busy = None\<rparr>"
| ledger_more: "ledger_reach H y \<Longrightarrow> ledger_step H y y' \<Longrightarrow> ledger_reach H y'"

section \<open>Linked blocks\<close>

text \<open>
  Blocks with an encoding and an optional hash of the block before. If the encoding determines
  the hash, then the encoding of the last block determines the encodings of all blocks, unless
  the hash function collides on two of them.
\<close>

definition linked :: "('b \<Rightarrow> bytes) \<Rightarrow> ('b \<Rightarrow> bytes option) \<Rightarrow> (bytes \<Rightarrow> bytes) \<Rightarrow> 'b list \<Rightarrow> bool" where
  "linked enc prev H bs \<longleftrightarrow>
     (\<forall>i < length bs. prev (bs ! i) = (if i = 0 then None else Some (H (enc (bs ! (i - 1))))))"

definition no_collision :: "('b \<Rightarrow> bytes) \<Rightarrow> (bytes \<Rightarrow> bytes) \<Rightarrow> 'b list \<Rightarrow> 'b list \<Rightarrow> bool" where
  "no_collision enc H xs ys \<longleftrightarrow> (\<forall>a \<in> set xs. \<forall>b \<in> set ys. H (enc a) = H (enc b) \<longrightarrow> enc a = enc b)"

lemma linked_snoc:
  "linked enc prev H (bs @ [b]) \<longleftrightarrow>
     linked enc prev H bs \<and> prev b = (if bs = [] then None else Some (H (enc (last bs))))"
  by (auto simp: linked_def nth_append less_Suc_eq last_conv_nth)

locale chained =
  fixes enc :: "'b \<Rightarrow> bytes" and prev :: "'b \<Rightarrow> bytes option"
  assumes enc_prev: "enc a = enc b \<Longrightarrow> prev a = Some x \<Longrightarrow> prev b = Some y \<Longrightarrow> length x = hashSize \<Longrightarrow>
    length y = hashSize \<Longrightarrow> x = y"
begin

lemma last_binds:
  assumes "linked enc prev H xs" and "linked enc prev H ys" and "length xs = length ys"
    and "xs \<noteq> [] \<Longrightarrow> enc (last xs) = enc (last ys)" and "\<And>bs. length (H bs) = hashSize" and "no_collision enc H xs ys"
  shows "map enc xs = map enc ys"
  using assms(1-4,6)
proof (induction xs arbitrary: ys rule: rev_induct)
  case (snoc x xs)
  then obtain y ys' where ys: "ys = ys' @ [y]" by (metis length_0_conv rev_exhaust snoc_eq_iff_butlast)
  have x: "linked enc prev H xs" "linked enc prev H ys'" "length xs = length ys'" "enc x = enc y"
    and nc: "no_collision enc H xs ys'"
    using snoc.prems ys by (auto simp: linked_snoc no_collision_def)
  have "enc (last xs) = enc (last ys')" if "xs \<noteq> []"
  proof -
    have "ys' \<noteq> []" using that x(3) by auto
    then have "H (enc (last xs)) = H (enc (last ys'))"
      using snoc.prems(1,2) that ys enc_prev [OF x(4)] assms(5) by (simp add: linked_snoc)
    with nc that \<open>ys' \<noteq> []\<close> show ?thesis by (simp add: no_collision_def)
  qed
  with snoc.IH [OF x(1-3) _ nc] x(4) show ?case by (simp add: ys)
qed simp

end

lemma length_copy_into [simp]: "length (copy_into dst src) = length dst"
  by (simp add: copy_into_def)

lemma copy_whole: "length src = length dst \<Longrightarrow> copy_into dst src = src"
  by (simp add: copy_into_def)

lemma length_be64 [simp]: "length (be64 w) = 8"
  by (simp add: be64_def)

lemma block_MarshalBinary_inject:
  "block_MarshalBinary a = block_MarshalBinary b \<longleftrightarrow>
     Height a = Height b \<and> octets (Payload a) = octets (Payload b) \<and>
     copy_into (replicate hashSize 0) (octets (PrevBlockHash a)) = copy_into (replicate hashSize 0) (octets (PrevBlockHash b))"
  by (auto simp: block_MarshalBinary_def)

lemma payload_drop: "octets (Payload b) = drop 40 (block_MarshalBinary b)"
  by (simp add: block_MarshalBinary_def)

interpretation bc: chained block_MarshalBinary PrevBlockHash
  by unfold_locales (auto simp: block_MarshalBinary_inject octets_def copy_whole)

section \<open>Invariant of the ledger\<close>

definition ledger_inv :: "(bytes \<Rightarrow> bytes) \<Rightarrow> simple_ledger \<Rightarrow> bool" where
  "ledger_inv H l \<longleftrightarrow>
     ledger_length l = of_nat (length (blocks l)) \<and>
     map Height (blocks l) = map of_nat [1..<Suc (length (blocks l))] \<and>
     linked block_MarshalBinary PrevBlockHash H (blocks l)"

lemma ledger_inv_new: "ledger_inv H new_ledger"
  by (simp add: ledger_inv_def new_ledger_def linked_def)

lemma ledger_last:
  assumes "ledger_inv H l" and "blocks l \<noteq> []" and "length (blocks l) < 2 ^ 64"
  shows "ledger_length l \<noteq> 0 \<and> last_block l = Inr (last (blocks l))"
proof -
  have n: "unat (ledger_length l) = length (blocks l)"
    using assms by (simp add: ledger_inv_def unsigned_of_nat take_bit_nat_eq_self)
  then have "ledger_length l \<noteq> 0" using assms(2) by auto
  moreover from this have "unat (ledger_length l - 1) = length (blocks l) - 1" by (simp add: unat_minus_one n)
  ultimately show ?thesis using assms(2) by (simp add: last_block_def last_conv_nth)
qed

lemma appendBlock_ok:
  assumes "ledger_inv H l" and "length (blocks l) < 2 ^ 64"
  shows "\<exists>b. appendBlock H payload l = (\<lparr>blocks = blocks l @ [b], ledger_length = ledger_length l + 1\<rparr>, Inr b) \<and>
    Payload b = payload \<and> ledger_inv H \<lparr>blocks = blocks l @ [b], ledger_length = ledger_length l + 1\<rparr>"
proof (cases "blocks l = []")
  case True
  then show ?thesis using assms by (simp add: appendBlock_def ledger_inv_def linked_def Let_def)
next
  case False
  with ledger_last [OF assms(1) _ assms(2)] assms(1) show ?thesis
    by (simp add: appendBlock_def ledger_inv_def Let_def linked_snoc block_Hash_def word_neq_0_conv [symmetric])
qed

fun position :: "deliver_call \<Rightarrow> nat option" where
  "position (Queued msg) = None"
| "position (Taken msg i) = Some i"
| "position (Answered msg i res) = Some i"

fun call_done :: "simple_ledger \<Rightarrow> (nat \<times> bytes) option \<Rightarrow> nat \<Rightarrow> deliver_call \<Rightarrow> bool" where
  "call_done l busy k (Queued msg) = (\<forall>res. busy \<noteq> Some (k, res))"
| "call_done l busy k (Taken msg i) =
     (i < length (blocks l) \<and> Payload (blocks l ! i) = msg \<and> busy = Some (k, block_json (blocks l ! i)))"
| "call_done l busy k (Answered msg i res) =
     (i < length (blocks l) \<and> Payload (blocks l ! i) = msg \<and> res = block_json (blocks l ! i) \<and>
      (\<forall>res. busy \<noteq> Some (k, res)))"

text \<open>Every block belongs to exactly one call, and the goroutine is busy with a call that was taken.\<close>

definition calls_inv :: "ledger_sys \<Rightarrow> bool" where
  "calls_inv y \<longleftrightarrow>
     (\<forall>k < length (ls_calls y). call_done (ls_ledger y) (ls_busy y) k (ls_calls y ! k)) \<and>
     (\<forall>k res. ls_busy y = Some (k, res) \<longrightarrow> k < length (ls_calls y)) \<and>
     bij_betw (\<lambda>k. the (position (ls_calls y ! k)))
       {k. k < length (ls_calls y) \<and> position (ls_calls y ! k) \<noteq> None} {..< length (blocks (ls_ledger y))}"

lemma bij_betw_same: "bij_betw f A B \<Longrightarrow> (\<And>a. a \<in> A \<Longrightarrow> g a = f a) \<Longrightarrow> bij_betw g A B"
  using bij_betw_cong [of A g f B] by blast

lemma calls_inv_deliver: "calls_inv y \<Longrightarrow> calls_inv (Deliver msg y)"
proof -
  assume y: "calls_inv y"
  let ?S = "\<lambda>cs. {k. k < length cs \<and> position (cs ! k) \<noteq> None}"
  have S: "?S (ls_calls y @ [Queued msg]) = ?S (ls_calls y)" by (auto simp: nth_append less_Suc_eq)
  have "bij_betw (\<lambda>k. the (position ((ls_calls y @ [Queued msg]) ! k))) (?S (ls_calls y)) {..< length (blocks (ls_ledger y))}"
    using y unfolding calls_inv_def by (elim conjE bij_betw_same) (auto simp: nth_append)
  with y S show ?thesis by (auto simp: calls_inv_def Deliver_def nth_append less_Suc_eq)
qed

lemma calls_inv_take:
  assumes y: "calls_inv y" and "ls_busy y = None" "k < length (ls_calls y)" "ls_calls y ! k = Queued msg"
    and b: "blocks l' = blocks (ls_ledger y) @ [b]" "Payload b = msg"
  shows "calls_inv \<lparr>ls_ledger = l', ls_calls = (ls_calls y)[k := Taken msg (length (blocks (ls_ledger y)))],
    ls_busy = Some (k, block_json b)\<rparr>"
proof -
  let ?n = "length (blocks (ls_ledger y))" and ?cs = "(ls_calls y)[k := Taken msg (length (blocks (ls_ledger y)))]"
  let ?S = "{k. k < length (ls_calls y) \<and> position (ls_calls y ! k) \<noteq> None}"
  have "{j. j < length ?cs \<and> position (?cs ! j) \<noteq> None} = insert k ?S" "k \<notin> ?S"
    using assms(3,4) by (auto simp: nth_list_update)
  moreover have "bij_betw (\<lambda>j. the (position (?cs ! j))) ?S {..< ?n}"
    using y assms(3) \<open>k \<notin> ?S\<close> unfolding calls_inv_def
    by (elim conjE bij_betw_same) (auto simp: nth_list_update)
  then have "bij_betw (\<lambda>j. the (position (?cs ! j))) (insert k ?S) (insert ?n {..< ?n})"
    using notIn_Un_bij_betw [OF \<open>k \<notin> ?S\<close>, of "\<lambda>j. the (position (?cs ! j))" "{..< ?n}"] assms(3) by simp
  moreover have "insert ?n {..< ?n} = {..< Suc ?n}" by auto
  moreover have "call_done l' (Some (k, block_json b)) j (?cs ! j)" if "j < length ?cs" for j
    using y that assms(2,3) b unfolding calls_inv_def
    by (cases "ls_calls y ! j") (auto simp: nth_list_update nth_append dest!: spec [of _ j])
  ultimately show ?thesis using assms(3) b by (simp add: calls_inv_def)
qed


lemma calls_inv_answer:
  assumes y: "calls_inv y" and "ls_busy y = Some (k, res)" "k < length (ls_calls y)" "ls_calls y ! k = Taken msg i"
  shows "calls_inv (y\<lparr>ls_calls := (ls_calls y)[k := Answered msg i res], ls_busy := None\<rparr>)"
proof -
  let ?cs = "(ls_calls y)[k := Answered msg i res]"
  have p: "position (?cs ! j) = position (ls_calls y ! j)" for j
    using assms(3,4) by (cases "j = k") auto
  have "call_done (ls_ledger y) None j (?cs ! j)" if "j < length ?cs" for j
    using y that assms(2-4) unfolding calls_inv_def
    by (cases "ls_calls y ! j") (auto simp: nth_list_update dest!: spec [of _ j])
  with y show ?thesis by (simp add: calls_inv_def p)
qed

lemma ledger_step_calls: "ledger_step H y y' \<Longrightarrow> length (ls_calls y) \<le> length (ls_calls y')"
  by (induction rule: ledger_step.induct) (simp_all add: Deliver_def)

lemma blocks_calls: "calls_inv y \<Longrightarrow> length (blocks (ls_ledger y)) \<le> length (ls_calls y)"
proof -
  let ?S = "{k. k < length (ls_calls y) \<and> position (ls_calls y ! k) \<noteq> None}"
  assume "calls_inv y"
  then have "bij_betw (\<lambda>k. the (position (ls_calls y ! k))) ?S {..< length (blocks (ls_ledger y))}"
    unfolding calls_inv_def by blast
  from bij_betw_same_card [OF this] have "card ?S = length (blocks (ls_ledger y))" by simp
  moreover have "card ?S \<le> card {..< length (ls_calls y)}" by (rule card_mono) auto
  ultimately show ?thesis by simp
qed

lemma ledger_reach_inv:
  "ledger_reach H y \<Longrightarrow> length (ls_calls y) < 2 ^ 64 \<Longrightarrow> ledger_inv H (ls_ledger y) \<and> calls_inv y"
proof (induction rule: ledger_reach.induct)
  case ledger_init
  then show ?case using ledger_inv_new [of H] by (simp add: calls_inv_def new_ledger_def bij_betw_def)
next
  case (ledger_more y y')
  then have y: "ledger_inv H (ls_ledger y)" "calls_inv y" using ledger_step_calls by fastforce+
  from ledger_more.hyps(2) show ?case
  proof cases
    case (deliver msg)
    with y show ?thesis by (simp add: calls_inv_deliver) (simp add: Deliver_def)
  next
    case (take_msg k msg l' block)
    have "length (blocks (ls_ledger y)) < 2 ^ 64" using blocks_calls [OF y(2)] ledger_more.prems take_msg by simp
    from appendBlock_ok [OF y(1) this, of msg] take_msg y(2) show ?thesis by (auto intro!: calls_inv_take)
  next
    case (answer k res msg i)
    with y show ?thesis by (simp add: calls_inv_answer)
  qed
qed


text \<open>A ledger on its own, after the payloads \<open>ps\<close>.\<close>

definition ledger_of :: "(bytes \<Rightarrow> bytes) \<Rightarrow> bytes option list \<Rightarrow> simple_ledger" where
  "ledger_of H ps = foldl (\<lambda>l p. fst (appendBlock H p l)) new_ledger ps"

lemma ledger_of_inv:
  "length ps \<le> 2 ^ 64 \<Longrightarrow> ledger_inv H (ledger_of H ps) \<and> map Payload (blocks (ledger_of H ps)) = ps"
proof (induction ps rule: rev_induct)
  case Nil
  then show ?case using ledger_inv_new [of H] by (simp add: ledger_of_def new_ledger_def)
next
  case (snoc p ps)
  then have "length (blocks (ledger_of H ps)) = length ps" by (metis Suc_leD length_append_singleton length_map)
  with snoc appendBlock_ok [of H "ledger_of H ps" p] show ?case by (auto simp: ledger_of_def)
qed

definition sample_digest :: "bytes \<Rightarrow> bytes" where
  "sample_digest bs = copy_into (replicate hashSize 0) (rev bs)"

section \<open>Properties\<close>

text \<open>
  C38: the ledger is a chain. Its blocks have the heights from one on, each but the first holds the
  hash of the one before, every answered call of \<open>Deliver\<close> got the encoding of the block with its
  payload, no block belongs to two calls, and a call that waits can be served.
\<close>

theorem ledger_chain:
  assumes "ledger_reach H y" and "length (ls_calls y) < 2 ^ 64"
  defines "bs \<equiv> blocks (ls_ledger y)"
  shows "map Height bs = map of_nat [1..<Suc (length bs)] \<and> linked block_MarshalBinary PrevBlockHash H bs \<and>
    (\<forall>k msg i res. k < length (ls_calls y) \<and> ls_calls y ! k = Answered msg i res \<longrightarrow>
       i < length bs \<and> Payload (bs ! i) = msg \<and> res = block_json (bs ! i)) \<and>
    inj_on (\<lambda>k. position (ls_calls y ! k)) {k. k < length (ls_calls y) \<and> position (ls_calls y ! k) \<noteq> None} \<and>
    ((\<exists>msg. Queued msg \<in> set (ls_calls y)) \<longrightarrow> (\<exists>y'. ledger_step H y y' \<and> ls_busy y' \<noteq> ls_busy y))"
proof -
  have inv: "ledger_inv H (ls_ledger y)" "calls_inv y" using ledger_reach_inv [OF assms(1,2)] by auto
  have "i < length bs \<and> Payload (bs ! i) = msg \<and> res = block_json (bs ! i)"
    if "k < length (ls_calls y)" "ls_calls y ! k = Answered msg i res" for k msg i res
    using inv(2) that by (auto simp: calls_inv_def bs_def dest!: spec [of _ k])
  moreover have "inj_on (\<lambda>k. position (ls_calls y ! k)) {k. k < length (ls_calls y) \<and> position (ls_calls y ! k) \<noteq> None}"
    using inv(2) by (auto simp: calls_inv_def bij_betw_def inj_on_def)
  moreover have "\<exists>y'. ledger_step H y y' \<and> ls_busy y' \<noteq> ls_busy y" if q: "Queued msg \<in> set (ls_calls y)" for msg
  proof (cases "ls_busy y")
    case None
    obtain k where k: "k < length (ls_calls y)" "ls_calls y ! k = Queued msg" using q by (auto simp: in_set_conv_nth)
    have "length (blocks (ls_ledger y)) \<le> length (ls_calls y)" by (rule blocks_calls [OF inv(2)])
    with appendBlock_ok [OF inv(1), of msg] assms(2)
    obtain l' b where "appendBlock H msg (ls_ledger y) = (l', Inr b)" by fastforce
    from ledger_step.take_msg [OF None k this] None show ?thesis by fastforce
  next
    case (Some p)
    then obtain k res where b: "ls_busy y = Some (k, res)" by (cases p) auto
    then have k: "k < length (ls_calls y)" using inv(2) by (auto simp: calls_inv_def)
    with inv(2) b obtain msg i where "ls_calls y ! k = Taken msg i"
      by (cases "ls_calls y ! k") (auto simp: calls_inv_def dest!: spec [of _ k])
    from ledger_step.answer [OF b k this] b show ?thesis by fastforce
  qed
  ultimately show ?thesis using inv(1) unfolding ledger_inv_def bs_def by blast
qed

theorem ledger_chain_witness:
  "\<exists>y i res. ledger_reach sample_digest y \<and> ls_calls y = [Answered (Some [7]) i res] \<and>
     Payload (blocks (ls_ledger y) ! i) = Some [7] \<and> res = block_json (blocks (ls_ledger y) ! i)"
proof -
  let ?y0 = "\<lparr>ls_ledger = new_ledger, ls_calls = [Queued (Some [7])], ls_busy = None\<rparr>"
  obtain l b where a: "appendBlock sample_digest (Some [7]) new_ledger = (l, Inr b)" "blocks l = [b]"
    using appendBlock_ok [OF ledger_inv_new, of sample_digest "Some [7]"] by (auto simp: new_ledger_def)
  have "ledger_reach sample_digest ?y0"
    using ledger_more [OF ledger_init ledger_step.deliver [of _ _ "Some [7]"]] by (simp add: Deliver_def)
  from ledger_more [OF this ledger_step.take_msg [of _ 0 "Some [7]" _ l b]] a(1)
  have "ledger_reach sample_digest \<lparr>ls_ledger = l, ls_calls = [Taken (Some [7]) 0], ls_busy = Some (0, block_json b)\<rparr>"
    by (simp add: new_ledger_def)
  from ledger_more [OF this ledger_step.answer [of _ 0 "block_json b" "Some [7]" 0]]
  have r: "ledger_reach sample_digest \<lparr>ls_ledger = l, ls_calls = [Answered (Some [7]) 0 (block_json b)], ls_busy = None\<rparr>"
    by simp
  with ledger_chain [OF r] show ?thesis by (intro exI conjI [OF r]) auto
qed

text \<open>
  C39: what \<open>StateDigest\<close> returns is not a digest: it is the encoding of the last block followed by
  the hash of nothing. It still binds the history: two ledgers with the same digest were delivered
  the same payloads in the same order, unless the hash function collides on two of their blocks.
\<close>

theorem state_digest_binds:
  assumes "ledger_inv H l" and "ledger_inv H l'"
    and "length (blocks l) < 2 ^ 64" and "length (blocks l') < 2 ^ 64"
    and "StateDigest H l = StateDigest H l'" and "\<And>bs. length (H bs) = hashSize"
    and "no_collision block_MarshalBinary H (blocks l) (blocks l')"
  shows "map (\<lambda>b. octets (Payload b)) (blocks l) = map (\<lambda>b. octets (Payload b)) (blocks l') \<and>
    (blocks l \<noteq> [] \<longrightarrow> StateDigest H l = Inr (Some (block_MarshalBinary (last (blocks l)) @ H [])))"
proof -
  have d: "StateDigest H x = (if blocks x = [] then Inr None else Inr (Some (block_MarshalBinary (last (blocks x)) @ H [])))"
    if "ledger_inv H x" "length (blocks x) < 2 ^ 64" for x
    using that ledger_last [of H x] by (auto simp: StateDigest_def ledger_inv_def)
  have e: "blocks l = [] \<longleftrightarrow> blocks l' = []"
    and m: "blocks l \<noteq> [] \<Longrightarrow> block_MarshalBinary (last (blocks l)) = block_MarshalBinary (last (blocks l'))"
    using assms(5) d [OF assms(1,3)] d [OF assms(2,4)] by (auto split: if_splits)
  have "length (blocks l) = length (blocks l')"
  proof (cases "blocks l = []")
    case False
    have "Height (last (blocks x)) = of_nat (length (blocks x))" if "ledger_inv H x" "blocks x \<noteq> []" for x
      using that by (auto simp: ledger_inv_def simp flip: last_map)
    with False e m assms(1,2) have "(of_nat (length (blocks l)) :: u64) = of_nat (length (blocks l'))"
      by (simp add: block_MarshalBinary_inject)
    then show ?thesis using assms(3,4) by (simp add: word_of_nat_eq_iff take_bit_nat_eq_self)
  qed (use e in simp)
  with bc.last_binds [OF _ _ _ m assms(6,7)] assms(1,2)
  have "map block_MarshalBinary (blocks l) = map block_MarshalBinary (blocks l')" by (simp add: ledger_inv_def)
  then have "map (\<lambda>b. octets (Payload b)) (blocks l) = map (\<lambda>b. octets (Payload b)) (blocks l')"
    using map_map [of "drop 40" block_MarshalBinary] by (metis (no_types, lifting) payload_drop map_eq_conv comp_apply)
  with d [OF assms(1,3)] show ?thesis by simp
qed

theorem state_digest_binds_witness:
  "blocks (ledger_of sample_digest [Some [1], None]) \<noteq> blocks (ledger_of sample_digest [Some [1], Some []]) \<and>
   map (\<lambda>b. octets (Payload b)) (blocks (ledger_of sample_digest [Some [1], None])) =
     map (\<lambda>b. octets (Payload b)) (blocks (ledger_of sample_digest [Some [1], Some []]))"
proof -
  let ?l = "ledger_of sample_digest [Some [1], None]" and ?l' = "ledger_of sample_digest [Some [1], Some []]"
  have i: "ledger_inv sample_digest ?l" "map Payload (blocks ?l) = [Some [1], None]"
    "ledger_inv sample_digest ?l'" "map Payload (blocks ?l') = [Some [1], Some []]"
    using ledger_of_inv [of "[Some [1], None]" sample_digest] ledger_of_inv [of "[Some [1], Some []]" sample_digest] by simp_all
  then have "length (blocks ?l) = 2" "length (blocks ?l') = 2" "blocks ?l \<noteq> blocks ?l'" by auto
  moreover have "StateDigest sample_digest ?l = StateDigest sample_digest ?l'"
    "no_collision block_MarshalBinary sample_digest (blocks ?l) (blocks ?l')" by code_simp+
  ultimately show ?thesis
    using state_digest_binds [OF i(1,3)] by (simp add: sample_digest_def)
qed

text \<open>
  Decoding an encoded block restores the height and the payload, and loses the hash of the
  previous block: \<open>copy\<close> copies nothing into the \<open>nil\<close> slice of a new block.
\<close>

lemma block_decode_loses_hash:
  "block_UnmarshalBinary (block_MarshalBinary b) \<lparr>Height = 0, PrevBlockHash = None, Payload = None\<rparr> =
     (\<lparr>Height = Height b, PrevBlockHash = None, Payload = Some (octets (Payload b))\<rparr>, Inr ())"
  by (simp add: block_UnmarshalBinary_def block_MarshalBinary_def read_be64_append Let_def)

end
