(* ===== verification/Spec2Isabelle.thy ===== *)
theory Spec2Isabelle
  imports Agreement Deployment Diagnostics Ledger
begin

text \<open>
  A verification development for MinBFT, a Byzantine fault tolerant replication protocol that needs
  \<open>2f + 1\<close> replicas, because every replica owns a USIG: a tamper-proof counter that assigns
  unique, sequential identifiers (UIs) to messages.

  \<^bold>\<open>The program and its model.\<close> A client signs a request and sends it to all replicas. The primary of
  the view proposes it in a Prepare, the others answer with a Commit, and a replica executes a request
  when \<open>n - f\<close> replicas have committed to it; the client takes a result that more than \<open>f\<close> replicas have
  signed. A replica whose request timer expires asks for a view change; the primary of the new view
  collects ViewChange messages, which carry the logs of the replicas, into a NewView. The Go closures
  that \<open>core/message-handling.go\<close> wires together are functions on explicit state here; errors, panics
  and calls that block are values of a result type (\<open>Prelude\<close>), machine integers are words, and what Go
  leaves open (the order of map iteration, the scheduling of goroutines, the passing of time, what
  arrives from the network) is a parameter or the choice of an event. Names follow the source.

  \<^bold>\<open>Protocol core\<close> (\<open>core\<close>, \<open>core/internal\<close>, \<open>messages\<close>, \<open>usig\<close>):
  \<^item> \<open>Prelude\<close>: results and the handler combinators with their rules, machine words, generic lemmas;
    \<open>Encoding\<close>, \<open>Usig\<close>, \<open>Messages\<close>: big-endian numbers, the UI (\<open>usig/usig.go\<close>), the messages and the
    bytes that are authenticated (\<open>messages/api.go\<close>, \<open>messages/authen.go\<close>).
  \<^item> \<open>ViewState\<close>, \<open>Timer\<close>, \<open>ClientState\<close>, \<open>RequestList\<close>, \<open>MessageLog\<close>: the packages of \<open>core/internal\<close>, each with
    its operations, an invariant, a locale for the contract that its users rely on and an
    interpretation of the locale; locks, blocking calls and streams are step relations.
  \<^item> \<open>Commitments\<close>: acceptor, counter and collector of \<open>core/commit.go\<close>, and that the vector of highest
    counters decides what a tally per proposal would.
  \<^item> \<open>ViewChanges\<close>, \<open>Validation\<close>: certificates and message logs of \<open>core/view-change.go\<close> and \<open>core/new-view.go\<close>;
    validation of every message, signatures and UIs (\<open>core/utils.go\<close>, \<open>core/usig-ui.go\<close>).
  \<^item> \<open>Replica\<close>: the state of a replica and all of its handlers (\<open>core/request.go\<close>, \<open>core/prepare.go\<close>,
    \<open>core/commit.go\<close>, \<open>core/req-view-change.go\<close>, \<open>core/view-change.go\<close>, \<open>core/new-view.go\<close>, \<open>core/timeout.go\<close>,
    \<open>core/message-handling.go\<close>), with the transition relation \<open>node_reach\<close> over the events of a replica.
  \<^item> \<open>ReplicaInvariants\<close>: locales that lift what the small operations keep to all handlers and events;
    \<open>OwnLog\<close>, \<open>RequestInvariants\<close>, \<open>Authentic\<close>, \<open>CommitHistory\<close> and \<open>Agreement\<close> instantiate them: the log of a replica is valid
    for its peers, identifiers are retired once and in order, only signed requests are delivered, what
    is delivered is a function of the accepted commitments, and correct replicas agree.
  \<^item> \<open>Connections\<close>: the goroutines of a replica that read, write and serve connections
    (\<open>core/message-handling.go\<close>, \<open>core/replica.go\<close>), as a transition system that refines \<open>Replica\<close>; the stream that
    answers a Hello is complete. \<open>Scenarios\<close> has concrete runs that the witnesses evaluate.

  \<^bold>\<open>Wire format and diagnostics.\<close> \<open>Protobuf\<close> (\<open>messages/protobuf\<close>): message objects with their cached
  structures, constructors, decoding of nested messages, and that decoding inverts encoding. \<open>Diagnostics\<close>
  (\<open>messages/utils.go\<close>): log lines never panic for received messages and have no control characters.

  \<^bold>\<open>Authentication.\<close> \<open>Asn1\<close>, \<open>SgxUsig\<close> (\<open>usig/sgx\<close>, enclave and shim included): what the enclave certifies and
  what \<open>VerifyUI\<close> accepts. \<open>Base64\<close>, \<open>KeyStore\<close>, \<open>Authentication\<close> (\<open>sample/authentication\<close>): key files, signature
  schemes and the authenticator. \<open>sgx_usig_ok\<close> shows that the SGX USIG meets the contract that the proofs about
  the replica assume.

  \<^bold>\<open>Client.\<close> \<open>RequestBuffer\<close>, \<open>Client\<close>, \<open>ClientConnections\<close> (\<open>client\<close>): the buffer with its streams, submission of
  requests and collection of replies, and the goroutines of the connections, which refine it. \<open>EndToEnd\<close>
  composes a client with replicas: a result that the client returns was computed by a correct replica
  that has verified and delivered the request.

  \<^bold>\<open>Samples.\<close> \<open>Ledger\<close> (\<open>sample/requestconsumer\<close>), \<open>Config\<close> (\<open>sample/config\<close>), \<open>Connectors\<close> (\<open>sample/conn\<close>: connectors,
  stubs, and the goroutines on both ends of a gRPC stream), \<open>Deployment\<close> (\<open>sample/peer/cmd\<close>, the key tool, the
  options of \<open>common/logger\<close>): from a generated key file and a configuration to running replicas and clients.

  \<^bold>\<open>This theory\<close> has the properties that rest on several components.

  \<^bold>\<open>Assumptions.\<close> They are hypotheses of the theorems that need them: signatures of correct nodes are not
  forged; a USIG certifies one message per counter value; map iteration visits every entry once
  (\<open>iter_order\<close>); digests have 32 bytes; what a library decodes is what it has encoded. There is no fuel: loops are
  structural or have a termination proof, and a run of concurrent goroutines is a sequence of steps of
  any length. Lists are not bounded; a nil or a full channel shows as a value or a state in which the
  step is not possible.

  \<^bold>\<open>Not modelled.\<close> Code generated by protoc and mockgen, the packages of test helpers, and \<open>tools/sgx-capability\<close>, which
  prints what the processor supports. The declarations \<open>usig.edl\<close> and \<open>usig.h\<close>, function types and interfaces,
  the functions that only bind arguments of others (such as \<open>defaultMessageHandlers\<close> and the \<open>call_usig\<close> functions of cgo),
  \<open>main\<close> functions, declaration of flags, and the formatting and writing of log lines by the logging library. Of
  \<open>sample/conn/grpc/server\<close>, the registration and the stop of the gRPC server. The libraries (Protocol Buffers, gRPC,
  viper, YAML, X.509, ECDSA, SHA-256, the SGX SDK, the dynamic loader) are parameters. Real time is not modelled:
  a timer that was started may expire at any later moment.
\<close>

section \<open>Execution of requests\<close>

text \<open>
  C1: in every reachable state, the requests of a client that were delivered for execution have
  strictly increasing identifiers, so no request is executed twice or out of order; none of them
  has identifier zero.
\<close>

theorem delivered_once:
  assumes "node_reach c x" and "iter_order (cfg_order c)"
  shows "sorted_wrt (<) (ids_of cid (rs_delivered (nd_replica x))) \<and> 0 \<notin> set (ids_of cid (rs_delivered (nd_replica x)))"
  using reqs_parts(1) [OF reach_reqs [OF assms], of cid] by (auto simp: client_reqs_def)

theorem delivered_once_witness:
  "ids_of 7 (rs_delivered (nd_replica (node_after solo solo_events))) = [1, 2] \<and>
   sorted_wrt (<) (ids_of 7 (rs_delivered (nd_replica (node_after solo solo_events))))"
proof
  show "ids_of 7 (rs_delivered (nd_replica (node_after solo solo_events))) = [1, 2]" by code_simp
  show "sorted_wrt (<) (ids_of 7 (rs_delivered (nd_replica (node_after solo solo_events))))"
    using delivered_once [OF node_after_reach [of solo solo_events], of 7] by (simp add: solo_def)
qed

text \<open>
  C5: a replica executes only requests that clients have signed. Every delivered request has a
  signature that verifies with the key of its client, whatever message brought it to the replica: a client's own connection, a Prepare,
  the log of a ViewChange or the certificate of a NewView. And every reply that a replica holds for a
  client is addressed to it and answers a request of this client that was delivered.
\<close>

theorem delivered_authentic:
  assumes "node_reach c x" and "iter_order (cfg_order c)"
  shows "(\<forall>req \<in> set (rs_delivered (nd_replica x)). signed_request c req) \<and>
    (\<forall>cid rep. reply_to cid (nd_replica x) = Some rep \<longrightarrow> rep_ClientID rep = cid \<and>
       (cid, rep_Sequence rep) \<in> delivered_ids (nd_replica x))"
  using reach_authentic [OF assms] reach_replies [OF assms(1)] by (auto simp: authentic_def replies_inv_def)

theorem delivered_authentic_witness:
  "demo_request 1 \<in> set (rs_delivered (nd_replica (node_after solo solo_answer))) \<and>
   signed_request solo (demo_request 1) \<and>
   (7, 1) \<in> delivered_ids (nd_replica (node_after solo solo_answer))"
proof -
  have d: "demo_request 1 \<in> set (rs_delivered (nd_replica (node_after solo solo_answer)))" by code_simp
  have "iter_order (cfg_order solo)" by (simp add: solo_def)
  note auth = delivered_authentic [OF node_after_reach this, of solo_answer]
  from auth solo_replied have "(7, rep_Sequence solo_reply) \<in> delivered_ids (nd_replica (node_after solo solo_answer))" by blast
  with auth d show ?thesis by (simp add: solo_reply_def)
qed








text \<open>
  C8: the log that a replica keeps of its own certified messages always passes the validation that
  other replicas apply to the log of a ViewChange: for the expected view, and for the counter that
  its USIG assigns next.
\<close>

theorem own_log_valid:
  assumes "node_reach c x" and "usig_ok c" and "viewChangeCertSize c \<noteq> 0"
  shows "validateMessageLog (cfg_id c) (expectedView (rs_view (nd_replica x))) (own_log (nd_replica x))
    (rs_usig (nd_replica x) + 1) = Inr ()"
  using reach_own_inv [OF assms(1)] assms(2,3) by (simp add: own_inv_def validateMessageLog_ok)

theorem own_log_valid_witness:
  "validateMessageLog 1 0 [Commit 1 trio_prepare (ui_at 1)] 2 = Inr ()"
proof -
  have "own_log (nd_replica (node_after trio trio_events)) = [Commit 1 trio_prepare (ui_at 1)]"
    "expectedView (rs_view (nd_replica (node_after trio trio_events))) = 0"
    "rs_usig (nd_replica (node_after trio trio_events)) + 1 = 2" "cfg_id trio = 1" by code_simp+
  moreover have "viewChangeCertSize trio \<noteq> 0" by code_simp
  ultimately show ?thesis
    using own_log_valid [OF node_after_reach [of trio trio_events]] by (simp add: trio_def)
qed

text \<open>
  C10: every ViewChange message that a replica has put into its log for the others is valid: its
  view-change certificate and the message log that it carries pass validation.
\<close>

theorem own_view_change_valid:
  assumes "node_reach c x" and "usig_ok c" and "viewChangeCertSize c \<noteq> 0"
    and "MCertified (CViewChange vc) \<in> set (Messages (rs_log (nd_replica x)))"
  shows "validateViewChange c vc = Inr ()"
proof -
  have "CViewChange vc \<in> set (own_log (nd_replica x))"
    using assms(4) by (force simp: own_log_def certified_msgs_def)
  then show ?thesis
    using reach_own_inv [OF assms(1)] assms(2,3) by (auto simp: own_inv_def own_ok_def)
qed

theorem own_view_change_valid_witness: "validateViewChange trio trio_vc = Inr ()"
proof -
  have "viewChangeCertSize trio \<noteq> 0" by code_simp
  then show ?thesis
    using own_view_change_valid [OF node_after_reach [of trio trio_vc_events], of trio_vc]
    by (simp add: trio_vc_log) (simp add: trio_def)
qed




section \<open>Request bookkeeping\<close>

text \<open>
  C13: in every reachable state and for every client, the identifiers are retired, prepared,
  captured in this order, nothing stays captured without being released, and the list of
  prepared requests holds the request prepared last exactly as long as it is not retired.
\<close>

theorem request_bookkeeping:
  fixes cid :: u32
  assumes "node_reach c x" and "iter_order (cfg_order c)"
  defines "q \<equiv> cs_seq (client_of cid (rs_clients (nd_replica x)))"
  shows "lastRetiredSeq q \<le> lastPreparedSeq q \<and> lastPreparedSeq q \<le> lastCapturedSeq q \<and>
    lastReleasedSeq q = lastCapturedSeq q \<and>
    (case map_of (rs_prepared (nd_replica x)) cid of
       None \<Rightarrow> lastRetiredSeq q = lastPreparedSeq q
     | Some r \<Rightarrow> lastRetiredSeq q < lastPreparedSeq q \<and> req_Sequence r = lastPreparedSeq q)"
  using reqs_parts(1) [OF reach_reqs [OF assms(1,2)], of cid] reqs_parts(2) [OF reach_reqs [OF assms(1,2)], of cid]
  by (auto simp: q_def client_reqs_def client_inv_def seq_inv_def split: option.splits)

theorem request_bookkeeping_witness:
  "let q = cs_seq (client_of 7 (rs_clients (nd_replica (node_after trio trio_events))))
   in lastCapturedSeq q = 1 \<and> lastReleasedSeq q = lastCapturedSeq q"
proof -
  have "lastCapturedSeq (cs_seq (client_of 7 (rs_clients (nd_replica (node_after trio trio_events))))) = 1"
    by code_simp
  then show ?thesis
    using request_bookkeeping [OF node_after_reach [of trio trio_events], of 7] by (simp add: trio_def Let_def)
qed

text \<open>
  A view change un-prepares everything that is prepared and not retired: afterwards the list of
  prepared requests is empty and every client may prepare again right after its last retired
  request, whatever the order in which Go iterates over the list.
\<close>

lemma unprepare_complete:
  assumes "node_reach c x" and "iter_order (cfg_order c)"
  shows "\<exists>s'. unprepareReqs c (nd_replica x) = (s', Inr ()) \<and> map_of (rs_prepared s') = Map.empty \<and>
    (\<forall>cid. lastPreparedSeq (seqs_of s' cid) = lastRetiredSeq (seqs_of s' cid))"
proof -
  obtain s' where u: "unprepareReqs c (nd_replica x) = (s', Inr ())" and inv: "reqs_inv {} {} s'"
    and e: "map_of (rs_prepared s') = Map.empty"
    using unprepare_all [OF reach_reqs [OF assms] assms(2)] by blast
  have "lastPreparedSeq (seqs_of s' cid) = lastRetiredSeq (seqs_of s' cid)" for cid
    using reqs_parts(1) [OF inv, of cid] e by (simp add: client_reqs_def)
  with u e show ?thesis by blast
qed

section \<open>Views and identifiers\<close>

text \<open>C21: no event makes the current or the expected view of a replica decrease.\<close>

theorem views_never_decrease:
  assumes "node_step c x e x'"
  shows "currentView (rs_view (nd_replica x)) \<le> currentView (rs_view (nd_replica x')) \<and>
    expectedView (rs_view (nd_replica x)) \<le> expectedView (rs_view (nd_replica x'))"
  using vc.step_keeps [OF assms, of "currentView (rs_view (nd_replica x))" "expectedView (rs_view (nd_replica x))"]
  by (simp add: views_from_def)

theorem views_never_decrease_witness:
  "\<exists>x'. node_step trio (node_after trio trio_events) EvStream x' \<and>
     expectedView (rs_view (nd_replica (node_after trio trio_events))) \<le> expectedView (rs_view (nd_replica x'))"
proof -
  let ?x = "node_after trio trio_events"
  have "\<not> is_panic (snd (handle_event trio EvStream ?x))" by code_simp
  then have "node_step trio ?x EvStream (fst (handle_event trio EvStream ?x))"
    by (intro node_step) (auto intro: prod_eqI)
  with views_never_decrease [OF this] show ?thesis by blast
qed

text \<open>
  Certified messages of a replica are processed once and in the order of their counters: a
  message is processed only if its counter is the next one, and then the next one is expected;
  an older one is dropped without effect, a newer one is refused without effect.
\<close>

lemma certified_in_order:
  assumes "unat (ReplicaID m) < length (rs_lastUI s)"
  defines "prev \<equiv> rs_lastUI s ! unat (ReplicaID m)"
  shows "case processCertifiedMessage c m s of
      (s', Inr new) \<Rightarrow> Counter (UI m) < prev + 1 \<and> s' = s \<and> \<not> new \<or>
        Counter (UI m) = prev + 1 \<and> rs_lastUI s' = (rs_lastUI s)[unat (ReplicaID m) := prev + 1]
    | (s', Inl e) \<Rightarrow> prev + 1 < Counter (UI m) \<and> s' = s \<or> Counter (UI m) = prev + 1"
proof -
  let ?body = "case m of CViewChange vc \<Rightarrow> processViewChange c vc | _ \<Rightarrow> processViewMessage c m"
  consider "Counter (UI m) < prev + 1" | "prev + 1 < Counter (UI m)" | "Counter (UI m) = prev + 1"
    by (rule linorder_cases)
  then show ?thesis
  proof cases
    case 3
    obtain s1 r where b: "?body s = (s1, r)" by fastforce
    then show ?thesis using 3 assms(1) body_keeps_table [of c m s s1]
      by (cases r) (auto simp: processCertifiedMessage_def prev_def Let_def bindM_def gets_def seqM_def
          modify_def ret_def)
  qed (use assms(1) in \<open>auto simp: processCertifiedMessage_def prev_def Let_def bindM_def gets_def
      ret_def throw_def\<close>)
qed




text \<open>
  A commit certificate and a view-change certificate have a replica in common, whatever the
  number of replicas.
\<close>

lemma certificates_intersect:
  assumes "commitCertSize c \<noteq> 0" and "A \<subseteq> {r. r < cfg_n c}" and "B \<subseteq> {r. r < cfg_n c}"
    and "unat (commitCertSize c) \<le> card A" and "unat (viewChangeCertSize c) \<le> card B"
  shows "A \<inter> B \<noteq> {}"
proof
  assume "A \<inter> B = {}"
  have n: "card {r. r < cfg_n c} = unat (cfg_n c)"
  proof -
    have "unat ` {r. r < cfg_n c} = {..< unat (cfg_n c)}"
    proof
      show "{..< unat (cfg_n c)} \<subseteq> unat ` {r. r < cfg_n c}"
      proof
        fix x assume "x \<in> {..< unat (cfg_n c)}"
        then have "x = unat (of_nat x :: u32)" "(of_nat x :: u32) < cfg_n c"
          using order.strict_trans [OF _ unsigned_less [of "cfg_n c"], of x]
          by (auto simp: unsigned_of_nat take_bit_nat_eq_self word_less_nat_alt)
        then show "x \<in> unat ` {r. r < cfg_n c}" by blast
      qed
    qed (auto simp: word_less_nat_alt)
    then show ?thesis by (metis card_image card_lessThan inj_on_def unsigned_word_eqI)
  qed
  have a: "card A \<le> unat (cfg_n c)" using card_mono [OF finite assms(2)] n by simp
  have "card A + card B \<le> unat (cfg_n c)"
    using \<open>A \<inter> B = {}\<close> assms(2,3) card_mono [OF finite, of "A \<union> B" "{r. r < cfg_n c}"] n
    by (simp add: card_Un_disjoint)
  moreover have "unat (cfg_n c) < unat (commitCertSize c) + unat (viewChangeCertSize c)"
  proof -
    have "unat (cfg_n c - cfg_f c) \<le> unat (cfg_n c)" "unat (cfg_n c - cfg_f c) \<noteq> 0"
      using assms(1,4) a by (auto simp: commitCertSize_def unat_eq_0)
    moreover have "unat (cfg_f c) < 2 ^ 32" "unat (cfg_n c) < 2 ^ 32"
      using unsigned_less [of "cfg_f c"] unsigned_less [of "cfg_n c"] by simp_all
    ultimately have f: "unat (cfg_f c) < unat (cfg_n c)" by (auto simp: unat_sub_if' split: if_splits)
    then have "unat (cfg_f c + 1) = Suc (unat (cfg_f c))"
      using \<open>unat (cfg_n c) < 2 ^ 32\<close> by (simp add: unat_word_ariths)
    with f show ?thesis by (simp add: commitCertSize_def viewChangeCertSize_def unat_sub_if')
  qed
  ultimately show False using assms(4,5) by simp
qed

text \<open>
  C9: the UI of a ViewChange covers the number of the new view only, and that is enough. Two valid
  ViewChange messages of a replica with the same counter, for the same view, whose logs consist of
  messages with valid UIs, have logs with the same contents: a faulty replica cannot reorder, omit
  or duplicate messages of its log.
\<close>

theorem view_change_log_bound:
  assumes "usig_unique c (vc_ReplicaID vc)"
    and "validateViewChange c vc = Inr ()" and "validateViewChange c vc' = Inr ()"
    and "vc_ReplicaID vc' = vc_ReplicaID vc" and "vc_NewView vc' = vc_NewView vc"
    and "Counter (vc_UI vc') = Counter (vc_UI vc)"
    and "\<forall>m \<in> set (vc_MessageLog vc) \<union> set (vc_MessageLog vc'). verifyUI c m = Inr ()"
  shows "map (certified_content (cfg_hash c)) (vc_MessageLog vc') = map (certified_content (cfg_hash c)) (vc_MessageLog vc)"
proof -
  let ?check = "\<lambda>ms. validateMessageLog (vc_ReplicaID vc) (vc_NewView vc - 1) ms (Counter (vc_UI vc)) = Inr ()"
  have v: "?check (vc_MessageLog vc)" "?check (vc_MessageLog vc')"
    using assms(2-6) by (auto simp: validateViewChange_def then_check_def split: sum.splits)
  then have "vc_MessageLog vc = [] \<longleftrightarrow> vc_MessageLog vc' = []"
    using valid_logs_empty [OF v] valid_logs_empty [OF v(2,1)] assms(7) by blast
  with check_log_unique [OF assms(1), of _ _ "rev (vc_MessageLog vc')" "rev (vc_MessageLog vc)"] v assms(7)
  have "map (certified_content (cfg_hash c)) (rev (vc_MessageLog vc')) =
      map (certified_content (cfg_hash c)) (rev (vc_MessageLog vc))"
    by (auto simp: validateMessageLog_def split: if_splits)
  then show ?thesis by (simp add: rev_map [symmetric])
qed

theorem view_change_log_bound_witness:
  "strict_vc [1] \<noteq> strict_vc [] \<and>
   map (certified_content id) (vc_MessageLog (strict_vc [1])) = map (certified_content id) (vc_MessageLog (strict_vc []))"
proof
  show "strict_vc [1] \<noteq> strict_vc []" by (simp add: strict_vc_def demo_request_def)
  have "usig_unique strict 1"
    by (auto simp: usig_unique_def verifyUI_def strict_def verify_tag_def then_check_def guard_err_def split: if_splits)
  moreover have "validateViewChange strict (strict_vc []) = Inr ()" "validateViewChange strict (strict_vc [1]) = Inr ()"
    "list_all (\<lambda>m. verifyUI strict m = Inr ()) (vc_MessageLog (strict_vc []))"
    "list_all (\<lambda>m. verifyUI strict m = Inr ()) (vc_MessageLog (strict_vc [1]))"
    by code_simp+
  moreover have "cfg_hash strict = id" by (simp add: strict_def trio_def demo_config_def)
  ultimately show "map (certified_content id) (vc_MessageLog (strict_vc [1])) = map (certified_content id) (vc_MessageLog (strict_vc []))"
    using view_change_log_bound [of strict "strict_vc []" "strict_vc [1]"]
    by (simp add: strict_vc_def)
qed

text \<open>
  C22: of the goroutines that process requests of a client, at most one holds a captured request;
  requests are captured in the order of their identifiers, none twice; and one that waits waits for
  another that can release.
\<close>

theorem capture_exclusive:
  assumes "capture_reach y"
  shows "(\<forall>t u a b. cp_pcs y t = Some (Holding a) \<and> cp_pcs y u = Some (Holding b) \<longrightarrow> t = u) \<and>
    sorted_wrt (>) (cp_won y) \<and>
    (\<forall>t q. cp_pcs y t = Some (Trying q) \<and> snd (CaptureRequestSeq q (cp_state y)) = Wait \<longrightarrow>
       (\<exists>u y'. u \<noteq> t \<and> (\<exists>a. cp_pcs y u = Some (Holding a)) \<and> capture_step y y' \<and>
          snd (CaptureRequestSeq q (cp_state y')) \<noteq> Wait))"
proof -
  have inv: "capture_inv y" by (rule capture_reach_inv [OF assms])
  have "\<exists>u y'. u \<noteq> t \<and> (\<exists>a. cp_pcs y u = Some (Holding a)) \<and> capture_step y y' \<and>
      snd (CaptureRequestSeq q (cp_state y')) \<noteq> Wait"
    if t: "cp_pcs y t = Some (Trying q)" and w: "snd (CaptureRequestSeq q (cp_state y)) = Wait" for t q
  proof -
    obtain u where u: "u \<noteq> t" "cp_pcs y u = Some (Holding (lastCapturedSeq (cp_state y)))"
      using capture_wait_holder [OF inv t w] by blast
    have "snd (CaptureRequestSeq q (release_seq (cp_state y))) \<noteq> Wait"
      by (auto simp: CaptureRequestSeq_def release_seq_def not_less)
    with u capture_step.release [OF u(2)] show ?thesis by fastforce
  qed
  moreover have "\<forall>t u a b. cp_pcs y t = Some (Holding a) \<and> cp_pcs y u = Some (Holding b) \<longrightarrow> t = u"
    "sorted_wrt (>) (cp_won y)"
    using inv unfolding capture_inv_def by blast+
  ultimately show ?thesis by blast
qed

theorem capture_exclusive_witness:
  "\<exists>y y'. capture_reach y \<and> cp_pcs y 0 = Some (Holding 5) \<and> cp_pcs y 1 = Some (Trying 6) \<and>
     snd (CaptureRequestSeq 6 (cp_state y)) = Wait \<and> capture_step y y' \<and> snd (CaptureRequestSeq 6 (cp_state y')) \<noteq> Wait"
proof -
  let ?s = "newSeqState\<lparr>lastCapturedSeq := 5\<rparr>"
  let ?y = "\<lparr>cp_state = ?s, cp_pcs = [0 \<mapsto> Holding 5, 1 \<mapsto> Trying 6], cp_won = [5]\<rparr>"
  have "capture_reach (capture_start\<lparr>cp_pcs := [0 \<mapsto> Trying 5]\<rparr>)"
    using capture_more [OF capture_init capture_step.enter [of capture_start 0 5]] by (simp add: capture_start_def)
  from capture_more [OF this capture_step.win [of _ 0 5 ?s]]
  have "capture_reach \<lparr>cp_state = ?s, cp_pcs = [0 \<mapsto> Holding 5], cp_won = [5]\<rparr>"
    by (simp add: capture_start_def CaptureRequestSeq_def newSeqState_def)
  from capture_more [OF this capture_step.enter [of _ 1 6]] have r: "capture_reach ?y" by simp
  have w: "snd (CaptureRequestSeq 6 (cp_state ?y)) = Wait" by (simp add: CaptureRequestSeq_def newSeqState_def)
  have t: "cp_pcs ?y 1 = Some (Trying 6)" by simp
  have "\<forall>t q. cp_pcs ?y t = Some (Trying q) \<and> snd (CaptureRequestSeq q (cp_state ?y)) = Wait \<longrightarrow>
      (\<exists>u y'. u \<noteq> t \<and> (\<exists>a. cp_pcs ?y u = Some (Holding a)) \<and> capture_step ?y y' \<and>
         snd (CaptureRequestSeq q (cp_state y')) \<noteq> Wait)"
    using capture_exclusive [OF r] by (rule conjunct2 [OF conjunct2])
  with t w obtain y' where "capture_step ?y y'" "snd (CaptureRequestSeq 6 (cp_state y')) \<noteq> Wait" by blast
  with r w show ?thesis by (intro exI [of _ ?y] exI [of _ y']) auto
qed

end
